(* ===== verification/Prelude.thy ===== *)
theory Prelude
  imports Main "HOL-Library.Word" "HOL-Library.Mapping" "HOL-Library.Monad_Syntax"
begin

text \<open>
  Shared vocabulary of the development: the machine integer types of the C++ code,
  the status values of its fallible operations, and generic facts on words, options
  and association lists that the component theories use.
\<close>

section \<open>Machine integers and status values\<close>

type_synonym u8 = "8 word"
type_synonym u16 = "16 word"
type_synonym u32 = "32 word"
type_synonym u64 = "64 word"
type_synonym bytes = "8 word list"

text \<open>
  The \<open>absl::Status\<close> codes the modelled code returns. A fallible operation returns
  \<open>Inl\<close> of a code or \<open>Inr\<close> of its result; message texts are not modelled.
\<close>

datatype status =
    InvalidArgument
  | FailedPrecondition
  | OutOfRange
  | ResourceExhausted
  | DeadlineExceeded
  | NotFound
  | Unavailable
  | AlreadyExists
  | Internal
  | DataLoss

type_synonym 'a status_or = "status + 'a"

text \<open>
  Rule collections: \<open>unat_simps\<close> moves bounded word counters to \<^typ>\<open>nat\<close>,
  \<open>cell_simps\<close> reads lock cells after a table update.
\<close>

named_theorems unat_simps
named_theorems cell_simps

section \<open>Words as bounded counters\<close>

lemma unat_plus_one [unat_simps]:
  fixes w :: "'a::len word"
  assumes "unat w + 1 < 2 ^ LENGTH('a)"
  shows "unat (w + 1) = unat w + 1"
  using assms by (simp add: unat_word_ariths)

lemma unat_minus_one_pos [unat_simps]:
  fixes w :: "'a::len word"
  assumes "w \<noteq> 0"
  shows "unat (w - 1) = unat w - 1"
  using assms by (simp add: unat_minus_one)

lemma unat_pos_iff [unat_simps]: "0 < unat w \<longleftrightarrow> w \<noteq> 0"
  by (simp add: unat_gt_0)

lemma word_eq_one_iff_unat: "(w :: 'a::len word) = 1 \<longleftrightarrow> unat w = 1"
  by (metis unat_1 word_unat_eq_iff)

lemma word_less_plus_one: "x + 1 \<noteq> 0 \<Longrightarrow> x < x + (1 :: 'a :: len word)"
  by (simp add: word_less_nat_alt unatSuc add.commute)

lemma word_below_succ: "v \<noteq> - 1 \<Longrightarrow> v < v + (1 :: 'a :: len word)"
  by (rule word_less_plus_one) (metis add.inverse_inverse add_eq_0_iff)

lemma word_less_succ_iff: "v \<noteq> - 1 \<Longrightarrow> x < v + 1 \<longleftrightarrow> x \<le> (v :: 'a :: len word)"
  using word_below_succ [of v] inc_le [of v x] by (meson leD leI le_less_trans)

text \<open>Running a list of fallible steps.\<close>

fun run_steps :: "('op \<Rightarrow> 's \<Rightarrow> 's option) \<Rightarrow> 'op list \<Rightarrow> 's \<Rightarrow> 's option" where
  "run_steps stp [] s = Some s"
| "run_steps stp (op # ops) s = Option.bind (stp op s) (run_steps stp ops)"

lemma run_steps_append:
  "run_steps stp (ops @ ops') s = Option.bind (run_steps stp ops s) (run_steps stp ops')"
  by (induction ops arbitrary: s) (auto split: bind_splits)

lemma lookup_delete_if: "Mapping.lookup (Mapping.delete k m) k' = (if k' = k then None else Mapping.lookup m k')"
  by transfer auto

end
