(* ===== verification/Lock_Table.thy ===== *)
theory Lock_Table
  imports Prelude
begin

text \<open>
  The per-database lock table of the transaction scheduler,
  \<^verbatim>\<open>include/lavik/tx/intent_lock.h\<close> and \<^verbatim>\<open>include/lavik/tx/fingerprint.h\<close>: two layers
  of counters (intents and holds) per lock fingerprint. A table is a finite mapping from
  fingerprints to \<open>IntentLock\<close> records of 32-bit counters. Every \<open>assert\<close> of the code is
  a guard of the model: an operation whose assertion fails returns \<open>None\<close>.
\<close>

section \<open>Data\<close>

datatype LockMode = kShared | kExclusive

record KeyRef =
  kr_fp :: u64
  kr_mode :: LockMode
  kr_db :: u8

record IntentLock =
  shared_intent :: u32
  exclusive_intent :: u32
  shared_held :: u32
  exclusive_held :: u32

definition free_lock :: IntentLock where
  "free_lock = \<lparr>shared_intent = 0, exclusive_intent = 0, shared_held = 0, exclusive_held = 0\<rparr>"

definition IsFree :: "IntentLock \<Rightarrow> bool" where
  "IsFree l \<longleftrightarrow> shared_intent l = 0 \<and> exclusive_intent l = 0 \<and>
     shared_held l = 0 \<and> exclusive_held l = 0"

type_synonym LockTable = "(u64, IntentLock) mapping"

text \<open>\<open>map_[fp]\<close>: the entry, value-initialised when the key is absent.\<close>

definition lock_at :: "LockTable \<Rightarrow> u64 \<Rightarrow> IntentLock" where
  "lock_at t fp = (case Mapping.lookup t fp of None \<Rightarrow> free_lock | Some l \<Rightarrow> l)"

definition size_of :: "LockTable \<Rightarrow> nat" where
  "size_of t = Mapping.size t"

section \<open>Operations\<close>

text \<open>The tail of both release operations: \<open>if (lock.IsFree()) map_.erase(it)\<close>.\<close>

definition store_or_erase :: "LockTable \<Rightarrow> u64 \<Rightarrow> IntentLock \<Rightarrow> LockTable" where
  "store_or_erase t fp l = (if IsFree l then Mapping.delete fp t else Mapping.update fp l t)"

definition AcquireIntentAndHoldIfGranted ::
    "LockTable \<Rightarrow> u64 \<Rightarrow> LockMode \<Rightarrow> (LockTable \<times> bool) option" where
  "AcquireIntentAndHoldIfGranted t fp mode =
     (let lock = lock_at t fp in
      case mode of
        kShared \<Rightarrow>
          let lock = lock\<lparr>shared_intent := shared_intent lock + 1\<rparr> in
          if exclusive_intent lock \<noteq> 0 then Some (Mapping.update fp lock t, False)
          else if exclusive_held lock \<noteq> 0 then None
          else Some (Mapping.update fp (lock\<lparr>shared_held := shared_held lock + 1\<rparr>) t, True)
      | kExclusive \<Rightarrow>
          let lock = lock\<lparr>exclusive_intent := exclusive_intent lock + 1\<rparr> in
          if shared_intent lock \<noteq> 0 \<or> exclusive_intent lock \<noteq> 1
            then Some (Mapping.update fp lock t, False)
          else if shared_held lock \<noteq> 0 \<or> exclusive_held lock \<noteq> 0 then None
          else Some (Mapping.update fp (lock\<lparr>exclusive_held := 1\<rparr>) t, True))"

definition ReleaseHoldAndIntent :: "LockTable \<Rightarrow> u64 \<Rightarrow> LockMode \<Rightarrow> LockTable option" where
  "ReleaseHoldAndIntent t fp mode =
     (case Mapping.lookup t fp of
        None \<Rightarrow> None
      | Some lock \<Rightarrow>
          (case mode of
             kShared \<Rightarrow>
               if shared_intent lock = 0 \<or> shared_held lock = 0 then None
               else Some (store_or_erase t fp
                 (lock\<lparr>shared_intent := shared_intent lock - 1, shared_held := shared_held lock - 1\<rparr>))
           | kExclusive \<Rightarrow>
               if exclusive_intent lock = 0 \<or> exclusive_held lock \<noteq> 1 then None
               else Some (store_or_erase t fp
                 (lock\<lparr>exclusive_intent := exclusive_intent lock - 1, exclusive_held := 0\<rparr>))))"

definition AcquireIntent :: "LockTable \<Rightarrow> u64 \<Rightarrow> LockMode \<Rightarrow> LockTable \<times> bool" where
  "AcquireIntent t fp mode =
     (let lock = lock_at t fp in
      case mode of
        kShared \<Rightarrow>
          (Mapping.update fp (lock\<lparr>shared_intent := shared_intent lock + 1\<rparr>) t,
           exclusive_intent lock = 0)
      | kExclusive \<Rightarrow>
          let lock = lock\<lparr>exclusive_intent := exclusive_intent lock + 1\<rparr> in
          (Mapping.update fp lock t, shared_intent lock = 0 \<and> exclusive_intent lock = 1))"

definition ReleaseIntent :: "LockTable \<Rightarrow> u64 \<Rightarrow> LockMode \<Rightarrow> LockTable option" where
  "ReleaseIntent t fp mode =
     (case Mapping.lookup t fp of
        None \<Rightarrow> None
      | Some lock \<Rightarrow>
          (case mode of
             kShared \<Rightarrow>
               if shared_intent lock = 0 then None
               else Some (store_or_erase t fp (lock\<lparr>shared_intent := shared_intent lock - 1\<rparr>))
           | kExclusive \<Rightarrow>
               if exclusive_intent lock = 0 then None
               else Some (store_or_erase t fp
                 (lock\<lparr>exclusive_intent := exclusive_intent lock - 1\<rparr>))))"

definition CanHold :: "LockTable \<Rightarrow> u64 \<Rightarrow> LockMode \<Rightarrow> bool" where
  "CanHold t fp mode =
     (case Mapping.lookup t fp of
        None \<Rightarrow> True
      | Some lock \<Rightarrow>
          (case mode of
             kShared \<Rightarrow> exclusive_held lock = 0
           | kExclusive \<Rightarrow> shared_held lock = 0 \<and> exclusive_held lock = 0))"

definition AcquireHold :: "LockTable \<Rightarrow> u64 \<Rightarrow> LockMode \<Rightarrow> LockTable option" where
  "AcquireHold t fp mode =
     (if \<not> CanHold t fp mode then None
      else let lock = lock_at t fp in
        case mode of
          kShared \<Rightarrow> Some (Mapping.update fp (lock\<lparr>shared_held := shared_held lock + 1\<rparr>) t)
        | kExclusive \<Rightarrow>
            if exclusive_held lock \<noteq> 0 then None
            else Some (Mapping.update fp (lock\<lparr>exclusive_held := exclusive_held lock + 1\<rparr>) t))"

definition ReleaseHold :: "LockTable \<Rightarrow> u64 \<Rightarrow> LockMode \<Rightarrow> LockTable option" where
  "ReleaseHold t fp mode =
     (case Mapping.lookup t fp of
        None \<Rightarrow> None
      | Some lock \<Rightarrow>
          (case mode of
             kShared \<Rightarrow>
               if shared_held lock = 0 then None
               else Some (Mapping.update fp (lock\<lparr>shared_held := shared_held lock - 1\<rparr>) t)
           | kExclusive \<Rightarrow>
               if exclusive_held lock \<noteq> 1 then None
               else Some (Mapping.update fp (lock\<lparr>exclusive_held := 0\<rparr>) t)))"

section \<open>Reading cells after an operation\<close>

lemma lock_at_empty [simp]: "lock_at Mapping.empty fp = free_lock"
  by (simp add: lock_at_def)

lemma lock_at_update [cell_simps]:
  "lock_at (Mapping.update fp l t) g = (if g = fp then l else lock_at t g)"
  by (simp add: lock_at_def Mapping.lookup_update')

lemma lock_at_delete [cell_simps]:
  "lock_at (Mapping.delete fp t) g = (if g = fp then free_lock else lock_at t g)"
  by (cases "g = fp") (simp_all add: lock_at_def)

lemma IsFree_iff: "IsFree l \<longleftrightarrow> l = free_lock"
  by (cases l) (auto simp: IsFree_def free_lock_def)

lemma lock_at_store_or_erase [cell_simps]:
  "lock_at (store_or_erase t fp l) g = (if g = fp then l else lock_at t g)"
  by (auto simp: store_or_erase_def cell_simps IsFree_iff)

lemma lookup_lock_at: "Mapping.lookup t fp = Some l \<Longrightarrow> lock_at t fp = l"
  by (simp add: lock_at_def)

lemma lookup_of_nonfree: "lock_at t fp \<noteq> free_lock \<Longrightarrow> Mapping.lookup t fp = Some (lock_at t fp)"
  by (auto simp: lock_at_def split: option.splits)

text \<open>A table stores no free entry: an entry leaves the map with its last registration.\<close>

definition tidy :: "LockTable \<Rightarrow> bool" where
  "tidy t \<longleftrightarrow> (\<forall>fp l. Mapping.lookup t fp = Some l \<longrightarrow> \<not> IsFree l)"

lemma tidy_empty [simp]: "tidy Mapping.empty"
  by (simp add: tidy_def)

lemma tidy_update: "tidy t \<Longrightarrow> \<not> IsFree l \<Longrightarrow> tidy (Mapping.update fp l t)"
  by (auto simp: tidy_def Mapping.lookup_update')

lemma tidy_delete: "tidy t \<Longrightarrow> tidy (Mapping.delete fp t)"
  unfolding tidy_def by (metis Mapping.lookup_delete Mapping.lookup_delete_neq option.discI)

lemma tidy_store_or_erase: "tidy t \<Longrightarrow> tidy (store_or_erase t fp l)"
  by (auto simp: store_or_erase_def tidy_update tidy_delete)

lemma tidy_lookup: "tidy t \<Longrightarrow> Mapping.lookup t fp = (if lock_at t fp = free_lock then None else Some (lock_at t fp))"
  by (auto simp: tidy_def lock_at_def IsFree_iff split: option.splits)

text \<open>Two tidy tables with the same cells are the same table.\<close>

lemma tidy_eqI:
  assumes "tidy t" "tidy u" "\<And>fp. lock_at t fp = lock_at u fp"
  shows "t = u"
  by (rule mapping_eqI) (simp add: tidy_lookup assms)

section \<open>The contract of a per-key operation\<close>

text \<open>
  Four of the operations act on the cell of one fingerprint and leave all others alone.
  The contract: the operation's assertions hold exactly when \<open>pre\<close> holds of the cell, the
  new cell is \<open>eff\<close> of the old one, and under \<open>keep\<close> the table stays tidy. The key-set
  operations of the shard are proved once against this contract.
\<close>

locale cell_op =
  fixes opr :: "LockTable \<Rightarrow> u64 \<Rightarrow> LockMode \<Rightarrow> LockTable option"
    and pre :: "LockMode \<Rightarrow> IntentLock \<Rightarrow> bool"
    and eff :: "LockMode \<Rightarrow> IntentLock \<Rightarrow> IntentLock"
    and keep :: "LockMode \<Rightarrow> IntentLock \<Rightarrow> bool"
  assumes opr_defined: "pre m (lock_at t fp) \<Longrightarrow> \<exists>t'. opr t fp m = Some t'"
    and opr_pre: "opr t fp m = Some t' \<Longrightarrow> pre m (lock_at t fp)"
    and opr_cell: "opr t fp m = Some t' \<Longrightarrow>
      lock_at t' g = (if g = fp then eff m (lock_at t fp) else lock_at t g)"
    and opr_tidy: "opr t fp m = Some t' \<Longrightarrow> keep m (lock_at t fp) \<Longrightarrow> tidy t \<Longrightarrow> tidy t'"

definition add_intent :: "LockMode \<Rightarrow> IntentLock \<Rightarrow> IntentLock" where
  "add_intent m l = (case m of
      kShared \<Rightarrow> l\<lparr>shared_intent := shared_intent l + 1\<rparr>
    | kExclusive \<Rightarrow> l\<lparr>exclusive_intent := exclusive_intent l + 1\<rparr>)"

definition del_intent :: "LockMode \<Rightarrow> IntentLock \<Rightarrow> IntentLock" where
  "del_intent m l = (case m of
      kShared \<Rightarrow> l\<lparr>shared_intent := shared_intent l - 1\<rparr>
    | kExclusive \<Rightarrow> l\<lparr>exclusive_intent := exclusive_intent l - 1\<rparr>)"

definition add_hold :: "LockMode \<Rightarrow> IntentLock \<Rightarrow> IntentLock" where
  "add_hold m l = (case m of
      kShared \<Rightarrow> l\<lparr>shared_held := shared_held l + 1\<rparr>
    | kExclusive \<Rightarrow> l\<lparr>exclusive_held := exclusive_held l + 1\<rparr>)"

definition del_hold :: "LockMode \<Rightarrow> IntentLock \<Rightarrow> IntentLock" where
  "del_hold m l = (case m of
      kShared \<Rightarrow> l\<lparr>shared_held := shared_held l - 1\<rparr>
    | kExclusive \<Rightarrow> l\<lparr>exclusive_held := 0\<rparr>)"

definition has_intent :: "LockMode \<Rightarrow> IntentLock \<Rightarrow> bool" where
  "has_intent m l = (case m of kShared \<Rightarrow> shared_intent l \<noteq> 0 | kExclusive \<Rightarrow> exclusive_intent l \<noteq> 0)"

definition has_hold :: "LockMode \<Rightarrow> IntentLock \<Rightarrow> bool" where
  "has_hold m l = (case m of kShared \<Rightarrow> shared_held l \<noteq> 0 | kExclusive \<Rightarrow> exclusive_held l = 1)"

definition holdable :: "LockMode \<Rightarrow> IntentLock \<Rightarrow> bool" where
  "holdable m l = (case m of
      kShared \<Rightarrow> exclusive_held l = 0
    | kExclusive \<Rightarrow> shared_held l = 0 \<and> exclusive_held l = 0)"

definition grantable :: "LockMode \<Rightarrow> IntentLock \<Rightarrow> bool" where
  "grantable m l = (case m of
      kShared \<Rightarrow> exclusive_intent l = 0
    | kExclusive \<Rightarrow> shared_intent l = 0 \<and> exclusive_intent l = 0)"

lemmas cell_eff_defs =
  add_intent_def del_intent_def add_hold_def del_hold_def
  has_intent_def has_hold_def holdable_def grantable_def

abbreviation intent_recorded :: "LockTable \<Rightarrow> u64 \<Rightarrow> LockMode \<Rightarrow> LockTable option" where
  "intent_recorded t fp m \<equiv> Some (fst (AcquireIntent t fp m))"

lemma CanHold_cell: "CanHold t fp m \<longleftrightarrow> holdable m (lock_at t fp)"
  by (cases m) (auto simp: CanHold_def holdable_def lock_at_def free_lock_def split: option.splits)

lemma AcquireIntent_granted: "snd (AcquireIntent t fp m) \<longleftrightarrow> grantable m (lock_at t fp)"
  by (cases m) (auto simp: AcquireIntent_def grantable_def Let_def)

lemma AcquireIntent_table: "fst (AcquireIntent t fp m) = Mapping.update fp (add_intent m (lock_at t fp)) t"
  by (cases m) (auto simp: AcquireIntent_def add_intent_def Let_def)

lemma ReleaseIntent_table:
  "ReleaseIntent t fp m =
     (if has_intent m (lock_at t fp) then Some (store_or_erase t fp (del_intent m (lock_at t fp))) else None)"
  by (cases m) (auto simp: ReleaseIntent_def cell_eff_defs lock_at_def free_lock_def split: option.splits)

lemma AcquireHold_table:
  "AcquireHold t fp m =
     (if holdable m (lock_at t fp) then Some (Mapping.update fp (add_hold m (lock_at t fp)) t) else None)"
  by (cases m) (auto simp: AcquireHold_def CanHold_cell cell_eff_defs Let_def)

lemma ReleaseHold_table:
  "ReleaseHold t fp m =
     (if has_hold m (lock_at t fp) then Some (Mapping.update fp (del_hold m (lock_at t fp)) t) else None)"
  by (cases m) (auto simp: ReleaseHold_def cell_eff_defs lock_at_def free_lock_def split: option.splits)

interpretation acq_intent: cell_op intent_recorded "\<lambda>_ _. True" add_intent "\<lambda>m l. \<not> IsFree (add_intent m l)"
  by unfold_locales (auto simp: AcquireIntent_table cell_simps tidy_update)

interpretation rel_intent: cell_op ReleaseIntent has_intent del_intent "\<lambda>_ _. True"
  by unfold_locales (auto simp: ReleaseIntent_table cell_simps tidy_store_or_erase split: if_splits)

interpretation acq_hold: cell_op AcquireHold holdable add_hold "\<lambda>m l. \<not> IsFree (add_hold m l)"
  by unfold_locales (auto simp: AcquireHold_table cell_simps tidy_update split: if_splits)

interpretation rel_hold: cell_op ReleaseHold has_hold del_hold "\<lambda>m l. \<not> IsFree (del_hold m l)"
  by unfold_locales (auto simp: ReleaseHold_table cell_simps tidy_update split: if_splits)

section \<open>The fused operations\<close>

text \<open>
  The counters of a cell respect the two-layer discipline: a hold implies an intent of the
  same mode, an exclusive hold is single and excludes shared holds.
\<close>

definition cell_ok :: "IntentLock \<Rightarrow> bool" where
  "cell_ok l \<longleftrightarrow>
     shared_held l \<le> shared_intent l \<and> exclusive_held l \<le> exclusive_intent l \<and>
     exclusive_held l \<le> 1 \<and> (exclusive_held l = 0 \<or> shared_held l = 0)"

lemma grantable_holdable: "cell_ok l \<Longrightarrow> grantable m l \<Longrightarrow> holdable m l"
  by (cases m) (auto simp: cell_ok_def grantable_def holdable_def)

lemma holdable_add_intent [simp]: "holdable m (add_intent m' l) = holdable m l"
  by (cases m; cases m') (auto simp: holdable_def add_intent_def)

text \<open>The single-probe acquisition is the two-step acquisition.\<close>

lemma AcquireIntentAndHoldIfGranted_two_step:
  assumes "cell_ok (lock_at t fp)"
  shows "AcquireIntentAndHoldIfGranted t fp m =
    (let (u, granted) = AcquireIntent t fp m
     in if granted then map_option (\<lambda>v. (v, True)) (AcquireHold u fp m) else Some (u, False))"
proof (cases m)
  case kShared
  with assms show ?thesis
    by (auto simp: AcquireIntentAndHoldIfGranted_def AcquireIntent_def AcquireHold_table Let_def
        cell_simps cell_eff_defs cell_ok_def Mapping.update_update)
next
  case kExclusive
  with assms show ?thesis
    by (auto simp: AcquireIntentAndHoldIfGranted_def AcquireIntent_def AcquireHold_table Let_def
        cell_simps cell_eff_defs cell_ok_def Mapping.update_update)
qed

lemma store_or_erase_update: "store_or_erase (Mapping.update fp l t) fp l' = store_or_erase t fp l'"
  by (simp add: store_or_erase_def Mapping.update_update Mapping.delete_update)

text \<open>The single-probe release is the two-step release, with the same assertions.\<close>

lemma ReleaseHoldAndIntent_two_step:
  "ReleaseHoldAndIntent t fp m = Option.bind (ReleaseHold t fp m) (\<lambda>u. ReleaseIntent u fp m)"
proof (cases "Mapping.lookup t fp")
  case None
  then show ?thesis by (simp add: ReleaseHoldAndIntent_def ReleaseHold_def)
next
  case (Some lock)
  then show ?thesis
    by (cases lock; cases m)
       (auto simp: ReleaseHoldAndIntent_def ReleaseHold_def ReleaseIntent_def store_or_erase_update)
qed

end
