(* ===== verification/Key_Sets.thy ===== *)
theory Key_Sets
  imports Lock_Table "HOL-Library.Multiset"
begin

text \<open>
  The key-set lock operations of \<^verbatim>\<open>TxShard\<close> (\<^verbatim>\<open>include/lavik/tx/tx_shard.h\<close>): each
  dispatches every key reference of a set to the lock table of its database. The array of
  tables is a list; an index past its end (undefined behaviour of \<open>std::array\<close>) is
  \<open>None\<close>, like a failed assertion.

  The abstract view is a pair of multisets of key sets: the registered intents and the
  holds among them. \<open>lock_inv\<close> relates the 32-bit counters of all tables to that pair,
  and one lemma per operation shows that the operation fails no assertion and acts on the
  pair as its name says.
\<close>

section \<open>Operations\<close>

definition kLogicalDatabaseCount :: nat where
  "kLogicalDatabaseCount = 16"

definition with_table ::
    "(LockTable \<Rightarrow> LockTable option) \<Rightarrow> LockTable list \<Rightarrow> u8 \<Rightarrow> LockTable list option" where
  "with_table f ls db =
     (if unat db < length ls
      then map_option (\<lambda>t. ls[unat db := t]) (f (ls ! unat db)) else None)"

fun for_keys ::
    "(LockTable \<Rightarrow> u64 \<Rightarrow> LockMode \<Rightarrow> LockTable option) \<Rightarrow>
     LockTable list \<Rightarrow> KeyRef list \<Rightarrow> LockTable list option" where
  "for_keys f ls [] = Some ls"
| "for_keys f ls (key # keys) =
     do { ls' \<leftarrow> with_table (\<lambda>t. f t (kr_fp key) (kr_mode key)) ls (kr_db key);
          for_keys f ls' keys }"

fun AcquireIntents :: "LockTable list \<Rightarrow> KeyRef list \<Rightarrow> (LockTable list \<times> bool) option" where
  "AcquireIntents ls [] = Some (ls, True)"
| "AcquireIntents ls (key # keys) =
     (if unat (kr_db key) < length ls then
        let (t, granted) = AcquireIntent (ls ! unat (kr_db key)) (kr_fp key) (kr_mode key) in
        do { (ls', rest) \<leftarrow> AcquireIntents (ls[unat (kr_db key) := t]) keys;
             Some (ls', granted \<and> rest) }
      else None)"

definition ReleaseIntents :: "LockTable list \<Rightarrow> KeyRef list \<Rightarrow> LockTable list option" where
  "ReleaseIntents = for_keys ReleaseIntent"

fun CanHoldAll :: "LockTable list \<Rightarrow> KeyRef list \<Rightarrow> bool option" where
  "CanHoldAll ls [] = Some True"
| "CanHoldAll ls (key # keys) =
     (if unat (kr_db key) < length ls then
        if \<not> CanHold (ls ! unat (kr_db key)) (kr_fp key) (kr_mode key) then Some False
        else CanHoldAll ls keys
      else None)"

definition AcquireHolds :: "LockTable list \<Rightarrow> KeyRef list \<Rightarrow> LockTable list option" where
  "AcquireHolds = for_keys AcquireHold"

definition ReleaseHolds :: "LockTable list \<Rightarrow> KeyRef list \<Rightarrow> LockTable list option" where
  "ReleaseHolds = for_keys ReleaseHold"

section \<open>Key sets and conflicts\<close>

definition key_id :: "KeyRef \<Rightarrow> u8 \<times> u64" where
  "key_id k = (kr_db k, kr_fp k)"

definition mode_in :: "KeyRef list \<Rightarrow> u8 \<times> u64 \<Rightarrow> LockMode option" where
  "mode_in ks = map_of (map (\<lambda>k. (key_id k, kr_mode k)) ks)"

text \<open>The documented precondition of a key set: databases in range, no \<open>(db, fp)\<close> twice.\<close>

definition keys_ok :: "KeyRef list \<Rightarrow> bool" where
  "keys_ok ks \<longleftrightarrow> distinct (map key_id ks) \<and> (\<forall>k\<in>set ks. unat (kr_db k) < kLogicalDatabaseCount)"

definition key_conflict :: "KeyRef \<Rightarrow> KeyRef \<Rightarrow> bool" where
  "key_conflict k j \<longleftrightarrow> key_id k = key_id j \<and> (kr_mode k = kExclusive \<or> kr_mode j = kExclusive)"

definition conflict :: "KeyRef list \<Rightarrow> KeyRef list \<Rightarrow> bool" where
  "conflict ks js \<longleftrightarrow> (\<exists>k\<in>set ks. \<exists>j\<in>set js. key_conflict k j)"

lemma key_conflict_sym: "key_conflict k j \<longleftrightarrow> key_conflict j k"
  by (auto simp: key_conflict_def)

lemma conflict_sym: "conflict ks js \<longleftrightarrow> conflict js ks"
  using key_conflict_sym by (auto simp: conflict_def)

lemma mode_in_simps [simp]:
  "mode_in [] x = None"
  "mode_in (k # ks) x = (if key_id k = x then Some (kr_mode k) else mode_in ks x)"
  by (simp_all add: mode_in_def)

lemma mode_in_mem: "keys_ok ks \<Longrightarrow> k \<in> set ks \<Longrightarrow> mode_in ks (key_id k) = Some (kr_mode k)"
  unfolding mode_in_def keys_ok_def by (auto simp: comp_def intro!: map_of_is_SomeI)

lemma mode_in_SomeD: "mode_in ks x = Some m \<Longrightarrow> \<exists>k\<in>set ks. key_id k = x \<and> kr_mode k = m"
  by (induction ks) (auto split: if_splits)

lemma conflictI:
  "mode_in ks x = Some m \<Longrightarrow> mode_in js x = Some m' \<Longrightarrow> m = kExclusive \<or> m' = kExclusive \<Longrightarrow> conflict ks js"
  by (drule mode_in_SomeD, drule mode_in_SomeD) (auto simp: conflict_def key_conflict_def)

lemma conflict_iff_mode_in:
  assumes "keys_ok js"
  shows "conflict ks js \<longleftrightarrow>
    (\<exists>k\<in>set ks. \<exists>m'. mode_in js (key_id k) = Some m' \<and> (kr_mode k = kExclusive \<or> m' = kExclusive))"
    (is "_ \<longleftrightarrow> ?R")
proof
  assume "conflict ks js"
  then obtain k j where "k \<in> set ks" "j \<in> set js" "key_id k = key_id j"
      "kr_mode k = kExclusive \<or> kr_mode j = kExclusive"
    by (auto simp: conflict_def key_conflict_def)
  then show ?R using mode_in_mem [OF assms, of j] by (intro bexI [of _ k]) auto
next
  assume ?R
  then obtain k j where "k \<in> set ks" "j \<in> set js" "key_id j = key_id k"
      "kr_mode k = kExclusive \<or> kr_mode j = kExclusive"
    by (auto dest!: mode_in_SomeD)
  then show "conflict ks js"
    unfolding conflict_def key_conflict_def by (intro bexI [of _ k] bexI [of _ j]) auto
qed

section \<open>Cells across databases\<close>

definition cells :: "LockTable list \<Rightarrow> u8 \<times> u64 \<Rightarrow> IntentLock" where
  "cells ls x = (if unat (fst x) < length ls then lock_at (ls ! unat (fst x)) (snd x) else free_lock)"

lemma cells_key_id: "unat (kr_db k) < length ls \<Longrightarrow> cells ls (key_id k) = lock_at (ls ! unat (kr_db k)) (kr_fp k)"
  by (simp add: cells_def key_id_def)

lemma cells_list_update:
  assumes "unat db < length ls" "\<And>g. lock_at t g = (if g = fp then l else lock_at (ls ! unat db) g)"
  shows "cells (ls[unat db := t]) x = (if x = (db, fp) then l else cells ls x)"
  using assms by (cases x) (auto simp: cells_def nth_list_update word_unat_eq_iff)

lemma ball_set_list_update: "\<forall>t\<in>set ls. P t \<Longrightarrow> P u \<Longrightarrow> \<forall>t\<in>set (ls[i := u]). P t"
  using set_update_subset_insert [of ls i u] by auto

definition on_keys :: "(LockMode \<Rightarrow> IntentLock \<Rightarrow> IntentLock) \<Rightarrow> KeyRef list \<Rightarrow>
    (u8 \<times> u64 \<Rightarrow> IntentLock) \<Rightarrow> u8 \<times> u64 \<Rightarrow> IntentLock" where
  "on_keys eff ks c x = (case mode_in ks x of None \<Rightarrow> c x | Some m \<Rightarrow> eff m (c x))"

context cell_op
begin

lemma with_table_key:
  assumes "unat (kr_db k) < length ls" "pre (kr_mode k) (cells ls (key_id k))"
  obtains ls' where "with_table (\<lambda>t. opr t (kr_fp k) (kr_mode k)) ls (kr_db k) = Some ls'"
    "length ls' = length ls"
    "\<And>x. cells ls' x = (if x = key_id k then eff (kr_mode k) (cells ls x) else cells ls x)"
    "keep (kr_mode k) (cells ls (key_id k)) \<Longrightarrow> \<forall>t\<in>set ls. tidy t \<Longrightarrow> \<forall>t\<in>set ls'. tidy t"
proof -
  let ?t = "ls ! unat (kr_db k)"
  from assms obtain t' where t': "opr ?t (kr_fp k) (kr_mode k) = Some t'"
    using opr_defined by (metis cells_key_id)
  have cell: "cells (ls[unat (kr_db k) := t']) x =
      (if x = key_id k then eff (kr_mode k) (cells ls x) else cells ls x)" for x
    using assms(1) cells_list_update [OF assms(1) opr_cell [OF t']]
    by (auto simp: cells_key_id key_id_def cells_def)
  show thesis
  proof (rule that [of "ls[unat (kr_db k) := t']"])
    show "with_table (\<lambda>t. opr t (kr_fp k) (kr_mode k)) ls (kr_db k) = Some (ls[unat (kr_db k) := t'])"
      using assms(1) t' by (simp add: with_table_def)
    assume "keep (kr_mode k) (cells ls (key_id k))" "\<forall>t\<in>set ls. tidy t"
    with assms(1) have "tidy t'"
      using opr_tidy [OF t'] by (simp add: cells_key_id)
    with \<open>\<forall>t\<in>set ls. tidy t\<close> show "\<forall>t\<in>set (ls[unat (kr_db k) := t']). tidy t"
      by (rule ball_set_list_update)
  qed (use cell in auto)
qed

text \<open>The whole key set: every key sees its own cell unchanged, because no two share one.\<close>

lemma for_keys_defined:
  assumes "distinct (map key_id ks)" "\<forall>k\<in>set ks. unat (kr_db k) < length ls"
    and "\<forall>k\<in>set ks. pre (kr_mode k) (cells ls (key_id k))"
    and "\<forall>k\<in>set ks. keep (kr_mode k) (cells ls (key_id k))"
    and "\<forall>t\<in>set ls. tidy t"
  shows "\<exists>ls'. for_keys opr ls ks = Some ls' \<and> length ls' = length ls \<and>
    cells ls' = on_keys eff ks (cells ls) \<and> (\<forall>t\<in>set ls'. tidy t)"
  using assms
proof (induction ks arbitrary: ls)
  case Nil
  then show ?case by (simp add: on_keys_def fun_eq_iff)
next
  case (Cons k ks)
  from Cons.prems obtain ls1 where ls1:
      "with_table (\<lambda>t. opr t (kr_fp k) (kr_mode k)) ls (kr_db k) = Some ls1"
      "length ls1 = length ls" "\<forall>t\<in>set ls1. tidy t"
      and c1: "\<And>x. cells ls1 x = (if x = key_id k then eff (kr_mode k) (cells ls x) else cells ls x)"
    by (auto elim!: with_table_key [of k ls])
  have notin: "key_id k \<notin> key_id ` set ks"
    using Cons.prems(1) by simp
  have "\<exists>ls'. for_keys opr ls1 ks = Some ls' \<and> length ls' = length ls1 \<and>
    cells ls' = on_keys eff ks (cells ls1) \<and> (\<forall>t\<in>set ls'. tidy t)"
  proof (rule Cons.IH)
    show "\<forall>j\<in>set ks. pre (kr_mode j) (cells ls1 (key_id j))"
      and "\<forall>j\<in>set ks. keep (kr_mode j) (cells ls1 (key_id j))"
      using Cons.prems(3,4) notin by (auto simp: c1 image_iff)
  qed (use Cons.prems ls1 in auto)
  then obtain ls' where ls': "for_keys opr ls1 ks = Some ls'" "length ls' = length ls"
      "cells ls' = on_keys eff ks (cells ls1)" "\<forall>t\<in>set ls'. tidy t"
    using ls1(2) by auto
  have "mode_in ks (key_id k) = None"
    using notin mode_in_SomeD by (metis image_eqI not_None_eq)
  then have "cells ls' = on_keys eff (k # ks) (cells ls)"
    by (auto simp: ls'(3) on_keys_def c1 fun_eq_iff split: option.splits)
  with ls1 ls' show ?case by simp
qed

end

section \<open>Counters against registrations\<close>

definition reg_count :: "LockMode \<Rightarrow> u8 \<times> u64 \<Rightarrow> KeyRef list multiset \<Rightarrow> nat" where
  "reg_count m x R = size {#ks \<in># R. mode_in ks x = Some m#}"

definition compatible :: "KeyRef list multiset \<Rightarrow> bool" where
  "compatible H \<longleftrightarrow> (\<forall>js ks A. H = add_mset js (add_mset ks A) \<longrightarrow> \<not> conflict js ks)"

definition counts_ok :: "IntentLock \<Rightarrow> u8 \<times> u64 \<Rightarrow> KeyRef list multiset \<Rightarrow> KeyRef list multiset \<Rightarrow> bool" where
  "counts_ok l x I H \<longleftrightarrow>
     unat (shared_intent l) = reg_count kShared x I \<and>
     unat (exclusive_intent l) = reg_count kExclusive x I \<and>
     unat (shared_held l) = reg_count kShared x H \<and>
     unat (exclusive_held l) = reg_count kExclusive x H"

definition lock_inv :: "LockTable list \<Rightarrow> KeyRef list multiset \<Rightarrow> KeyRef list multiset \<Rightarrow> bool" where
  "lock_inv ls I H \<longleftrightarrow>
     length ls = kLogicalDatabaseCount \<and> (\<forall>t\<in>set ls. tidy t) \<and>
     (\<forall>x. counts_ok (cells ls x) x I H) \<and>
     H \<subseteq># I \<and> size I < 2 ^ 32 \<and> (\<forall>ks\<in>#I. keys_ok ks) \<and> compatible H"

lemma reg_count_empty [simp]: "reg_count m x {#} = 0"
  by (simp add: reg_count_def)

lemma reg_count_add [simp]:
  "reg_count m x (add_mset ks R) = (if mode_in ks x = Some m then Suc (reg_count m x R) else reg_count m x R)"
  by (simp add: reg_count_def)

lemma reg_count_le_size: "reg_count m x R \<le> size R"
  by (simp add: reg_count_def size_filter_mset_lesseq)

lemma reg_count_mono: "H \<subseteq># I \<Longrightarrow> reg_count m x H \<le> reg_count m x I"
  unfolding reg_count_def by (simp add: multiset_filter_mono size_mset_mono)

lemma reg_count_zero: "reg_count m x R = 0 \<longleftrightarrow> (\<forall>ks\<in>#R. mode_in ks x \<noteq> Some m)"
  by (auto simp: reg_count_def)

lemma compatible_add [simp]:
  "compatible (add_mset ks H) \<longleftrightarrow> compatible H \<and> (\<forall>js\<in>#H. \<not> conflict ks js)"
proof
  assume *: "compatible (add_mset ks H)"
  then have "compatible H"
    unfolding compatible_def by (metis add_mset_commute)
  moreover have "\<not> conflict ks js" if "js \<in># H" for js
    using * that unfolding compatible_def by (metis multi_member_split)
  ultimately show "compatible H \<and> (\<forall>js\<in>#H. \<not> conflict ks js)" by blast
next
  assume *: "compatible H \<and> (\<forall>js\<in>#H. \<not> conflict ks js)"
  show "compatible (add_mset ks H)"
    unfolding compatible_def
  proof (intro allI impI)
    fix js ls A
    assume "add_mset ks H = add_mset js (add_mset ls A)"
    then consider "H = add_mset ls A" "ks = js" | K where "H = add_mset js K" "add_mset ls A = add_mset ks K"
      by (auto simp: add_eq_conv_ex)
    then show "\<not> conflict js ls"
    proof cases
      case 1
      with * show ?thesis by simp
    next
      case 2
      then show ?thesis
        using * unfolding compatible_def add_eq_conv_ex by (auto simp: conflict_sym [of js])
    qed
  qed
qed

lemma compatible_empty [simp]: "compatible {#}"
  by (simp add: compatible_def)

lemma compatible_exclusive_le_one:
  assumes "compatible H" "\<forall>ks\<in>#H. keys_ok ks"
  shows "reg_count kExclusive x H \<le> 1"
  using assms
proof (induction H)
  case (add ks H)
  have "reg_count kExclusive x H = 0" if "mode_in ks x = Some kExclusive"
    using add.prems(1) conflictI [OF that] by (auto simp: reg_count_zero)
  with add show ?case by auto
qed simp

lemma compatible_exclusive_shared:
  assumes "compatible H" "\<forall>ks\<in>#H. keys_ok ks"
  shows "reg_count kExclusive x H = 0 \<or> reg_count kShared x H = 0"
  using assms
proof (induction H)
  case (add ks H)
  have "reg_count kShared x H = 0" if "mode_in ks x = Some kExclusive"
    using add.prems(1) conflictI [OF that] by (auto simp: reg_count_zero)
  moreover have "reg_count kExclusive x H = 0" if "mode_in ks x = Some kShared"
    using add.prems(1) conflictI [OF that] by (auto simp: reg_count_zero)
  ultimately show ?case using add by auto
qed simp

lemma lock_invD:
  assumes "lock_inv ls I H"
  shows "length ls = kLogicalDatabaseCount" "\<forall>t\<in>set ls. tidy t" "\<And>x. counts_ok (cells ls x) x I H"
    "H \<subseteq># I" "size I < 2 ^ 32" "\<forall>ks\<in>#I. keys_ok ks" "compatible H" "\<forall>ks\<in>#H. keys_ok ks"
  using assms unfolding lock_inv_def by (simp_all del: split_paired_All) (meson mset_subset_eqD)

lemma lock_invI:
  assumes "length ls = kLogicalDatabaseCount" "\<forall>t\<in>set ls. tidy t" "\<And>x. counts_ok (cells ls x) x I H"
    "H \<subseteq># I" "size I < 2 ^ 32" "\<forall>ks\<in>#I. keys_ok ks" "compatible H"
  shows "lock_inv ls I H"
  using assms unfolding lock_inv_def by blast

lemma subseteq_add_mset: "H \<subseteq># I \<Longrightarrow> H \<subseteq># add_mset ks I"
  by (metis add_mset_add_single mset_subset_eq_add_left subset_mset.order_trans)

text \<open>The counters of every cell respect the two-layer discipline of the lock table.\<close>

lemma lock_inv_cell_ok:
  assumes "lock_inv ls I H"
  shows "cell_ok (cells ls x)"
  using lock_invD(3) [OF assms, of x] reg_count_mono [OF lock_invD(4) [OF assms], of _ x]
    compatible_exclusive_le_one [OF lock_invD(7) [OF assms] lock_invD(8) [OF assms], of x]
    compatible_exclusive_shared [OF lock_invD(7) [OF assms] lock_invD(8) [OF assms], of x]
  by (auto simp: cell_ok_def counts_ok_def word_le_nat_alt unat_eq_zero)

lemma keys_okD: "keys_ok ks \<Longrightarrow> k \<in> set ks \<Longrightarrow> unat (kr_db k) < kLogicalDatabaseCount"
  by (simp add: keys_ok_def)

lemma keys_ok_distinct: "keys_ok ks \<Longrightarrow> distinct (map key_id ks)"
  by (simp add: keys_ok_def)

text \<open>What the predicates of a cell say about the registrations.\<close>

lemma clash_iff:
  "(\<forall>js\<in>#R. \<forall>m'. mode_in js x = Some m' \<longrightarrow> \<not> (m = kExclusive \<or> m' = kExclusive)) \<longleftrightarrow>
     reg_count kExclusive x R = 0 \<and> (m = kExclusive \<longrightarrow> reg_count kShared x R = 0)" (is "?L \<longleftrightarrow> ?R")
proof
  show "?L \<Longrightarrow> ?R" by (auto simp: reg_count_zero)
next
  assume ?R
  show ?L
  proof (intro ballI allI impI)
    fix js m'
    assume "js \<in># R" "mode_in js x = Some m'"
    with \<open>?R\<close> show "\<not> (m = kExclusive \<or> m' = kExclusive)"
      by (cases m') (auto simp: reg_count_zero)
  qed
qed

lemma grantable_iff:
  assumes "lock_inv ls I H"
  shows "grantable m (cells ls x) \<longleftrightarrow>
    (\<forall>js\<in>#I. \<forall>m'. mode_in js x = Some m' \<longrightarrow> \<not> (m = kExclusive \<or> m' = kExclusive))"
  unfolding clash_iff using lock_invD(3) [OF assms, of x]
  by (cases m) (auto simp: grantable_def counts_ok_def unat_eq_zero)

lemma holdable_iff:
  assumes "lock_inv ls I H"
  shows "holdable m (cells ls x) \<longleftrightarrow>
    (\<forall>js\<in>#H. \<forall>m'. mode_in js x = Some m' \<longrightarrow> \<not> (m = kExclusive \<or> m' = kExclusive))"
  unfolding clash_iff using lock_invD(3) [OF assms, of x]
  by (cases m) (auto simp: holdable_def counts_ok_def unat_eq_zero)

lemma no_conflict_iff:
  assumes "\<forall>js\<in>#R. keys_ok js"
  shows "(\<forall>k\<in>set ks. \<forall>js\<in>#R. \<forall>m'. mode_in js (key_id k) = Some m' \<longrightarrow>
      \<not> (kr_mode k = kExclusive \<or> m' = kExclusive)) \<longleftrightarrow> (\<forall>js\<in>#R. \<not> conflict ks js)"
  using assms by (auto simp: conflict_iff_mode_in)

section \<open>One lemma per operation\<close>

lemma CanHoldAll_correct:
  assumes inv: "lock_inv ls I H" and ks: "keys_ok ks"
  shows "CanHoldAll ls ks = Some (\<forall>js\<in>#H. \<not> conflict ks js)"
proof -
  have range: "\<forall>k\<in>set ks. unat (kr_db k) < length ls"
    using ks lock_invD(1) [OF inv] by (simp add: keys_okD)
  then have "CanHoldAll ls ks = Some (\<forall>k\<in>set ks. holdable (kr_mode k) (cells ls (key_id k)))"
    by (induction ks) (auto simp: CanHold_cell cells_key_id)
  also have "(\<forall>k\<in>set ks. holdable (kr_mode k) (cells ls (key_id k))) \<longleftrightarrow> (\<forall>js\<in>#H. \<not> conflict ks js)"
    using no_conflict_iff [OF lock_invD(8) [OF inv]] by (simp add: holdable_iff [OF inv])
  finally show ?thesis .
qed

lemma AcquireIntents_for_keys:
  assumes "distinct (map key_id ks)" "\<forall>k\<in>set ks. unat (kr_db k) < length ls"
    and "for_keys intent_recorded ls ks = Some ls'"
  shows "AcquireIntents ls ks = Some (ls', \<forall>k\<in>set ks. grantable (kr_mode k) (cells ls (key_id k)))"
  using assms
proof (induction ks arbitrary: ls)
  case (Cons k ks)
  let ?ls = "ls[unat (kr_db k) := fst (AcquireIntent (ls ! unat (kr_db k)) (kr_fp k) (kr_mode k))]"
  have "cells ?ls x = cells ls x" if "x \<noteq> key_id k" for x
    using Cons.prems(2) that
    by (subst cells_list_update [OF _ acq_intent.opr_cell [OF refl]]) (auto simp: key_id_def)
  moreover have "key_id k \<notin> key_id ` set ks"
    using Cons.prems(1) by simp
  ultimately have same: "cells ?ls (key_id j) = cells ls (key_id j)" if "j \<in> set ks" for j
    using that by (metis imageI)
  have "AcquireIntents ?ls ks = Some (ls', \<forall>j\<in>set ks. grantable (kr_mode j) (cells ?ls (key_id j)))"
    using Cons.prems by (intro Cons.IH) (auto simp: with_table_def)
  with same show ?case
    using Cons.prems(2)
    by (auto simp: Let_def split_beta AcquireIntent_granted cells_key_id)
qed simp

lemma counts_add_intent:
  assumes "counts_ok l x I H" "size I + 1 < 2 ^ 32" "mode_in ks x = Some m"
  shows "counts_ok (add_intent m l) x (add_mset ks I) H" "\<not> IsFree (add_intent m l)"
proof -
  have "reg_count m' x I + 1 < 2 ^ 32" for m'
    using assms(2) reg_count_le_size [of m' x I] by linarith
  note bound = this [of kShared] this [of kExclusive]
  show "counts_ok (add_intent m l) x (add_mset ks I) H"
    using assms bound by (cases m) (auto simp: counts_ok_def add_intent_def unat_plus_one)
  then show "\<not> IsFree (add_intent m l)"
    using assms(3) by (cases m) (auto simp: counts_ok_def IsFree_def)
qed

lemma counts_del_intent:
  assumes "counts_ok l x (add_mset ks I) H" "mode_in ks x = Some m"
  shows "counts_ok (del_intent m l) x I H" "has_intent m l"
proof -
  show "has_intent m l"
    using assms by (cases m) (auto simp: counts_ok_def has_intent_def)
  then show "counts_ok (del_intent m l) x I H"
    using assms by (cases m) (auto simp: counts_ok_def has_intent_def del_intent_def unat_minus_one_pos)
qed

lemma counts_add_hold:
  assumes "counts_ok l x I H" "size H + 1 < 2 ^ 32" "mode_in ks x = Some m"
  shows "counts_ok (add_hold m l) x I (add_mset ks H)" "\<not> IsFree (add_hold m l)"
proof -
  have "reg_count m' x H + 1 < 2 ^ 32" for m'
    using assms(2) reg_count_le_size [of m' x H] by linarith
  note bound = this [of kShared] this [of kExclusive]
  show "counts_ok (add_hold m l) x I (add_mset ks H)"
    using assms bound by (cases m) (auto simp: counts_ok_def add_hold_def unat_plus_one)
  then show "\<not> IsFree (add_hold m l)"
    using assms(3) by (cases m) (auto simp: counts_ok_def IsFree_def)
qed

lemma counts_del_hold:
  assumes "counts_ok l x I (add_mset ks H)" "mode_in ks x = Some m" "ks \<in># I"
    and "reg_count kExclusive x (add_mset ks H) \<le> 1"
  shows "counts_ok (del_hold m l) x I H" "has_hold m l" "\<not> IsFree (del_hold m l)"
proof -
  show "has_hold m l"
    using assms by (cases m) (auto simp: counts_ok_def has_hold_def word_eq_one_iff_unat)
  then show c: "counts_ok (del_hold m l) x I H"
    using assms by (cases m) (auto simp: counts_ok_def has_hold_def del_hold_def unat_minus_one_pos)
  have "reg_count m x I \<noteq> 0"
    using assms(2,3) by (auto simp: reg_count_zero)
  with c show "\<not> IsFree (del_hold m l)"
    by (cases m) (auto simp: counts_ok_def IsFree_def)
qed

lemma counts_ok_on_keys:
  assumes "\<And>m. mode_in ks x = Some m \<Longrightarrow> counts_ok (eff m (c x)) x I' H'"
    and "mode_in ks x = None \<Longrightarrow> counts_ok (c x) x I' H'"
  shows "counts_ok (on_keys eff ks c x) x I' H'"
  using assms by (auto simp: on_keys_def split: option.splits)

lemma AcquireIntents_correct:
  assumes inv: "lock_inv ls I H" and ks: "keys_ok ks" and room: "size I + 1 < 2 ^ 32"
  shows "\<exists>ls'. AcquireIntents ls ks = Some (ls', \<forall>js\<in>#I. \<not> conflict ks js) \<and>
    lock_inv ls' (add_mset ks I) H"
proof -
  have range: "\<forall>k\<in>set ks. unat (kr_db k) < length ls"
    using ks lock_invD(1) [OF inv] by (simp add: keys_okD)
  have "\<forall>k\<in>set ks. \<not> IsFree (add_intent (kr_mode k) (cells ls (key_id k)))"
    using counts_add_intent(2) [OF lock_invD(3) [OF inv] room] mode_in_mem [OF ks] by blast
  with acq_intent.for_keys_defined [OF keys_ok_distinct [OF ks] range _ _ lock_invD(2) [OF inv]]
  obtain ls' where ls': "for_keys intent_recorded ls ks = Some ls'" "length ls' = length ls"
      "cells ls' = on_keys add_intent ks (cells ls)" "\<forall>t\<in>set ls'. tidy t"
    by auto
  have "counts_ok (cells ls' x) x (add_mset ks I) H" for x
    unfolding ls'(3)
    by (rule counts_ok_on_keys) (use counts_add_intent(1) [OF lock_invD(3) [OF inv] room] lock_invD(3) [OF inv, of x]
        in \<open>auto simp: counts_ok_def\<close>)
  then have "lock_inv ls' (add_mset ks I) H"
    using lock_invD [OF inv] ls' ks room by (intro lock_invI) (auto simp: subseteq_add_mset)
  moreover have "AcquireIntents ls ks = Some (ls', \<forall>js\<in>#I. \<not> conflict ks js)"
    using AcquireIntents_for_keys [OF keys_ok_distinct [OF ks] range ls'(1)]
      no_conflict_iff [OF lock_invD(6) [OF inv], of ks]
    by (simp add: grantable_iff [OF inv])
  ultimately show ?thesis by blast
qed

lemma ReleaseIntents_correct:
  assumes inv: "lock_inv ls (add_mset ks I) H" and sub: "H \<subseteq># I"
  shows "\<exists>ls'. ReleaseIntents ls ks = Some ls' \<and> lock_inv ls' I H"
proof -
  have ks: "keys_ok ks" using lock_invD(6) [OF inv] by simp
  have range: "\<forall>k\<in>set ks. unat (kr_db k) < length ls"
    using ks lock_invD(1) [OF inv] by (simp add: keys_okD)
  have "\<forall>k\<in>set ks. has_intent (kr_mode k) (cells ls (key_id k))"
    using counts_del_intent(2) [OF lock_invD(3) [OF inv]] mode_in_mem [OF ks] by blast
  with rel_intent.for_keys_defined [OF keys_ok_distinct [OF ks] range _ _ lock_invD(2) [OF inv]]
  obtain ls' where ls': "ReleaseIntents ls ks = Some ls'" "length ls' = length ls"
      "cells ls' = on_keys del_intent ks (cells ls)" "\<forall>t\<in>set ls'. tidy t"
    by (auto simp: ReleaseIntents_def)
  have "counts_ok (cells ls' x) x I H" for x
    unfolding ls'(3)
    by (rule counts_ok_on_keys) (use counts_del_intent(1) [OF lock_invD(3) [OF inv]] lock_invD(3) [OF inv, of x]
        in \<open>auto simp: counts_ok_def\<close>)
  then have "lock_inv ls' I H"
    using lock_invD [OF inv] ls' sub by (intro lock_invI) auto
  with ls'(1) show ?thesis by blast
qed

lemma AcquireHolds_correct:
  assumes inv: "lock_inv ls I H" and ks: "keys_ok ks" and sub: "add_mset ks H \<subseteq># I"
    and free: "\<forall>js\<in>#H. \<not> conflict ks js"
  shows "\<exists>ls'. AcquireHolds ls ks = Some ls' \<and> lock_inv ls' I (add_mset ks H)"
proof -
  have range: "\<forall>k\<in>set ks. unat (kr_db k) < length ls"
    using ks lock_invD(1) [OF inv] by (simp add: keys_okD)
  have room: "size H + 1 < 2 ^ 32"
    using size_mset_mono [OF sub] lock_invD(5) [OF inv] by simp
  have "\<forall>k\<in>set ks. \<not> IsFree (add_hold (kr_mode k) (cells ls (key_id k)))"
    using counts_add_hold(2) [OF lock_invD(3) [OF inv] room] mode_in_mem [OF ks] by blast
  moreover have "\<forall>k\<in>set ks. holdable (kr_mode k) (cells ls (key_id k))"
    using no_conflict_iff [OF lock_invD(8) [OF inv], of ks] free by (simp add: holdable_iff [OF inv])
  ultimately obtain ls' where ls': "AcquireHolds ls ks = Some ls'" "length ls' = length ls"
      "cells ls' = on_keys add_hold ks (cells ls)" "\<forall>t\<in>set ls'. tidy t"
    using acq_hold.for_keys_defined [OF keys_ok_distinct [OF ks] range _ _ lock_invD(2) [OF inv]]
    by (auto simp: AcquireHolds_def)
  have "counts_ok (cells ls' x) x I (add_mset ks H)" for x
    unfolding ls'(3)
    by (rule counts_ok_on_keys) (use counts_add_hold(1) [OF lock_invD(3) [OF inv] room] lock_invD(3) [OF inv, of x]
        in \<open>auto simp: counts_ok_def\<close>)
  then have "lock_inv ls' I (add_mset ks H)"
    using lock_invD [OF inv] ls' sub free by (intro lock_invI) auto
  with ls'(1) show ?thesis by blast
qed

lemma ReleaseHolds_correct:
  assumes inv: "lock_inv ls I (add_mset ks H)"
  shows "\<exists>ls'. ReleaseHolds ls ks = Some ls' \<and> lock_inv ls' I H"
proof -
  have ks: "keys_ok ks" using lock_invD(8) [OF inv] by simp
  have range: "\<forall>k\<in>set ks. unat (kr_db k) < length ls"
    using ks lock_invD(1) [OF inv] by (simp add: keys_okD)
  have inI: "ks \<in># I" using lock_invD(4) [OF inv] by (meson mset_subset_eq_insertD)
  have one: "reg_count kExclusive x (add_mset ks H) \<le> 1" for x
    using compatible_exclusive_le_one [OF lock_invD(7) [OF inv] lock_invD(8) [OF inv]] .
  note del = counts_del_hold [OF lock_invD(3) [OF inv] _ inI one]
  have "\<forall>k\<in>set ks. has_hold (kr_mode k) (cells ls (key_id k))"
    "\<forall>k\<in>set ks. \<not> IsFree (del_hold (kr_mode k) (cells ls (key_id k)))"
    using del(2,3) mode_in_mem [OF ks] by blast+
  with rel_hold.for_keys_defined [OF keys_ok_distinct [OF ks] range _ _ lock_invD(2) [OF inv]]
  obtain ls' where ls': "ReleaseHolds ls ks = Some ls'" "length ls' = length ls"
      "cells ls' = on_keys del_hold ks (cells ls)" "\<forall>t\<in>set ls'. tidy t"
    by (auto simp: ReleaseHolds_def)
  have "counts_ok (cells ls' x) x I H" for x
    unfolding ls'(3)
    by (rule counts_ok_on_keys) (use del(1) lock_invD(3) [OF inv, of x] in \<open>auto simp: counts_ok_def\<close>)
  then have "lock_inv ls' I H"
    using lock_invD [OF inv] ls' by (intro lock_invI) (auto dest: mset_subset_eq_insertD subset_mset.less_imp_le)
  with ls'(1) show ?thesis by blast
qed

end
