(* ===== verification/Tx_Queue.thy ===== *)
theory Tx_Queue
  imports Key_Sets
begin

text \<open>
  The per-shard transaction queue, \<^verbatim>\<open>include/lavik/tx/tx_queue.h\<close>. Waiters are referred
  to by an identifier (the C++ code holds \<open>TxWaiter*\<close>); the store of waiter records belongs
  to the shard, and the queue operations read the txid of a waiter through it. The deque is
  a list of slots, a tombstone being \<open>None\<close>.
\<close>

section \<open>Data\<close>

type_synonym wid = nat

record TxWaiter =
  w_txid :: u64
  w_keys :: "KeyRef list"
  w_resume :: nat
  w_tx :: "nat option"
  w_shard_slot :: u16
  w_armed :: bool
  w_running :: bool
  w_holds_acquired :: bool

type_synonym TxQueue = "wid option list"

section \<open>Operations\<close>

text \<open>The scan of \<open>Insert\<close> runs from the tail, here from the head of the reversed deque.\<close>

fun insert_scan :: "(wid \<Rightarrow> u64) \<Rightarrow> wid \<Rightarrow> TxQueue \<Rightarrow> TxQueue" where
  "insert_scan txid w [] = [Some w]"
| "insert_scan txid w (prev # rest) =
     (case prev of
        Some v \<Rightarrow> if txid v < txid w then Some w # prev # rest else prev # insert_scan txid w rest
      | None \<Rightarrow> prev # insert_scan txid w rest)"

definition Insert :: "(wid \<Rightarrow> u64) \<Rightarrow> TxQueue \<Rightarrow> wid \<Rightarrow> TxQueue option" where
  "Insert txid q w = (if txid w = 0 then None else Some (rev (insert_scan txid w (rev q))))"

fun Front :: "TxQueue \<Rightarrow> TxQueue \<times> wid option" where
  "Front [] = ([], None)"
| "Front (None # q) = Front q"
| "Front (Some w # q) = (Some w # q, Some w)"

definition PopFront :: "TxQueue \<Rightarrow> TxQueue option" where
  "PopFront q = (case q of Some w # rest \<Rightarrow> Some rest | _ \<Rightarrow> None)"

fun Remove :: "TxQueue \<Rightarrow> wid \<Rightarrow> TxQueue option" where
  "Remove [] w = None"
| "Remove (slot # q) w =
     (if slot = Some w then Some (None # q) else map_option ((#) slot) (Remove q w))"

definition Empty :: "TxQueue \<Rightarrow> bool" where
  "Empty q = (snd (Front q) = None)"

fun tail_scan :: "(wid \<Rightarrow> u64) \<Rightarrow> TxQueue \<Rightarrow> u64" where
  "tail_scan txid [] = 0"
| "tail_scan txid (Some w # _) = txid w"
| "tail_scan txid (None # rest) = tail_scan txid rest"

definition TailTxid :: "(wid \<Rightarrow> u64) \<Rightarrow> TxQueue \<Rightarrow> u64" where
  "TailTxid txid q = tail_scan txid (rev q)"

section \<open>The live entries\<close>

fun live :: "TxQueue \<Rightarrow> wid list" where
  "live [] = []"
| "live (None # q) = live q"
| "live (Some w # q) = w # live q"

lemma live_append [simp]: "live (p @ q) = live p @ live q"
  by (induction p rule: live.induct) auto

lemma live_rev [simp]: "live (rev q) = rev (live q)"
  by (induction q rule: live.induct) auto

lemma set_live: "set (live q) = {w. Some w \<in> set q}"
  by (induction q rule: live.induct) auto

lemma Front_correct:
  "live (fst (Front q)) = live q"
  "snd (Front q) = (case live q of [] \<Rightarrow> None | w # _ \<Rightarrow> Some w)"
  by (induction q rule: Front.induct) auto

lemma Front_Some: "Front q = (q', Some w) \<Longrightarrow> \<exists>rest. q' = Some w # rest \<and> live q = w # live rest"
  by (induction q rule: Front.induct) auto

lemma Front_None: "Front q = (q', None) \<Longrightarrow> q' = [] \<and> live q = []"
  by (induction q rule: Front.induct) auto

lemma Empty_iff: "Empty q \<longleftrightarrow> live q = []"
  by (simp add: Empty_def Front_correct split: list.splits)

lemma PopFront_live: "PopFront q = Some q' \<Longrightarrow> live q' = tl (live q)"
  by (auto simp: PopFront_def split: list.splits option.splits)

text \<open>\<open>Remove\<close> fails its assertion exactly when the waiter has no slot.\<close>

lemma Remove_defined: "w \<in> set (live q) \<longleftrightarrow> (\<exists>q'. Remove q w = Some q')"
  by (induction q rule: live.induct) auto

lemma Remove_live: "Remove q w = Some q' \<Longrightarrow> live q' = remove1 w (live q)"
  by (induction q arbitrary: q' rule: live.induct) (auto split: if_splits)

lemma tail_scan_live: "tail_scan txid q = (case live q of [] \<Rightarrow> 0 | w # _ \<Rightarrow> txid w)"
  by (induction q rule: live.induct) auto

lemma TailTxid_correct: "TailTxid txid q = (if live q = [] then 0 else txid (last (live q)))"
  by (cases "live q" rule: rev_cases) (auto simp: TailTxid_def tail_scan_live)

lemma insert_scan_split:
  obtains a b where "r = a @ b" "insert_scan txid w r = a @ Some w # b"
    "\<forall>v\<in>set (live a). \<not> txid v < txid w" "b = [] \<or> (\<exists>v c. b = Some v # c \<and> txid v < txid w)"
proof (induction r arbitrary: thesis rule: live.induct)
  case 1
  then show ?case by simp
next
  case (2 q)
  then obtain a b where "q = a @ b" "insert_scan txid w q = a @ Some w # b"
      "\<forall>v\<in>set (live a). \<not> txid v < txid w" "b = [] \<or> (\<exists>v c. b = Some v # c \<and> txid v < txid w)"
    by blast
  then show ?case using 2(2) [of "None # a" b] by simp
next
  case (3 v q)
  show ?case
  proof (cases "txid v < txid w")
    case True
    then show ?thesis using 3(2) [of "[]" "Some v # q"] by simp
  next
    case False
    from 3 obtain a b where "q = a @ b" "insert_scan txid w q = a @ Some w # b"
        "\<forall>v\<in>set (live a). \<not> txid v < txid w" "b = [] \<or> (\<exists>v c. b = Some v # c \<and> txid v < txid w)"
      by blast
    with False show ?thesis using 3(2) [of "Some v # a" b] by simp
  qed
qed

lemma insort_key_between:
  "\<forall>v\<in>set xs. f v < f w \<Longrightarrow> \<forall>v\<in>set ys. \<not> f v < f w \<Longrightarrow> insort_key f w (xs @ ys) = xs @ w # ys"
  by (induction xs) (auto simp: insort_is_Cons not_less)

text \<open>On a queue in txid order, the tail scan is insertion into the sorted list of live entries.\<close>

lemma Insert_live:
  assumes "sorted (map txid (live q))" "Insert txid q w = Some q'"
  shows "live q' = insort_key txid w (live q)"
proof -
  obtain a b where r: "rev q = a @ b" "insert_scan txid w (rev q) = a @ Some w # b"
    and a: "\<forall>v\<in>set (live a). \<not> txid v < txid w"
    and b: "b = [] \<or> (\<exists>v c. b = Some v # c \<and> txid v < txid w)"
    by (rule insert_scan_split)
  from r(1) have q: "q = rev b @ rev a"
    by (metis rev_append rev_rev_ident)
  have small: "\<forall>v\<in>set (live b). txid v < txid w"
  proof (cases b)
    case (Cons s c)
    with b obtain v where "b = Some v # c" "txid v < txid w" by auto
    moreover from this assms(1) have "\<forall>u\<in>set (live c). txid u \<le> txid v"
      by (auto simp: q sorted_append)
    ultimately show ?thesis by fastforce
  qed simp
  from assms(2) r(2) have "live q' = rev (live b) @ w # rev (live a)"
    by (auto simp: Insert_def split: if_splits)
  also have "\<dots> = insort_key txid w (rev (live b) @ rev (live a))"
    using small a by (intro insort_key_between [symmetric]) auto
  finally show ?thesis by (simp add: q)
qed

section \<open>The queue's contract\<close>

text \<open>
  What a client of the queue relies on, over any representation \<open>'q\<close> with an abstraction to
  the list of live entries: insertion keeps txid order, removal takes out one entry.
\<close>

locale txid_ordered =
  fixes ins :: "('w \<Rightarrow> 'k::linorder) \<Rightarrow> 'q \<Rightarrow> 'w \<Rightarrow> 'q option"
    and rem :: "'q \<Rightarrow> 'w \<Rightarrow> 'q option"
    and pop :: "'q \<Rightarrow> 'q option"
    and entries :: "'q \<Rightarrow> 'w list"
  assumes ins_entries: "sorted (map key (entries q)) \<Longrightarrow> ins key q w = Some q' \<Longrightarrow>
      entries q' = insort_key key w (entries q)"
    and rem_entries: "rem q w = Some q' \<Longrightarrow> entries q' = remove1 w (entries q)"
    and pop_entries: "pop q = Some q' \<Longrightarrow> entries q' = tl (entries q)"
begin

lemma ins_sorted:
  "sorted (map key (entries q)) \<Longrightarrow> ins key q w = Some q' \<Longrightarrow> sorted (map key (entries q'))"
  by (simp add: ins_entries sorted_insort_key)

lemma ins_set:
  "sorted (map key (entries q)) \<Longrightarrow> ins key q w = Some q' \<Longrightarrow> set (entries q') = insert w (set (entries q))"
  by (simp add: ins_entries set_insort_key)

lemma ins_mset:
  "sorted (map key (entries q)) \<Longrightarrow> ins key q w = Some q' \<Longrightarrow> mset (entries q') = add_mset w (mset (entries q))"
  by (simp add: ins_entries)

lemma rem_sorted:
  "sorted (map key (entries q)) \<Longrightarrow> rem q w = Some q' \<Longrightarrow> sorted (map key (entries q'))"
  by (simp add: rem_entries sorted_map_remove1)

lemma rem_mset: "rem q w = Some q' \<Longrightarrow> mset (entries q') = mset (entries q) - {#w#}"
  by (simp add: rem_entries)

lemma pop_sorted:
  "sorted (map key (entries q)) \<Longrightarrow> pop q = Some q' \<Longrightarrow> sorted (map key (entries q'))"
  by (simp add: pop_entries map_tl sorted_tl)

end

interpretation txq: txid_ordered Insert Remove PopFront live
  by unfold_locales (simp_all add: Insert_live Remove_live PopFront_live)

section \<open>Properties\<close>

text \<open>
  Whatever tombstones the deque holds, inserting a waiter with a nonzero id into a queue in
  txid order succeeds and is insertion into the sorted list of live entries; a zero id is
  rejected by the assertion, whatever the queue.
\<close>

theorem insert_sorted_live:
  assumes "sorted (map txid (live q))"
  shows "(txid w \<noteq> 0 \<longrightarrow> (\<exists>q'. Insert txid q w = Some q' \<and> live q' = insort_key txid w (live q))) \<and>
    (txid w = 0 \<longrightarrow> Insert txid q w = None)"
  using Insert_live [OF assms, of w] by (auto simp: Insert_def)

theorem insert_sorted_live_witness:
  "\<exists>q'. Insert (\<lambda>w. word_of_nat w) [None, Some 2, None, Some 9, None] 5 = Some q' \<and> live q' = [2, 5, 9]"
proof -
  have "sorted (map (\<lambda>w. word_of_nat w :: u64) (live [None, Some 2, None, Some 9, None]))" by simp
  from insert_sorted_live [OF this, of 5] show ?thesis by simp
qed

end
