(* ===== verification/Tx_Shard.thy ===== *)
theory Tx_Shard
  imports Tx_Queue
begin

text \<open>
  The per-worker scheduling context \<^verbatim>\<open>TxShard\<close>
  (\<^verbatim>\<open>include/lavik/tx/tx_shard.h\<close>, \<^verbatim>\<open>src/tx/tx_shard.cpp\<close>) and the shard-side entry
  points of a multi-shard transaction (\<^verbatim>\<open>src/tx/transaction.cpp\<close>). All state belongs to
  one worker thread; every operation here is one of the non-suspending sections the code
  runs on it. The store of waiter records stands for the coroutine frames and transactions
  the C++ pointers reach. Handing work to the worker (\<open>Worker::Enqueue\<close> of a resumed
  waiter, \<open>Worker::Spawn\<close> of a hop) appends to the run queue \<open>sh_runq\<close>; the worker takes
  items from it in later steps.
\<close>

section \<open>State\<close>

record WatchEntry =
  we_conn_id :: u64
  we_dirty :: bool

type_synonym WatchTable = "(u64, WatchEntry list) mapping"

text \<open>What \<open>Poll\<close> hands to the worker: a plain waiter's coroutine or a transaction hop.\<close>

datatype runnable = ResumePlain wid | RunHop wid

record TxShard =
  sh_locks :: "LockTable list"
  sh_watches :: "WatchTable list"
  sh_queue :: TxQueue
  sh_committed_txid :: u64
  sh_polling :: bool
  sh_fastpath_runs :: u64
  sh_queued_runs :: u64
  sh_bypass_ready :: "wid list"
  sh_waiters :: "wid \<Rightarrow> TxWaiter"
  sh_runq :: "runnable list"

definition no_waiter :: TxWaiter where
  "no_waiter = \<lparr>w_txid = 0, w_keys = [], w_resume = 0, w_tx = None, w_shard_slot = 0,
     w_armed = False, w_running = False, w_holds_acquired = False\<rparr>"

definition new_shard :: TxShard where
  "new_shard = \<lparr>sh_locks = replicate kLogicalDatabaseCount Mapping.empty,
     sh_watches = replicate kLogicalDatabaseCount Mapping.empty,
     sh_queue = [], sh_committed_txid = 0, sh_polling = False,
     sh_fastpath_runs = 0, sh_queued_runs = 0, sh_bypass_ready = [],
     sh_waiters = (\<lambda>_. no_waiter), sh_runq = []\<rparr>"

definition set_waiter :: "wid \<Rightarrow> (TxWaiter \<Rightarrow> TxWaiter) \<Rightarrow> TxShard \<Rightarrow> TxShard" where
  "set_waiter w f s = s\<lparr>sh_waiters := (sh_waiters s)(w := f (sh_waiters s w))\<rparr>"

definition txid_of :: "TxShard \<Rightarrow> wid \<Rightarrow> u64" where
  "txid_of s w = w_txid (sh_waiters s w)"

section \<open>Acquisition\<close>

definition TryFastPath :: "TxShard \<Rightarrow> KeyRef list \<Rightarrow> (TxShard \<times> bool) option" where
  "TryFastPath s keys =
     (case keys of
        [key] \<Rightarrow>
          (if unat (kr_db key) < length (sh_locks s) then
             do { (t, granted) \<leftarrow> AcquireIntentAndHoldIfGranted
                    (sh_locks s ! unat (kr_db key)) (kr_fp key) (kr_mode key);
                  let s = s\<lparr>sh_locks := (sh_locks s)[unat (kr_db key) := t]\<rparr> in
                  Some (if granted then s\<lparr>sh_fastpath_runs := sh_fastpath_runs s + 1\<rparr> else s,
                        granted) }
           else None)
      | _ \<Rightarrow>
          do { (ls, granted) \<leftarrow> AcquireIntents (sh_locks s) keys;
               if \<not> granted then Some (s\<lparr>sh_locks := ls\<rparr>, False)
               else do { ls \<leftarrow> AcquireHolds ls keys;
                         Some (s\<lparr>sh_locks := ls, sh_fastpath_runs := sh_fastpath_runs s + 1\<rparr>, True) } })"

text \<open>\<open>next_txid_->fetch_add(1)\<close>: the drawn id and the advanced counter.\<close>

definition AllocateTxid :: "u64 \<Rightarrow> u64 \<times> u64" where
  "AllocateTxid next = (next, next + 1)"

definition Enqueue :: "TxShard \<Rightarrow> wid \<Rightarrow> TxShard option" where
  "Enqueue s w = map_option (\<lambda>q. s\<lparr>sh_queue := q\<rparr>) (Insert (txid_of s) (sh_queue s) w)"

text \<open>
  \<open>Awaiter::await_ready\<close> and \<open>await_suspend\<close>, which run back to back: the fast path, or a
  txid drawn from the global counter and a plain waiter queued. Returns the counter and
  whether the coroutine continues without suspending.
\<close>

definition AwaitKeys :: "TxShard \<Rightarrow> u64 \<Rightarrow> wid \<Rightarrow> KeyRef list \<Rightarrow> (TxShard \<times> u64 \<times> bool) option" where
  "AwaitKeys s next w keys =
     do { (s, granted) \<leftarrow> TryFastPath s keys;
          if granted then Some (s, next, True)
          else let (txid, next) = AllocateTxid next;
                   s = set_waiter w (\<lambda>_. no_waiter\<lparr>w_txid := txid, w_keys := keys, w_resume := w\<rparr>) s
               in do { s \<leftarrow> Enqueue s w; Some (s, next, False) } }"

section \<open>Poll\<close>

definition EnqueueBypassReady :: "TxShard \<Rightarrow> wid \<Rightarrow> TxShard option" where
  "EnqueueBypassReady s w =
     (let r = sh_waiters s w in
      if w_tx r = None \<or> \<not> w_armed r \<or> w_running r then None
      else Some (s\<lparr>sh_bypass_ready := sh_bypass_ready s @ [w]\<rparr>))"

definition PopBypassReady :: "TxShard \<Rightarrow> TxShard \<times> wid option" where
  "PopBypassReady s =
     (case sh_bypass_ready s of
        [] \<Rightarrow> (s, None)
      | w # rest \<Rightarrow> (s\<lparr>sh_bypass_ready := rest\<rparr>, Some w))"

text \<open>
  The block both loops share: publish the txid, take the holds once, mark the hop running,
  count it and hand it to the worker.
\<close>

definition start_hop :: "TxShard \<Rightarrow> wid \<Rightarrow> TxShard option" where
  "start_hop s w =
     (let r = sh_waiters s w; s = s\<lparr>sh_committed_txid := max (sh_committed_txid s) (w_txid r)\<rparr> in
      do { s \<leftarrow> (if \<not> w_holds_acquired r
                 then do { ls \<leftarrow> AcquireHolds (sh_locks s) (w_keys r);
                           Some (set_waiter w (\<lambda>r. r\<lparr>w_holds_acquired := True\<rparr>) (s\<lparr>sh_locks := ls\<rparr>)) }
                 else Some s);
           let s = set_waiter w (\<lambda>r. r\<lparr>w_armed := False, w_running := True\<rparr>) s in
           Some (s\<lparr>sh_queued_runs := sh_queued_runs s + 1, sh_runq := sh_runq s @ [RunHop w]\<rparr>) })"

text \<open>The entry may run now: its holds are already taken, or all of them can be taken.\<close>

definition can_start :: "TxShard \<Rightarrow> wid \<Rightarrow> bool option" where
  "can_start s w =
     (let r = sh_waiters s w in
      if w_holds_acquired r then Some True else CanHoldAll (sh_locks s) (w_keys r))"

lemma start_hop_bypass: "start_hop s w = Some s' \<Longrightarrow> sh_bypass_ready s' = sh_bypass_ready s"
  by (auto simp: start_hop_def set_waiter_def Let_def bind_eq_Some_conv split: if_splits)

text \<open>The first loop of \<open>Poll\<close>; each pass removes one entry or stops.\<close>

function poll_bypass :: "TxShard \<Rightarrow> TxShard option" where
  "poll_bypass s =
     (case PopBypassReady s of
        (s, None) \<Rightarrow> Some s
      | (s, Some w) \<Rightarrow>
          (let r = sh_waiters s w in
           if w_tx r = None then None
           else if \<not> w_armed r \<or> w_running r then poll_bypass s
           else (case can_start s w of
               None \<Rightarrow> None
             | Some False \<Rightarrow> EnqueueBypassReady s w
             | Some True \<Rightarrow> (case start_hop s w of None \<Rightarrow> None | Some s \<Rightarrow> poll_bypass s))))"
  by pat_completeness auto

termination
  by (relation "measure (\<lambda>s. length (sh_bypass_ready s))")
     (auto simp: PopBypassReady_def dest!: start_hop_bypass split: list.splits)

text \<open>
  One pass of the second loop. With a bound worker every path through its body leaves the
  loop, so one pass is the whole loop; the unbound inline-resume mode serves unit tests only.
\<close>

definition poll_ordered :: "TxShard \<Rightarrow> TxShard option" where
  "poll_ordered s =
     (case Front (sh_queue s) of
        (q, None) \<Rightarrow> Some (s\<lparr>sh_queue := q\<rparr>)
      | (q, Some head) \<Rightarrow>
          (let s = s\<lparr>sh_queue := q\<rparr>; r = sh_waiters s head in
           if w_tx r \<noteq> None then
             (if w_running r \<or> \<not> w_armed r then Some s
              else do { ok \<leftarrow> can_start s head; if \<not> ok then Some s else start_hop s head })
           else
             do { ok \<leftarrow> CanHoldAll (sh_locks s) (w_keys r);
                  if \<not> ok then Some s
                  else do { ls \<leftarrow> AcquireHolds (sh_locks s) (w_keys r);
                            q \<leftarrow> PopFront (sh_queue s);
                            Some (s\<lparr>sh_committed_txid := max (sh_committed_txid s) (w_txid r),
                                    sh_locks := ls, sh_queued_runs := sh_queued_runs s + 1,
                                    sh_queue := q,
                                    sh_runq := sh_runq s @ [ResumePlain (w_resume r)]\<rparr>) } }))"

definition Poll :: "TxShard \<Rightarrow> TxShard option" where
  "Poll s =
     (if sh_polling s then Some s
      else let s = s\<lparr>sh_polling := True\<rparr> in
        case Front (sh_queue s) of
          (q, None) \<Rightarrow> Some (s\<lparr>sh_queue := q, sh_polling := False\<rparr>)
        | (q, Some _) \<Rightarrow>
            do { s \<leftarrow> poll_bypass (s\<lparr>sh_queue := q\<rparr>);
                 s \<leftarrow> poll_ordered s;
                 Some (s\<lparr>sh_polling := False\<rparr>) })"

section \<open>Release and transaction entry points\<close>

text \<open>\<open>TxShard::Release\<close>, run by the destructor of a \<open>Guard\<close>.\<close>

definition Release :: "TxShard \<Rightarrow> KeyRef list \<Rightarrow> TxShard option" where
  "Release s keys =
     (case keys of
        [key] \<Rightarrow>
          do { ls \<leftarrow> with_table (\<lambda>t. ReleaseHoldAndIntent t (kr_fp key) (kr_mode key))
                      (sh_locks s) (kr_db key);
               Poll (s\<lparr>sh_locks := ls\<rparr>) }
      | _ \<Rightarrow>
          do { ls \<leftarrow> ReleaseHolds (sh_locks s) keys;
               ls \<leftarrow> ReleaseIntents ls keys;
               Poll (s\<lparr>sh_locks := ls\<rparr>) })"

definition ArmTransaction :: "TxShard \<Rightarrow> wid \<Rightarrow> bool \<Rightarrow> TxShard option" where
  "ArmTransaction s w bypass_ordered_queue =
     (let r = sh_waiters s w in
      if w_tx r = None \<or> w_armed r \<or> w_running r then None
      else let s = set_waiter w (\<lambda>r. r\<lparr>w_armed := True\<rparr>) s in
        do { s \<leftarrow> (if bypass_ordered_queue then EnqueueBypassReady s w else Some s);
             Poll s })"

text \<open>
  \<open>Transaction::ScheduleInShard\<close>: the stale-id test, the intents, the reorder rule, the
  insertion. The node has been filled in by \<open>Seal\<close>. Returns \<open>granted_\<close> and
  \<open>schedule_failed_\<close>; \<open>granted\<close> is the value the field had before the call, which the
  stale-id return leaves unchanged.
\<close>

definition ScheduleInShard ::
    "TxShard \<Rightarrow> wid \<Rightarrow> u64 \<Rightarrow> bool \<Rightarrow> (TxShard \<times> bool \<times> bool) option" where
  "ScheduleInShard s w txid granted =
     (if txid \<le> sh_committed_txid s then Some (s, granted, True)
      else let s = set_waiter w (\<lambda>r. r\<lparr>w_txid := txid\<rparr>) s in
        do { (ls, granted) \<leftarrow> AcquireIntents (sh_locks s) (w_keys (sh_waiters s w));
             let s = s\<lparr>sh_locks := ls\<rparr>; tail = TailTxid (txid_of s) (sh_queue s) in
             if \<not> granted \<and> tail \<noteq> 0 \<and> txid < tail then
               do { ls \<leftarrow> ReleaseIntents (sh_locks s) (w_keys (sh_waiters s w));
                    Some (s\<lparr>sh_locks := ls\<rparr>, granted, True) }
             else do { s \<leftarrow> Enqueue s w; Some (s, granted, False) } })"

definition CancelInShard :: "TxShard \<Rightarrow> wid \<Rightarrow> TxShard option" where
  "CancelInShard s w =
     do { ls \<leftarrow> ReleaseIntents (sh_locks s) (w_keys (sh_waiters s w));
          q \<leftarrow> Remove (sh_queue s) w;
          Poll (s\<lparr>sh_locks := ls, sh_queue := q\<rparr>) }"

definition ArmInShard :: "TxShard \<Rightarrow> wid \<Rightarrow> bool \<Rightarrow> TxShard option" where
  "ArmInShard s w granted = ArmTransaction s w granted"

text \<open>The non-suspending epilogue of \<open>RunShardHop\<close>, after the callback returned.\<close>

definition FinishShardHop :: "TxShard \<Rightarrow> wid \<Rightarrow> bool \<Rightarrow> TxShard option" where
  "FinishShardHop s w releasing =
     (let s = set_waiter w (\<lambda>r. r\<lparr>w_running := False\<rparr>) s; keys = w_keys (sh_waiters s w) in
      if releasing then
        do { ls \<leftarrow> ReleaseHolds (sh_locks s) keys;
             ls \<leftarrow> ReleaseIntents ls keys;
             let s = set_waiter w (\<lambda>r. r\<lparr>w_holds_acquired := False\<rparr>) (s\<lparr>sh_locks := ls\<rparr>) in
             do { q \<leftarrow> Remove (sh_queue s) w; Poll (s\<lparr>sh_queue := q\<rparr>) } }
      else Some s)"

definition CanReadOptimistically :: "TxShard \<Rightarrow> u8 \<Rightarrow> bool option" where
  "CanReadOptimistically s db =
     (if unat db < kLogicalDatabaseCount \<and> unat db < length (sh_locks s)
      then Some (size_of (sh_locks s ! unat db) = 0) else None)"

definition PublishCommitted :: "TxShard \<Rightarrow> u64 \<Rightarrow> TxShard" where
  "PublishCommitted s txid = s\<lparr>sh_committed_txid := max (sh_committed_txid s) txid\<rparr>"

end
