(* ===== verification/Tx_Invariant.thy ===== *)
theory Tx_Invariant
  imports Tx_Shard
begin

text \<open>
  The scheduling invariant of one shard. The registrants are the live guards, the resumed
  plain waiters whose guard is about to be built, and the live queue entries; the holders
  are the first two groups and the entries that took their holds. The invariant says that
  the lock counters count exactly these, that the queue is in strict txid order, that the
  waiter flags agree with the run queue, and that no entry runs past a conflicting
  predecessor.
\<close>

section \<open>Registrants\<close>

definition keys_of :: "TxShard \<Rightarrow> wid \<Rightarrow> KeyRef list" where
  "keys_of s w = w_keys (sh_waiters s w)"

definition is_tx :: "TxShard \<Rightarrow> wid \<Rightarrow> bool" where
  "is_tx s w = (w_tx (sh_waiters s w) \<noteq> None)"

definition holding :: "TxShard \<Rightarrow> wid \<Rightarrow> bool" where
  "holding s w = w_holds_acquired (sh_waiters s w)"

definition queued :: "TxShard \<Rightarrow> wid set" where
  "queued s = set (live (sh_queue s))"

definition resumed :: "TxShard \<Rightarrow> wid set" where
  "resumed s = {w. ResumePlain w \<in> set (sh_runq s)}"

definition hops :: "TxShard \<Rightarrow> wid set" where
  "hops s = {w. RunHop w \<in> set (sh_runq s)}"

definition members :: "TxShard \<Rightarrow> wid set" where
  "members s = resumed s \<union> queued s"

definition holders :: "TxShard \<Rightarrow> wid set" where
  "holders s = resumed s \<union> {w \<in> queued s. holding s w}"

type_synonym guards = "KeyRef list multiset"

definition intents :: "guards \<Rightarrow> TxShard \<Rightarrow> guards" where
  "intents G s = G + image_mset (keys_of s) (mset_set (members s))"

definition holds :: "guards \<Rightarrow> TxShard \<Rightarrow> guards" where
  "holds G s = G + image_mset (keys_of s) (mset_set (holders s))"

lemma finite_queued [simp]: "finite (queued s)"
  by (simp add: queued_def)

lemma finite_resumed [simp]: "finite (resumed s)"
proof -
  have "resumed s \<subseteq> (\<lambda>r. case r of ResumePlain w \<Rightarrow> w | RunHop w \<Rightarrow> w) ` set (sh_runq s)"
    by (force simp: resumed_def image_iff)
  then show ?thesis by (rule finite_subset) simp
qed

lemma finite_members [simp]: "finite (members s)"
  by (simp add: members_def)

lemma finite_holders [simp]: "finite (holders s)"
  by (simp add: holders_def)

lemma holders_members: "holders s \<subseteq> members s"
  by (auto simp: holders_def members_def)

section \<open>The invariant\<close>

definition queue_ok :: "u64 \<Rightarrow> TxShard \<Rightarrow> bool" where
  "queue_ok n s \<longleftrightarrow>
     sorted (map (txid_of s) (live (sh_queue s))) \<and> distinct (map (txid_of s) (live (sh_queue s))) \<and>
     (\<forall>w\<in>queued s. txid_of s w \<noteq> 0 \<and> txid_of s w < n) \<and> sh_committed_txid s < n"

definition entry_ok :: "TxShard \<Rightarrow> wid \<Rightarrow> bool" where
  "entry_ok s w \<longleftrightarrow>
     (let r = sh_waiters s w in
      (if w_tx r = None
       then w_resume r = w \<and> \<not> w_armed r \<and> \<not> w_running r \<and> \<not> w_holds_acquired r
       else w_running r \<longrightarrow> w_holds_acquired r \<and> \<not> w_armed r) \<and>
      (w_holds_acquired r \<longrightarrow> w_txid r \<le> sh_committed_txid s))"

definition flags_ok :: "TxShard \<Rightarrow> bool" where
  "flags_ok s \<longleftrightarrow>
     (\<forall>w\<in>queued s. entry_ok s w) \<and> distinct (sh_runq s) \<and>
     hops s = {w \<in> queued s. w_running (sh_waiters s w)} \<and> resumed s \<inter> queued s = {}"

text \<open>
  No barging: an entry that was fully granted, or that took its holds, conflicts with no
  entry before it; a granted entry conflicts with no guard and no resumed waiter.
\<close>

definition order_ok :: "guards \<Rightarrow> (wid \<Rightarrow> bool) \<Rightarrow> TxShard \<Rightarrow> bool" where
  "order_ok G g s \<longleftrightarrow>
     (\<forall>v\<in>queued s. \<forall>w\<in>queued s. txid_of s v < txid_of s w \<longrightarrow>
        (is_tx s w \<and> g w \<or> holding s w) \<longrightarrow> \<not> conflict (keys_of s v) (keys_of s w)) \<and>
     (\<forall>w\<in>queued s. is_tx s w \<and> g w \<longrightarrow>
        (\<forall>ks\<in>#G. \<not> conflict (keys_of s w) ks) \<and>
        (\<forall>v\<in>resumed s. \<not> conflict (keys_of s w) (keys_of s v)))"

definition shard_ok :: "u64 \<Rightarrow> guards \<Rightarrow> (wid \<Rightarrow> bool) \<Rightarrow> TxShard \<Rightarrow> bool" where
  "shard_ok n G g s \<longleftrightarrow>
     lock_inv (sh_locks s) (intents G s) (holds G s) \<and> queue_ok n s \<and> flags_ok s \<and> order_ok G g s"

lemma shard_okD:
  assumes "shard_ok n G g s"
  shows "lock_inv (sh_locks s) (intents G s) (holds G s)" "queue_ok n s" "flags_ok s" "order_ok G g s"
  using assms by (auto simp: shard_ok_def)

lemma new_shard_ok: "0 < n \<Longrightarrow> shard_ok n {#} g new_shard"
proof -
  have "lock_inv (replicate kLogicalDatabaseCount Mapping.empty) {#} {#}"
    by (rule lock_invI) (auto simp: counts_ok_def cells_def free_lock_def kLogicalDatabaseCount_def)
  then show "0 < n \<Longrightarrow> shard_ok n {#} g new_shard"
    by (simp add: shard_ok_def new_shard_def intents_def holds_def members_def holders_def
        queued_def resumed_def queue_ok_def flags_ok_def order_ok_def hops_def)
qed

text \<open>An entry of the queue or of the run queue has a well-formed key set.\<close>

lemma member_keys_ok: "shard_ok n G g s \<Longrightarrow> w \<in> members s \<Longrightarrow> keys_ok (keys_of s w)"
  using lock_invD(6) [OF shard_okD(1)] by (fastforce simp: intents_def)

lemma members_insert: "finite A \<Longrightarrow> w \<notin> A \<Longrightarrow> image_mset f (mset_set (insert w A)) = add_mset (f w) (image_mset f (mset_set A))"
  by simp

lemma image_mset_set_cong: "finite A \<Longrightarrow> (\<And>w. w \<in> A \<Longrightarrow> f w = g w) \<Longrightarrow> image_mset f (mset_set A) = image_mset g (mset_set A)"
  by (intro image_mset_cong) simp

text \<open>The holds an entry competes with: those of the other holders.\<close>

definition unblocked :: "guards \<Rightarrow> TxShard \<Rightarrow> wid \<Rightarrow> bool" where
  "unblocked G s w \<longleftrightarrow> holding s w \<or> (\<forall>ks\<in>#holds G s. \<not> conflict (keys_of s w) ks)"

lemma can_start_correct:
  assumes "shard_ok n G g s" "w \<in> queued s"
  shows "can_start s w = Some (unblocked G s w)"
proof -
  have "keys_ok (keys_of s w)"
    using assms by (auto intro: member_keys_ok simp: members_def)
  then show ?thesis
    using CanHoldAll_correct [OF shard_okD(1) [OF assms(1)]]
    by (auto simp: can_start_def unblocked_def holding_def keys_of_def Let_def)
qed

text \<open>The invariant reads the queue only through its live entries, and not the statistics.\<close>

lemma views_cong:
  assumes "live (sh_queue t) = live (sh_queue s)" "sh_waiters t = sh_waiters s" "sh_runq t = sh_runq s"
  shows "queued t = queued s" "resumed t = resumed s" "hops t = hops s" "members t = members s"
    "holders t = holders s" "keys_of t = keys_of s" "is_tx t = is_tx s" "txid_of t = txid_of s"
    "holding t = holding s" "intents G t = intents G s" "holds G t = holds G s" "unblocked G t = unblocked G s"
proof -
  show 1: "queued t = queued s" "resumed t = resumed s" "hops t = hops s" "keys_of t = keys_of s"
    "is_tx t = is_tx s" "txid_of t = txid_of s" "holding t = holding s"
    using assms by (auto simp: queued_def resumed_def hops_def keys_of_def is_tx_def txid_of_def holding_def)
  show 2: "members t = members s" "holders t = holders s"
    using 1 by (simp_all add: members_def holders_def)
  show "intents G t = intents G s" and h: "holds G t = holds G s"
    using 1 2 by (simp_all add: intents_def holds_def)
  show "unblocked G t = unblocked G s"
    using 1 h by (auto simp: unblocked_def)
qed

lemma shard_ok_cong:
  assumes "live (sh_queue t) = live (sh_queue s)" "sh_waiters t = sh_waiters s" "sh_runq t = sh_runq s"
    "sh_locks t = sh_locks s" "sh_committed_txid t = sh_committed_txid s"
  shows "shard_ok n G g t = shard_ok n G g s"
  by (simp only: shard_ok_def queue_ok_def flags_ok_def entry_ok_def order_ok_def views_cong [OF assms(1-3)] assms)

section \<open>Starting a hop\<close>

text \<open>The state after \<open>start_hop\<close>, with the lock tables it leaves.\<close>

definition hop_started :: "TxShard \<Rightarrow> wid \<Rightarrow> LockTable list \<Rightarrow> TxShard" where
  "hop_started s w ls =
     s\<lparr>sh_committed_txid := max (sh_committed_txid s) (txid_of s w), sh_locks := ls,
       sh_waiters := (sh_waiters s)(w := (sh_waiters s w)
         \<lparr>w_holds_acquired := True, w_armed := False, w_running := True\<rparr>),
       sh_queued_runs := sh_queued_runs s + 1, sh_runq := sh_runq s @ [RunHop w]\<rparr>"

lemma hop_started_fields [simp]:
  "sh_queue (hop_started s w ls) = sh_queue s"
  "sh_bypass_ready (hop_started s w ls) = sh_bypass_ready s"
  "sh_polling (hop_started s w ls) = sh_polling s"
  "sh_locks (hop_started s w ls) = ls"
  "sh_committed_txid (hop_started s w ls) = max (sh_committed_txid s) (txid_of s w)"
  "sh_runq (hop_started s w ls) = sh_runq s @ [RunHop w]"
  "sh_waiters (hop_started s w ls) = (sh_waiters s)(w := (sh_waiters s w)
     \<lparr>w_holds_acquired := True, w_armed := False, w_running := True\<rparr>)"
  by (simp_all add: hop_started_def)

lemma hop_started_views [simp]:
  "queued (hop_started s w ls) = queued s"
  "resumed (hop_started s w ls) = resumed s"
  "hops (hop_started s w ls) = insert w (hops s)"
  "keys_of (hop_started s w ls) = keys_of s"
  "is_tx (hop_started s w ls) = is_tx s"
  "txid_of (hop_started s w ls) = txid_of s"
  "holding (hop_started s w ls) = (holding s)(w := True)"
  by (auto simp: queued_def resumed_def hops_def keys_of_def is_tx_def txid_of_def holding_def fun_eq_iff)

lemma hop_started_members [simp]:
  "members (hop_started s w ls) = members s"
  "intents G (hop_started s w ls) = intents G s"
  by (simp_all add: members_def intents_def)

lemma waiter_started_again:
  "w_holds_acquired r \<Longrightarrow>
     r\<lparr>w_holds_acquired := True, w_armed := False, w_running := True\<rparr> = r\<lparr>w_armed := False, w_running := True\<rparr>"
  by (cases r) simp

lemma holders_hop_started:
  "w \<in> queued s \<Longrightarrow> holders (hop_started s w ls) = insert w (holders s)"
  by (auto simp: holders_def)

lemma start_hop_locks:
  assumes ok: "shard_ok n G g s" and w: "w \<in> queued s" and free: "unblocked G s w"
  shows "\<exists>ls. start_hop s w = Some (hop_started s w ls) \<and>
    lock_inv ls (intents G s) (holds G (hop_started s w ls))"
proof (cases "holding s w")
  case True
  then have same: "holders (hop_started s w (sh_locks s)) = holders s"
    using w by (auto simp: holders_def)
  have "start_hop s w = Some (hop_started s w (sh_locks s))"
    using True
    by (simp add: waiter_started_again start_hop_def hop_started_def holding_def set_waiter_def txid_of_def Let_def)
  then show ?thesis
    using shard_okD(1) [OF ok] same by (intro exI [of _ "sh_locks s"]) (simp add: holds_def)
next
  case False
  have notin: "w \<notin> holders s"
    using False w shard_okD(3) [OF ok] by (auto simp: holders_def flags_ok_def)
  have "insert w (holders s) \<subseteq> members s"
    using w holders_members by (auto simp: members_def)
  then have sub: "add_mset (keys_of s w) (holds G s) \<subseteq># intents G s"
    using notin image_mset_subseteq_mono [OF subset_imp_msubset_mset_set [of "insert w (holders s)" "members s"]]
    by (simp add: holds_def intents_def)
  have ks: "keys_ok (keys_of s w)"
    using ok w by (auto intro: member_keys_ok simp: members_def)
  from free False have "\<forall>js\<in>#holds G s. \<not> conflict (keys_of s w) js"
    by (simp add: unblocked_def)
  with AcquireHolds_correct [OF shard_okD(1) [OF ok] ks sub] obtain ls where
    ls: "AcquireHolds (sh_locks s) (keys_of s w) = Some ls"
      "lock_inv ls (intents G s) (add_mset (keys_of s w) (holds G s))"
    by blast
  have "start_hop s w = Some (hop_started s w ls)"
    using False ls(1)
    by (simp add: start_hop_def hop_started_def holding_def set_waiter_def txid_of_def keys_of_def Let_def)
  moreover have "holds G (hop_started s w ls) = add_mset (keys_of s w) (holds G s)"
    using notin by (simp add: holds_def holders_hop_started [OF w])
  ultimately show ?thesis using ls(2) by auto
qed

lemma start_hop_correct:
  assumes ok: "shard_ok n G g s" and w: "w \<in> queued s" and free: "unblocked G s w"
    and tx: "is_tx s w" and idle: "\<not> w_running (sh_waiters s w)"
    and first: "\<forall>v\<in>queued s. txid_of s v < txid_of s w \<longrightarrow> \<not> conflict (keys_of s v) (keys_of s w)"
  shows "\<exists>ls. start_hop s w = Some (hop_started s w ls) \<and> shard_ok n G g (hop_started s w ls)"
proof -
  obtain ls where ls: "start_hop s w = Some (hop_started s w ls)"
      "lock_inv ls (intents G s) (holds G (hop_started s w ls))"
    using start_hop_locks [OF ok w free] by blast
  let ?s = "hop_started s w ls"
  have q: "queue_ok n ?s"
    using shard_okD(2) [OF ok] w by (simp add: queue_ok_def)
  have notin: "w \<notin> hops s"
    using shard_okD(3) [OF ok] idle by (simp add: flags_ok_def)
  have e: "entry_ok ?s v" if "v \<in> queued s" for v
    using shard_okD(3) [OF ok] that tx
    by (auto simp: flags_ok_def entry_ok_def is_tx_def txid_of_def Let_def le_max_iff_disj)
  have "distinct (sh_runq ?s)"
    using shard_okD(3) [OF ok] notin by (auto simp: flags_ok_def hops_def)
  moreover have "hops ?s = {v \<in> queued s. w_running (sh_waiters ?s v)}"
    using shard_okD(3) [OF ok] w by (auto simp: flags_ok_def)
  ultimately have f: "flags_ok ?s"
    using e shard_okD(3) [OF ok] by (simp add: flags_ok_def)
  have o: "order_ok G g ?s"
    using shard_okD(4) [OF ok] first by (auto simp: order_ok_def)
  show ?thesis using ls q f o by (auto simp: shard_ok_def)
qed

section \<open>Polling\<close>

lemma txid_inj:
  assumes "queue_ok n s" "v \<in> queued s" "w \<in> queued s" "txid_of s v = txid_of s w"
  shows "v = w"
  using assms by (auto simp: queue_ok_def queued_def distinct_map dest: inj_onD)

lemma in_holds: "ks \<in># holds G s \<longleftrightarrow> ks \<in># G \<or> (\<exists>v\<in>holders s. ks = keys_of s v)"
  by (auto simp: holds_def)

text \<open>A fully granted entry is never blocked: nothing that conflicts with it can hold.\<close>

lemma granted_unblocked:
  assumes ok: "shard_ok n G g s" and w: "w \<in> queued s" "is_tx s w" "g w"
  shows "unblocked G s w"
proof (cases "holding s w")
  case False
  have "\<not> conflict (keys_of s w) (keys_of s v)" if v: "v \<in> queued s" "holding s v" for v
  proof -
    have "v \<noteq> w" using False v by auto
    with txid_inj [OF shard_okD(2) [OF ok] v(1) w(1)]
    have "txid_of s v < txid_of s w \<or> txid_of s w < txid_of s v"
      by (meson linorder_neqE)
    then show ?thesis
      using shard_okD(4) [OF ok] v w conflict_sym by (auto simp: order_ok_def)
  qed
  then show ?thesis
    using shard_okD(4) [OF ok] w by (auto simp: unblocked_def in_holds holders_def order_ok_def)
qed (simp add: unblocked_def)

text \<open>What both loops of \<open>Poll\<close> leave alone.\<close>

definition poll_frame :: "TxShard \<Rightarrow> TxShard \<Rightarrow> bool" where
  "poll_frame s t \<longleftrightarrow>
     keys_of t = keys_of s \<and> is_tx t = is_tx s \<and> txid_of t = txid_of s \<and> sh_polling t = sh_polling s \<and>
     members t = members s \<and> queued t \<subseteq> queued s \<and> {w \<in> queued s. is_tx s w} \<subseteq> queued t \<and>
     (\<forall>w. w_armed (sh_waiters t w) \<longrightarrow> w_armed (sh_waiters s w)) \<and>
     (\<forall>w. w_armed (sh_waiters s w) \<or> w_running (sh_waiters s w) \<longrightarrow>
        w_armed (sh_waiters t w) \<or> w_running (sh_waiters t w))"

lemma poll_frame_refl [simp]: "poll_frame s s"
  by (simp add: poll_frame_def)

lemma poll_frame_trans: "poll_frame s t \<Longrightarrow> poll_frame t u \<Longrightarrow> poll_frame s u"
  by (auto simp: poll_frame_def)

lemma poll_frame_hop_started: "poll_frame s (hop_started s w ls)"
  by (auto simp: poll_frame_def)

declare poll_bypass.simps [simp del]

lemma poll_bypass_correct:
  assumes "shard_ok n G g s" "\<forall>w\<in>set (sh_bypass_ready s). w \<in> queued s \<and> is_tx s w \<and> g w"
  shows "\<exists>t. poll_bypass s = Some t \<and> shard_ok n G g t \<and> sh_bypass_ready t = [] \<and>
    poll_frame s t \<and> sh_queue t = sh_queue s \<and> resumed t = resumed s \<and>
    (\<forall>w\<in>set (sh_bypass_ready s). \<not> w_armed (sh_waiters t w) \<or> w_running (sh_waiters s w))"
  using assms
proof (induction "sh_bypass_ready s" arbitrary: s)
  case Nil
  then show ?case by (simp add: poll_bypass.simps [of s] PopBypassReady_def)
next
  case (Cons w rest)
  let ?s = "s\<lparr>sh_bypass_ready := rest\<rparr>"
  have b: "sh_bypass_ready s = w # rest" using Cons.hyps(2) by simp
  note views = views_cong [of ?s s, simplified]
  have w: "w \<in> queued s" "is_tx s w" "g w" using Cons.prems b by auto
  have ok: "shard_ok n G g ?s" using Cons.prems by (subst shard_ok_cong [of _ s]) simp_all
  show ?case
  proof (cases "\<not> w_armed (sh_waiters s w) \<or> w_running (sh_waiters s w)")
    case True
    then have "poll_bypass s = poll_bypass ?s"
      using w(2) b by (subst poll_bypass.simps) (auto simp: PopBypassReady_def is_tx_def Let_def)
    moreover from Cons.hyps(1) [of ?s] ok Cons.prems b views
    obtain t where "poll_bypass ?s = Some t" "shard_ok n G g t" "sh_bypass_ready t = []" "poll_frame ?s t"
        "sh_queue t = sh_queue ?s" "resumed t = resumed ?s"
        "\<forall>v\<in>set rest. \<not> w_armed (sh_waiters t v) \<or> w_running (sh_waiters s v)"
      by auto
    ultimately show ?thesis
      using True b views by (auto simp: poll_frame_def)
  next
    case False
    have free: "unblocked G ?s w" using granted_unblocked [OF Cons.prems(1) w] views by simp
    have first: "\<forall>v\<in>queued ?s. txid_of ?s v < txid_of ?s w \<longrightarrow> \<not> conflict (keys_of ?s v) (keys_of ?s w)"
      using shard_okD(4) [OF Cons.prems(1)] w views by (auto simp: order_ok_def)
    obtain ls where ls: "start_hop ?s w = Some (hop_started ?s w ls)" "shard_ok n G g (hop_started ?s w ls)"
      using start_hop_correct [OF ok _ free _ _ first] w False views by auto
    let ?t = "hop_started ?s w ls"
    have "can_start ?s w = Some True"
      using can_start_correct [OF ok] free w views by simp
    then have "poll_bypass s = poll_bypass ?t"
      using w(2) b False ls(1) by (subst poll_bypass.simps) (auto simp: PopBypassReady_def is_tx_def Let_def)
    moreover from Cons.hyps(1) [of ?t] ls(2) Cons.prems b views
    obtain t where t: "poll_bypass ?t = Some t" "shard_ok n G g t" "sh_bypass_ready t = []" "poll_frame ?t t"
        "sh_queue t = sh_queue ?t" "resumed t = resumed ?t"
        "\<forall>v\<in>set rest. \<not> w_armed (sh_waiters t v) \<or> w_running (sh_waiters ?t v)"
      by auto
    moreover have "\<not> w_armed (sh_waiters t v) \<or> w_running (sh_waiters s v)" if "v \<in> set (w # rest)" for v
      using that t(4,7) by (cases "v = w") (auto simp: poll_frame_def)
    moreover have "poll_frame s t"
      using t(4) views by (auto simp: poll_frame_def split: if_splits)
    ultimately show ?thesis
      using b views by auto
  qed
qed

text \<open>
  The head of the queue wants to run and could: what \<open>Poll\<close> must not leave behind without
  somebody who will poll again.
\<close>

definition startable :: "guards \<Rightarrow> TxShard \<Rightarrow> bool" where
  "startable G s \<longleftrightarrow>
     (case live (sh_queue s) of
        [] \<Rightarrow> False
      | w # _ \<Rightarrow> (is_tx s w \<longrightarrow> w_armed (sh_waiters s w) \<and> \<not> w_running (sh_waiters s w)) \<and> unblocked G s w)"

lemma startable_cong:
  assumes "live (sh_queue t) = live (sh_queue s)" "sh_waiters t = sh_waiters s" "sh_runq t = sh_runq s"
  shows "startable G t = startable G s"
  by (simp only: startable_def views_cong [OF assms] assms)

lemma head_least:
  assumes "queue_ok n s" "live (sh_queue s) = w # rest" "v \<in> queued s"
  shows "txid_of s w \<le> txid_of s v"
  using assms by (auto simp: queue_ok_def queued_def)

lemma plain_not_holding: "flags_ok s \<Longrightarrow> w \<in> queued s \<Longrightarrow> \<not> is_tx s w \<Longrightarrow>
    \<not> holding s w \<and> w_resume (sh_waiters s w) = w \<and> \<not> w_running (sh_waiters s w)"
  by (auto simp: flags_ok_def entry_ok_def is_tx_def holding_def Let_def)

text \<open>The state after a plain head was popped and handed to the worker.\<close>

definition plain_resumed :: "TxShard \<Rightarrow> wid \<Rightarrow> LockTable list \<Rightarrow> TxQueue \<Rightarrow> TxShard" where
  "plain_resumed s w ls q =
     s\<lparr>sh_committed_txid := max (sh_committed_txid s) (txid_of s w), sh_locks := ls,
       sh_queued_runs := sh_queued_runs s + 1, sh_queue := q,
       sh_runq := sh_runq s @ [ResumePlain w]\<rparr>"

lemma plain_resumed_views [simp]:
  "sh_waiters (plain_resumed s w ls q) = sh_waiters s"
  "keys_of (plain_resumed s w ls q) = keys_of s"
  "is_tx (plain_resumed s w ls q) = is_tx s"
  "txid_of (plain_resumed s w ls q) = txid_of s"
  "holding (plain_resumed s w ls q) = holding s"
  "resumed (plain_resumed s w ls q) = insert w (resumed s)"
  "hops (plain_resumed s w ls q) = hops s"
  "sh_runq (plain_resumed s w ls q) = sh_runq s @ [ResumePlain w]"
  "sh_queue (plain_resumed s w ls q) = q"
  "sh_locks (plain_resumed s w ls q) = ls"
  "sh_committed_txid (plain_resumed s w ls q) = max (sh_committed_txid s) (txid_of s w)"
  "sh_bypass_ready (plain_resumed s w ls q) = sh_bypass_ready s"
  "sh_polling (plain_resumed s w ls q) = sh_polling s"
  by (auto simp: plain_resumed_def keys_of_def is_tx_def txid_of_def holding_def resumed_def hops_def fun_eq_iff)

lemma plain_resumed_ok:
  assumes ok: "shard_ok n G g s" and head: "live (sh_queue s) = w # rest" and q: "live q = rest"
    and plain: "\<not> is_tx s w" and free: "unblocked G s w"
    and ls: "lock_inv ls (intents G s) (add_mset (keys_of s w) (holds G s))"
  shows "shard_ok n G g (plain_resumed s w ls q)" "poll_frame s (plain_resumed s w ls q)"
proof -
  let ?t = "plain_resumed s w ls q"
  have w: "w \<in> queued s" using head by (simp add: queued_def)
  have fl: "flags_ok s" and qo: "queue_ok n s" and ord: "order_ok G g s" using shard_okD [OF ok] by auto
  have nh: "\<not> holding s w" "\<not> w_running (sh_waiters s w)" using plain_not_holding [OF fl w plain] by auto
  have dist: "w \<notin> set rest" using qo head by (auto simp: queue_ok_def)
  have qt: "queued ?t = queued s - {w}" using head q dist by (auto simp: queued_def)
  have wr: "w \<notin> resumed s" using fl w by (auto simp: flags_ok_def)
  have mem: "members ?t = members s" using qt w by (auto simp: members_def)
  have hol: "holders ?t = insert w (holders s)" using qt nh by (auto simp: holders_def)
  have "w \<notin> holders s" using wr nh by (auto simp: holders_def)
  then have "holds G ?t = add_mset (keys_of s w) (holds G s)"
    by (simp add: holds_def hol)
  moreover have "intents G ?t = intents G s" by (simp add: intents_def mem)
  ultimately have 1: "lock_inv (sh_locks ?t) (intents G ?t) (holds G ?t)" using ls by simp
  have 2: "queue_ok n ?t" using qo head q qt w by (auto simp: queue_ok_def)
  have "entry_ok ?t v" if "v \<in> queued ?t" for v
    using that fl qt by (auto simp: flags_ok_def entry_ok_def Let_def le_max_iff_disj split: if_splits)
  then have 3: "flags_ok ?t" using fl qt nh wr by (auto simp: flags_ok_def resumed_def)
  have free': "\<not> conflict (keys_of s w) (keys_of s v)" if "v \<in> queued s" "v \<noteq> w" "is_tx s v \<and> g v" for v
  proof -
    have "txid_of s w < txid_of s v"
      using head_least [OF qo head that(1)] txid_inj [OF qo that(1) w] that(2) by (auto simp: order_less_le)
    then show ?thesis using ord w that by (auto simp: order_ok_def)
  qed
  have 4: "order_ok G g ?t"
    using ord qt free' conflict_sym by (auto simp: order_ok_def)
  show "shard_ok n G g ?t" using 1 2 3 4 by (simp add: shard_ok_def)
  show "poll_frame s ?t" using qt mem plain by (auto simp: poll_frame_def)
qed

lemma hold_room:
  assumes "w \<in> members s" "w \<notin> holders s"
  shows "add_mset (keys_of s w) (holds G s) \<subseteq># intents G s"
proof -
  have "add_mset w (mset_set (holders s)) = mset_set (insert w (holders s))" using assms by simp
  moreover have "\<dots> \<subseteq># mset_set (members s)"
    using assms holders_members by (intro subset_imp_msubset_mset_set) auto
  ultimately have "image_mset (keys_of s) (add_mset w (mset_set (holders s))) \<subseteq># image_mset (keys_of s) (mset_set (members s))"
    by (simp only: image_mset_subseteq_mono)
  then show ?thesis by (simp add: holds_def intents_def)
qed

lemma poll_ordered_plain:
  assumes ok: "shard_ok n G g s" and head: "live (sh_queue s) = w # rest" "sh_queue s = Some w # q"
    and plain: "\<not> is_tx s w" and free: "unblocked G s w"
  shows "\<exists>ls. poll_ordered s = Some (plain_resumed s w ls q) \<and> shard_ok n G g (plain_resumed s w ls q) \<and>
    poll_frame s (plain_resumed s w ls q)"
proof -
  have w: "w \<in> queued s" using head by (simp add: queued_def)
  have nh: "\<not> holding s w" "w_resume (sh_waiters s w) = w"
    using plain_not_holding [OF shard_okD(3) [OF ok] w plain] by auto
  have nr: "w \<notin> holders s" using shard_okD(3) [OF ok] w nh by (auto simp: holders_def flags_ok_def)
  have ks: "keys_ok (keys_of s w)" using ok w by (auto intro: member_keys_ok simp: members_def)
  have hold: "\<forall>js\<in>#holds G s. \<not> conflict (keys_of s w) js" using free nh by (simp add: unblocked_def)
  obtain ls where ls: "AcquireHolds (sh_locks s) (keys_of s w) = Some ls"
      "lock_inv ls (intents G s) (add_mset (keys_of s w) (holds G s))"
    using AcquireHolds_correct [OF shard_okD(1) [OF ok] ks hold_room hold] w nr by (auto simp: members_def)
  have "CanHoldAll (sh_locks s) (keys_of s w) = Some True"
    using CanHoldAll_correct [OF shard_okD(1) [OF ok] ks] hold by simp
  then have "poll_ordered s = Some (plain_resumed s w ls q)"
    using head ls(1) plain nh
    by (simp add: poll_ordered_def PopFront_def is_tx_def keys_of_def txid_of_def plain_resumed_def Let_def)
  then show ?thesis
    using plain_resumed_ok [OF ok head(1) _ plain free ls(2), of q] head by auto
qed

lemma poll_ordered_tx:
  assumes ok: "shard_ok n G g s" and head: "live (sh_queue s) = w # rest" "sh_queue s = Some w # q"
    and tx: "is_tx s w" and free: "unblocked G s w" and armed: "w_armed (sh_waiters s w)" "\<not> w_running (sh_waiters s w)"
  shows "\<exists>ls. poll_ordered s = Some (hop_started s w ls) \<and> shard_ok n G g (hop_started s w ls)"
proof -
  have w: "w \<in> queued s" using head by (simp add: queued_def)
  have "\<forall>v\<in>queued s. txid_of s v < txid_of s w \<longrightarrow> \<not> conflict (keys_of s v) (keys_of s w)"
    using head_least [OF shard_okD(2) [OF ok] head(1)] by (meson leD)
  then obtain ls where ls: "start_hop s w = Some (hop_started s w ls)" "shard_ok n G g (hop_started s w ls)"
    using start_hop_correct [OF ok w free tx armed(2)] by blast
  have "can_start s w = Some True" using can_start_correct [OF ok w] free by simp
  moreover have "Front (sh_queue s) = (sh_queue s, Some w)" using head(2) by simp
  ultimately have "poll_ordered s = Some (hop_started s w ls)"
    using ls(1) tx armed by (simp add: poll_ordered_def is_tx_def Let_def)
  then show ?thesis using ls(2) by blast
qed

lemma poll_ordered_idle:
  assumes ok: "shard_ok n G g s" and head: "live (sh_queue s) = w # rest" "sh_queue s = Some w # q"
    and idle: "\<not> startable G s"
  shows "poll_ordered s = Some s"
proof -
  have w: "w \<in> queued s" using head by (simp add: queued_def)
  have ks: "keys_ok (keys_of s w)" using ok w by (auto intro: member_keys_ok simp: members_def)
  have "can_start s w = Some (unblocked G s w)" by (rule can_start_correct [OF ok w])
  moreover have "\<not> is_tx s w \<Longrightarrow> CanHoldAll (sh_locks s) (keys_of s w) = Some (unblocked G s w)"
    using CanHoldAll_correct [OF shard_okD(1) [OF ok] ks] plain_not_holding [OF shard_okD(3) [OF ok] w]
    by (simp add: unblocked_def)
  moreover have "Front (sh_queue s) = (sh_queue s, Some w)" using head(2) by simp
  ultimately show ?thesis
    using head(1) idle by (auto simp: poll_ordered_def startable_def Let_def is_tx_def keys_of_def)
qed

lemma poll_ordered_correct:
  assumes ok: "shard_ok n G g s" and head: "live (sh_queue s) = w # rest" "sh_queue s = Some w # q"
  shows "\<exists>t. poll_ordered s = Some t \<and> shard_ok n G g t \<and> poll_frame s t \<and>
    sh_bypass_ready t = sh_bypass_ready s \<and> (startable G t \<longrightarrow> resumed t \<noteq> {})"
proof (cases "startable G s")
  case False
  then show ?thesis using poll_ordered_idle [OF ok head False] ok by auto
next
  case True
  then have free: "unblocked G s w" using head by (simp add: startable_def)
  show ?thesis
  proof (cases "is_tx s w")
    case False
    then show ?thesis using poll_ordered_plain [OF ok head False free] by auto
  next
    case tx: True
    then have "w_armed (sh_waiters s w)" "\<not> w_running (sh_waiters s w)"
      using True head by (auto simp: startable_def)
    from poll_ordered_tx [OF ok head tx free this] obtain ls where
      "poll_ordered s = Some (hop_started s w ls)" "shard_ok n G g (hop_started s w ls)" by blast
    moreover have "\<not> startable G (hop_started s w ls)" using head tx by (simp add: startable_def)
    ultimately show ?thesis using poll_frame_hop_started by simp
  qed
qed

text \<open>
  The polling precondition: every entry of the bypass queue is a granted, queued
  transaction. \<open>Poll\<close> returns, keeps the invariant, drains the bypass queue and leaves no
  startable head behind unless a resumed waiter is about to poll again.
\<close>

definition bypass_ok :: "(wid \<Rightarrow> bool) \<Rightarrow> TxShard \<Rightarrow> bool" where
  "bypass_ok g s \<longleftrightarrow> (\<forall>w\<in>set (sh_bypass_ready s). w \<in> queued s \<and> is_tx s w \<and> g w)"

lemma Poll_correct:
  assumes ok: "shard_ok n G g s" and b: "bypass_ok g s" and p: "\<not> sh_polling s"
  shows "\<exists>t. Poll s = Some t \<and> shard_ok n G g t \<and> poll_frame s t \<and> (live (sh_queue s) \<noteq> [] \<longrightarrow> sh_bypass_ready t = []) \<and>
    (live (sh_queue s) = [] \<longrightarrow> sh_bypass_ready t = sh_bypass_ready s) \<and> (startable G t \<longrightarrow> resumed t \<noteq> {}) \<and>
    (\<forall>w\<in>set (sh_bypass_ready s). \<not> w_armed (sh_waiters t w) \<or> w_running (sh_waiters s w))"
proof (cases "live (sh_queue s)")
  case Nil
  have "sh_bypass_ready s = []" using Nil b by (cases "sh_bypass_ready s") (auto simp: bypass_ok_def queued_def)
  moreover from Nil have "Front (sh_queue s) = ([], None)" by (metis Front_None Front_Some list.distinct(1) not_Some_eq prod.exhaust)
  ultimately show ?thesis
    using Nil p shard_ok_cong [of "s\<lparr>sh_polling := True, sh_queue := [], sh_polling := False\<rparr>" s n G g] ok
      views_cong [of "s\<lparr>sh_polling := True, sh_queue := [], sh_polling := False\<rparr>" s]
    by (auto simp: Poll_def poll_frame_def startable_def)
next
  case (Cons w rest)
  obtain q where q: "Front (sh_queue s) = (Some w # q, Some w)" "live q = rest"
    using Cons by (cases "Front (sh_queue s)"; cases "snd (Front (sh_queue s))")
       (auto dest: Front_None Front_Some)
  let ?s = "s\<lparr>sh_polling := True, sh_queue := Some w # q\<rparr>"
  have live: "live (sh_queue ?s) = live (sh_queue s)" using Cons q by simp
  note views = views_cong [OF live, simplified]
  have "shard_ok n G g ?s" using ok live by (subst shard_ok_cong [of _ s]) simp_all
  from poll_bypass_correct [OF this] b views obtain t where t: "poll_bypass ?s = Some t" "shard_ok n G g t"
      "sh_bypass_ready t = []" "poll_frame ?s t" "sh_queue t = sh_queue ?s"
      "\<forall>w\<in>set (sh_bypass_ready s). \<not> w_armed (sh_waiters t w) \<or> w_running (sh_waiters s w)"
    by (auto simp: bypass_ok_def)
  have "live (sh_queue t) = w # rest" "sh_queue t = Some w # q" using t(5) q by auto
  from poll_ordered_correct [OF t(2) this] obtain u where u: "poll_ordered t = Some u" "shard_ok n G g u"
      "poll_frame t u" "sh_bypass_ready u = []" "startable G u \<longrightarrow> resumed u \<noteq> {}"
    using t(3) by auto
  let ?u = "u\<lparr>sh_polling := False\<rparr>"
  note views' = views_cong [of ?u u, simplified]
  have "shard_ok n G g ?u" using u(2) by (subst shard_ok_cong [of _ u]) simp_all
  moreover have "Poll s = Some ?u" using p q t(1) u(1) by (simp add: Poll_def)
  moreover have "poll_frame s ?u" using poll_frame_trans [OF t(4) u(3)] p views views' by (auto simp: poll_frame_def)
  moreover have "startable G ?u \<longrightarrow> resumed ?u \<noteq> {}" using u(5) views' startable_cong [of ?u u] by simp
  moreover have "\<not> w_armed (sh_waiters ?u v) \<or> w_running (sh_waiters s v)" if "v \<in> set (sh_bypass_ready s)" for v
    using t(6) that u(3) by (auto simp: poll_frame_def)
  ultimately show ?thesis using u(4) Cons by auto
qed

end
