(* ===== verification/Tx_Operations.thy ===== *)
theory Tx_Operations
  imports Tx_Invariant
begin

text \<open>
  Every shard operation returns from a state in the invariant and keeps it: the two
  acquisition paths, the release of a guard, and the transaction entry points.
\<close>

section \<open>The invariant between two worker steps\<close>

text \<open>
  Between two steps the scheduling invariant holds, \<open>Poll\<close> is not on the stack, the bypass
  queue is drained, every granted hop that was armed has been started, and a head that
  could start has somebody left who will poll.
\<close>

definition prompt :: "(wid \<Rightarrow> bool) \<Rightarrow> TxShard \<Rightarrow> bool" where
  "prompt g s \<longleftrightarrow> (\<forall>w\<in>queued s. is_tx s w \<and> g w \<longrightarrow> \<not> w_armed (sh_waiters s w))"

definition shard_inv :: "u64 \<Rightarrow> guards \<Rightarrow> (wid \<Rightarrow> bool) \<Rightarrow> TxShard \<Rightarrow> bool" where
  "shard_inv n G g s \<longleftrightarrow> shard_ok n G g s \<and> \<not> sh_polling s \<and> sh_bypass_ready s = [] \<and> prompt g s \<and>
     (startable G s \<longrightarrow> G \<noteq> {#} \<or> resumed s \<noteq> {})"

lemma shard_invD:
  assumes "shard_inv n G g s"
  shows "shard_ok n G g s" "\<not> sh_polling s" "sh_bypass_ready s = []" "startable G s \<Longrightarrow> G \<noteq> {#} \<or> resumed s \<noteq> {}"
    "prompt g s"
  using assms by (auto simp: shard_inv_def)

lemma Poll_inv:
  assumes "shard_ok n G g s" "bypass_ok g s" "\<not> sh_polling s"
    and armed: "\<forall>w\<in>queued s. is_tx s w \<and> g w \<and> w_armed (sh_waiters s w) \<longrightarrow>
      w \<in> set (sh_bypass_ready s) \<and> \<not> w_running (sh_waiters s w)"
  shows "\<exists>t. Poll s = Some t \<and> shard_inv n G g t \<and> poll_frame s t"
proof -
  obtain t where t: "Poll s = Some t" "shard_ok n G g t" "poll_frame s t"
      "live (sh_queue s) \<noteq> [] \<longrightarrow> sh_bypass_ready t = []"
      "live (sh_queue s) = [] \<longrightarrow> sh_bypass_ready t = sh_bypass_ready s" "startable G t \<longrightarrow> resumed t \<noteq> {}"
      "\<forall>w\<in>set (sh_bypass_ready s). \<not> w_armed (sh_waiters t w) \<or> w_running (sh_waiters s w)"
    using Poll_correct [OF assms(1-3)] by (elim exE conjE) (rule that)
  have "sh_bypass_ready s = []" if "live (sh_queue s) = []"
    using that assms(2) by (cases "sh_bypass_ready s") (auto simp: bypass_ok_def queued_def)
  then have "sh_bypass_ready t = []" using t(4,5) by (cases "live (sh_queue s) = []") auto
  moreover have "\<not> sh_polling t" using t(3) assms(3) by (simp add: poll_frame_def)
  moreover have "prompt g t" using t(3,7) armed by (auto simp: prompt_def poll_frame_def)
  ultimately have "shard_inv n G g t" using t(2,6) by (simp add: shard_inv_def)
  then show ?thesis using t(1,3) by blast
qed

lemma Poll_inv_quiet:
  assumes "shard_ok n G g s" "sh_bypass_ready s = []" "\<not> sh_polling s" "prompt g s"
  shows "\<exists>t. Poll s = Some t \<and> shard_inv n G g t \<and> poll_frame s t"
  by (rule Poll_inv [OF assms(1) _ assms(3)]) (use assms(2,4) in \<open>auto simp: bypass_ok_def prompt_def\<close>)

text \<open>Queued transactions that are waiting for their coordinator to arm the next hop.\<close>

definition idle :: "TxShard \<Rightarrow> wid set" where
  "idle s = {w \<in> queued s. is_tx s w \<and> \<not> w_armed (sh_waiters s w) \<and> \<not> w_running (sh_waiters s w)}"

lemma finite_idle [simp]: "finite (idle s)"
  by (simp add: idle_def)

lemma poll_frame_idle: "poll_frame s t \<Longrightarrow> queued t \<subseteq> queued s \<and> idle t \<subseteq> idle s"
  by (auto simp: poll_frame_def idle_def)

lemma new_shard_inv: "0 < n \<Longrightarrow> shard_inv n {#} g new_shard"
  using new_shard_ok [of n g] by (simp add: shard_inv_def startable_def new_shard_def prompt_def queued_def)

text \<open>Only the lock tables and the guards change.\<close>

lemma relock_ok:
  assumes "shard_ok n G g s" "lock_inv ls (intents G' s) (holds G' s)"
    and "\<And>ks w. ks \<in># G' \<Longrightarrow> w \<in> queued s \<Longrightarrow> is_tx s w \<Longrightarrow> g w \<Longrightarrow> \<not> conflict (keys_of s w) ks"
  shows "shard_ok n G' g (s\<lparr>sh_locks := ls\<rparr>)"
proof -
  note views = views_cong [of "s\<lparr>sh_locks := ls\<rparr>" s, simplified]
  show ?thesis
    using shard_okD [OF assms(1)] assms(2,3)
    by (simp add: shard_ok_def queue_ok_def flags_ok_def entry_ok_def order_ok_def views)
qed

lemma intents_add_guard: "intents (add_mset ks G) s = add_mset ks (intents G s)"
  by (simp add: intents_def)

lemma holds_add_guard: "holds (add_mset ks G) s = add_mset ks (holds G s)"
  by (simp add: holds_def)

lemma holds_sub_intents: "holds G s \<subseteq># intents G s"
  using image_mset_subseteq_mono [OF subset_imp_msubset_mset_set [OF holders_members finite_members, of s]]
  by (simp add: holds_def intents_def)

section \<open>Fast path and release\<close>

text \<open>The single-key branch of the fast path is the general one.\<close>

lemma TryFastPath_uniform:
  assumes inv: "lock_inv (sh_locks s) I H" and ks: "keys_ok keys"
  shows "TryFastPath s keys =
     do { (ls, granted) \<leftarrow> AcquireIntents (sh_locks s) keys;
          if \<not> granted then Some (s\<lparr>sh_locks := ls\<rparr>, False)
          else do { ls \<leftarrow> AcquireHolds ls keys;
                    Some (s\<lparr>sh_locks := ls, sh_fastpath_runs := sh_fastpath_runs s + 1\<rparr>, True) } }"
proof (cases "\<exists>k. keys = [k]")
  case True
  then obtain k where k: "keys = [k]" by blast
  then have r: "unat (kr_db k) < length (sh_locks s)"
    using ks lock_invD(1) [OF inv] by (simp add: keys_ok_def)
  have "cell_ok (lock_at (sh_locks s ! unat (kr_db k)) (kr_fp k))"
    using lock_inv_cell_ok [OF inv, of "key_id k"] cells_key_id [OF r] by simp
  then show ?thesis
    using r by (cases "AcquireIntent (sh_locks s ! unat (kr_db k)) (kr_fp k) (kr_mode k)")
      (auto simp: k TryFastPath_def AcquireIntentAndHoldIfGranted_two_step AcquireHolds_def with_table_def
        option.map_comp comp_def map_option_case Let_def split: option.splits)
next
  case False
  then show ?thesis by (simp add: TryFastPath_def split: list.splits)
qed

lemma TryFastPath_correct:
  assumes inv: "lock_inv (sh_locks s) I H" and ks: "keys_ok keys" and room: "size I + 1 < 2 ^ 32"
  shows "\<exists>ls. if \<forall>js\<in>#I. \<not> conflict keys js
     then TryFastPath s keys = Some (s\<lparr>sh_locks := ls, sh_fastpath_runs := sh_fastpath_runs s + 1\<rparr>, True) \<and>
       lock_inv ls (add_mset keys I) (add_mset keys H)
     else TryFastPath s keys = Some (s\<lparr>sh_locks := ls\<rparr>, False) \<and> lock_inv ls (add_mset keys I) H"
proof -
  obtain ls where ls: "AcquireIntents (sh_locks s) keys = Some (ls, \<forall>js\<in>#I. \<not> conflict keys js)"
      "lock_inv ls (add_mset keys I) H"
    using AcquireIntents_correct [OF inv ks room] by blast
  show ?thesis
  proof (cases "\<forall>js\<in>#I. \<not> conflict keys js")
    case False
    then have "TryFastPath s keys = Some (s\<lparr>sh_locks := ls\<rparr>, False)"
      by (simp only: TryFastPath_uniform [OF inv ks] ls(1)) simp
    then show ?thesis using ls(2) by (simp only: False if_False) blast
  next
    case True
    have "\<forall>js\<in>#H. \<not> conflict keys js" using True mset_subset_eqD [OF lock_invD(4) [OF inv]] by blast
    then obtain ls' where "AcquireHolds ls keys = Some ls'" "lock_inv ls' (add_mset keys I) (add_mset keys H)"
      using AcquireHolds_correct [OF ls(2) ks] lock_invD(4) [OF inv] by (simp only: mset_subset_eq_add_mset_cancel) blast
    moreover from this have
      "TryFastPath s keys = Some (s\<lparr>sh_locks := ls', sh_fastpath_runs := sh_fastpath_runs s + 1\<rparr>, True)"
      using ls(1) by (simp only: TryFastPath_uniform [OF inv ks] eqTrueI [OF True]) simp
    ultimately show ?thesis by (simp only: eqTrueI [OF True] if_True) blast
  qed
qed

lemma Release_uniform:
  "Release s keys =
     do { ls \<leftarrow> ReleaseHolds (sh_locks s) keys; ls \<leftarrow> ReleaseIntents ls keys; Poll (s\<lparr>sh_locks := ls\<rparr>) }"
proof (cases "\<exists>k. keys = [k]")
  case True
  then obtain k where k: "keys = [k]" by blast
  show ?thesis
    by (auto simp: k Release_def ReleaseHolds_def ReleaseIntents_def with_table_def ReleaseHoldAndIntent_two_step
        split: bind_splits)
next
  case False
  then show ?thesis by (simp add: Release_def split: list.splits)
qed

lemma Release_correct:
  assumes inv: "shard_inv n (add_mset ks G) g s"
  shows "\<exists>t. Release s ks = Some t \<and> shard_inv n G g t \<and> members t = members s \<and> queued t \<subseteq> queued s \<and> idle t \<subseteq> idle s"
proof -
  note ok = shard_invD(1) [OF inv]
  obtain ls1 where ls1: "ReleaseHolds (sh_locks s) ks = Some ls1" "lock_inv ls1 (add_mset ks (intents G s)) (holds G s)"
    using ReleaseHolds_correct shard_okD(1) [OF ok] unfolding holds_add_guard intents_add_guard by blast
  obtain ls2 where ls2: "ReleaseIntents ls1 ks = Some ls2" "lock_inv ls2 (intents G s) (holds G s)"
    using ReleaseIntents_correct [OF ls1(2) holds_sub_intents] by blast
  have "shard_ok n G g (s\<lparr>sh_locks := ls2\<rparr>)"
    by (rule relock_ok [OF ok ls2(2)]) (use shard_okD(4) [OF ok] in \<open>auto simp: order_ok_def\<close>)
  moreover have "prompt g (s\<lparr>sh_locks := ls2\<rparr>)"
    using shard_invD(5) [OF inv] by (simp add: prompt_def queued_def is_tx_def)
  ultimately obtain t where t: "Poll (s\<lparr>sh_locks := ls2\<rparr>) = Some t" "shard_inv n G g t" "poll_frame (s\<lparr>sh_locks := ls2\<rparr>) t"
    using Poll_inv_quiet [of n G g "s\<lparr>sh_locks := ls2\<rparr>"] shard_invD(2,3) [OF inv] by auto
  have "members (s\<lparr>sh_locks := ls2\<rparr>) = members s" "queued (s\<lparr>sh_locks := ls2\<rparr>) = queued s" "idle (s\<lparr>sh_locks := ls2\<rparr>) = idle s"
    by (simp_all add: members_def resumed_def queued_def idle_def is_tx_def)
  then show ?thesis
    using ls1(1) ls2(1) t(1,2) t(3) poll_frame_idle [OF t(3)] by (simp add: Release_uniform poll_frame_def)
qed

section \<open>Queueing a waiter\<close>

lemma regs_insert:
  assumes "finite A" "w \<notin> A" "\<And>v. v \<in> A \<Longrightarrow> f v = h v"
  shows "G + image_mset f (mset_set (insert w A)) = add_mset (f w) (G + image_mset h (mset_set A))"
  using assms image_mset_set_cong [of A f h] by simp

text \<open>The state after a fresh waiter \<open>w\<close> with record \<open>r\<close> was inserted.\<close>

definition enqueued :: "TxShard \<Rightarrow> wid \<Rightarrow> TxWaiter \<Rightarrow> LockTable list \<Rightarrow> TxQueue \<Rightarrow> TxShard" where
  "enqueued s w r ls q = s\<lparr>sh_locks := ls, sh_queue := q, sh_waiters := (sh_waiters s)(w := r)\<rparr>"

lemma enqueued_fields [simp]:
  "sh_locks (enqueued s w r ls q) = ls" "sh_queue (enqueued s w r ls q) = q"
  "sh_waiters (enqueued s w r ls q) = (sh_waiters s)(w := r)"
  "sh_runq (enqueued s w r ls q) = sh_runq s"
  "sh_committed_txid (enqueued s w r ls q) = sh_committed_txid s"
  "sh_polling (enqueued s w r ls q) = sh_polling s"
  "sh_bypass_ready (enqueued s w r ls q) = sh_bypass_ready s"
  by (simp_all add: enqueued_def)

lemma enqueued_views:
  assumes "set (live q) = insert w (queued s)" "w \<notin> members s"
  shows "queued (enqueued s w r ls q) = insert w (queued s)"
    "resumed (enqueued s w r ls q) = resumed s" "hops (enqueued s w r ls q) = hops s"
    "keys_of (enqueued s w r ls q) = (keys_of s)(w := w_keys r)"
    "is_tx (enqueued s w r ls q) = (is_tx s)(w := w_tx r \<noteq> None)"
    "txid_of (enqueued s w r ls q) = (txid_of s)(w := w_txid r)"
    "holding (enqueued s w r ls q) = (holding s)(w := w_holds_acquired r)"
    "members (enqueued s w r ls q) = insert w (members s)"
  using assms
  by (auto simp: queued_def resumed_def hops_def keys_of_def is_tx_def txid_of_def holding_def members_def fun_eq_iff)

definition fresh_entry :: "wid \<Rightarrow> TxWaiter \<Rightarrow> bool" where
  "fresh_entry w r \<longleftrightarrow> \<not> w_armed r \<and> \<not> w_running r \<and> \<not> w_holds_acquired r \<and> (w_tx r = None \<longrightarrow> w_resume r = w)"

lemma enqueued_registrants:
  assumes "set (live q) = insert w (queued s)" "w \<notin> members s" "fresh_entry w r"
  shows "intents G (enqueued s w r ls q) = add_mset (w_keys r) (intents G s)"
    "holds G (enqueued s w r ls q) = holds G s"
proof -
  note v = enqueued_views [OF assms(1,2)]
  have same: "((keys_of s)(w := w_keys r)) v = keys_of s v" if "v \<in> members s" for v
    using that assms(2) by auto
  show "intents G (enqueued s w r ls q) = add_mset (w_keys r) (intents G s)"
    unfolding intents_def v(4,8)
    using regs_insert [of "members s" w "(keys_of s)(w := w_keys r)" "keys_of s" G, OF finite_members assms(2) same]
    by (simp only: fun_upd_same)
  have h: "holders (enqueued s w r ls q) = holders s"
    using assms(2,3) by (auto simp: holders_def v(1,2,7) members_def fresh_entry_def)
  have "image_mset ((keys_of s)(w := w_keys r)) (mset_set (holders s)) = image_mset (keys_of s) (mset_set (holders s))"
    by (rule image_mset_set_cong [OF finite_holders same]) (use holders_members in blast)
  then show "holds G (enqueued s w r ls q) = holds G s"
    by (simp only: holds_def v(4) h)
qed

lemma enqueue_queue_ok:
  assumes ok: "queue_ok n s" and w: "w \<notin> queued s"
    and t: "w_txid r \<noteq> 0" "w_txid r < m" "n \<le> m" "\<forall>v\<in>queued s. txid_of s v \<noteq> w_txid r"
  shows "\<exists>q. Insert (txid_of (enqueued s w r ls [])) (sh_queue s) w = Some q \<and>
    live q = insort_key ((txid_of s)(w := w_txid r)) w (live (sh_queue s)) \<and>
    set (live q) = insert w (queued s) \<and> queue_ok m (enqueued s w r ls q)"
proof -
  let ?f = "(txid_of s)(w := w_txid r)" and ?xs = "live (sh_queue s)"
  have f: "txid_of (enqueued s w r ls q) = ?f" for q by (auto simp: txid_of_def)
  have same: "map ?f ?xs = map (txid_of s) ?xs" using w by (auto simp: queued_def)
  obtain q where q: "Insert ?f (sh_queue s) w = Some q" using t(1) by (simp add: Insert_def)
  have srt: "sorted (map ?f ?xs)" using ok unfolding same queue_ok_def by simp
  have live: "live q = insort_key ?f w ?xs" by (rule Insert_live [OF srt q])
  have st: "set (live q) = insert w (queued s)" by (simp add: live set_insort_key queued_def)
  have mset: "mset (map ?f (live q)) = add_mset (w_txid r) (mset (map (txid_of s) ?xs))"
    using same txq.ins_mset [OF srt q] by (metis (no_types, lifting) fun_upd_same image_mset_add_mset mset_map)
  have "distinct (map ?f (live q))"
  proof -
    have "distinct (w_txid r # map (txid_of s) ?xs)" using ok t(4) by (auto simp: queue_ok_def queued_def)
    then show ?thesis using mset mset_eq_imp_distinct_iff by (metis mset.simps(2))
  qed
  moreover have "sorted (map ?f (live q))" by (rule txq.ins_sorted [OF srt q])
  moreover have "sh_committed_txid (enqueued s w r ls q) < m" using ok t(3) by (auto simp: queue_ok_def intro: order_less_le_trans)
  moreover have "queued (enqueued s w r ls q) = insert w (queued s)" using st by (simp add: queued_def)
  moreover have "\<forall>v\<in>queued s. txid_of s v \<noteq> 0 \<and> txid_of s v < m"
    using ok t(3) by (auto simp: queue_ok_def intro: order_less_le_trans)
  moreover have "live (sh_queue (enqueued s w r ls q)) = live q" by simp
  ultimately have "queue_ok m (enqueued s w r ls q)" using t(1,2) unfolding queue_ok_def f by auto
  then show ?thesis using q live st unfolding f by blast
qed

lemma enqueue_order_ok:
  assumes ok: "order_ok G g s" and q: "set (live q) = insert w (queued s)"
    and w: "w \<notin> members s" and r: "fresh_entry w r"
    and gr: "w_tx r \<noteq> None \<Longrightarrow> gw \<Longrightarrow> \<forall>js\<in>#intents G s. \<not> conflict (w_keys r) js"
    and ord: "\<forall>u\<in>queued s. w_txid r < txid_of s u \<longrightarrow> is_tx s u \<and> g u \<or> holding s u \<longrightarrow>
      \<not> conflict (w_keys r) (keys_of s u)"
  shows "order_ok G (g(w := gw)) (enqueued s w r ls q)"
proof -
  note v = enqueued_views [OF q w]
  have free: "(\<forall>ks\<in>#G. \<not> conflict (w_keys r) ks) \<and>
      (\<forall>u\<in>resumed s \<union> queued s. \<not> conflict (w_keys r) (keys_of s u) \<and> \<not> conflict (keys_of s u) (w_keys r))"
    if "w_tx r \<noteq> None" gw
    using gr [OF that] conflict_sym by (auto simp: intents_def members_def)
  have nh: "\<not> w_holds_acquired r" "w \<notin> resumed s" using r w by (auto simp: fresh_entry_def members_def)
  note o = ok [unfolded order_ok_def]
  show ?thesis unfolding order_ok_def v
  proof (intro conjI ballI impI)
    fix x y
    assume xy: "x \<in> insert w (queued s)" "y \<in> insert w (queued s)"
      "((txid_of s)(w := w_txid r)) x < ((txid_of s)(w := w_txid r)) y"
      "((is_tx s)(w := w_tx r \<noteq> None)) y \<and> (g(w := gw)) y \<or> ((holding s)(w := w_holds_acquired r)) y"
    show "\<not> conflict (((keys_of s)(w := w_keys r)) x) (((keys_of s)(w := w_keys r)) y)"
      using xy o free ord nh by (cases "x = w"; cases "y = w") auto
  next
    fix y ks
    assume "y \<in> insert w (queued s)" "((is_tx s)(w := w_tx r \<noteq> None)) y \<and> (g(w := gw)) y" "ks \<in># G"
    then show "\<not> conflict (((keys_of s)(w := w_keys r)) y) ks"
      using o free by (cases "y = w") auto
  next
    fix y u
    assume "y \<in> insert w (queued s)" "((is_tx s)(w := w_tx r \<noteq> None)) y \<and> (g(w := gw)) y" "u \<in> resumed s"
    then show "\<not> conflict (((keys_of s)(w := w_keys r)) y) (((keys_of s)(w := w_keys r)) u)"
      using o free nh by (cases "y = w"; cases "u = w") auto
  qed
qed

lemma enqueue_ok:
  assumes ok: "shard_ok n G g s" and w: "w \<notin> members s" and r: "fresh_entry w r"
    and ls: "lock_inv ls (add_mset (w_keys r) (intents G s)) (holds G s)"
    and t: "w_txid r \<noteq> 0" "w_txid r < m" "n \<le> m" "\<forall>v\<in>queued s. txid_of s v \<noteq> w_txid r"
    and gr: "w_tx r \<noteq> None \<Longrightarrow> gw \<Longrightarrow> \<forall>js\<in>#intents G s. \<not> conflict (w_keys r) js"
    and ord: "\<forall>u\<in>queued s. w_txid r < txid_of s u \<longrightarrow> is_tx s u \<and> g u \<or> holding s u \<longrightarrow>
      \<not> conflict (w_keys r) (keys_of s u)"
  shows "\<exists>q. Insert (txid_of (enqueued s w r ls [])) (sh_queue s) w = Some q \<and>
    live q = insort_key ((txid_of s)(w := w_txid r)) w (live (sh_queue s)) \<and>
    shard_ok m G (g(w := gw)) (enqueued s w r ls q)"
proof -
  have wq: "w \<notin> queued s" using w by (simp add: members_def)
  obtain q where q: "Insert (txid_of (enqueued s w r ls [])) (sh_queue s) w = Some q"
      "live q = insort_key ((txid_of s)(w := w_txid r)) w (live (sh_queue s))"
      "set (live q) = insert w (queued s)" "queue_ok m (enqueued s w r ls q)"
    using enqueue_queue_ok [OF shard_okD(2) [OF ok] wq t] by blast
  let ?t = "enqueued s w r ls q"
  note v = enqueued_views [OF q(3) w] and regs = enqueued_registrants [OF q(3) w r]
  have 1: "lock_inv (sh_locks ?t) (intents G ?t) (holds G ?t)" using ls regs by simp
  have e: "entry_ok ?t u" if "u \<in> queued ?t" for u
    using that shard_okD(3) [OF ok] r wq
    by (cases "u = w") (auto simp: v flags_ok_def entry_ok_def fresh_entry_def Let_def)
  have "hops ?t = {u \<in> queued ?t. w_running (sh_waiters ?t u)}"
    using shard_okD(3) [OF ok] r wq unfolding v by (auto simp: flags_ok_def fresh_entry_def)
  then have 3: "flags_ok ?t"
    using e shard_okD(3) [OF ok] w by (auto simp: flags_ok_def v members_def)
  have 4: "order_ok G (g(w := gw)) ?t"
    by (rule enqueue_order_ok [OF shard_okD(4) [OF ok] q(3) w r gr ord])
  show ?thesis using q(1,2,4) 1 3 4 unfolding shard_ok_def by blast
qed

lemma enqueued_prompt:
  assumes "prompt g s" "set (live q) = insert w (queued s)" "w \<notin> members s" "fresh_entry w r"
  shows "prompt (g(w := gw)) (enqueued s w r ls q)"
  using assms(1,3,4) unfolding prompt_def enqueued_views [OF assms(2,3)] by (auto simp: fresh_entry_def members_def)

text \<open>Queueing does not turn a waiting head into a startable one behind the back of \<open>Poll\<close>.\<close>

lemma enqueued_startable:
  assumes ok: "queue_ok n s" and w: "w \<notin> members s" and r: "fresh_entry w r"
    and live: "live q = insort_key ((txid_of s)(w := w_txid r)) w (live (sh_queue s))"
    and st: "startable G (enqueued s w r ls q)"
    and tail: "w_tx r = None \<Longrightarrow> \<forall>u\<in>queued s. txid_of s u < w_txid r"
  shows "startable G s \<or> (live (sh_queue s) = [] \<and> w_tx r = None)"
proof -
  let ?t = "enqueued s w r ls q" and ?f = "(txid_of s)(w := w_txid r)"
  have q: "set (live q) = insert w (queued s)" by (simp add: live set_insort_key queued_def)
  note v = enqueued_views [OF q w] and regs = enqueued_registrants [OF q w r]
  show ?thesis
  proof (cases "live (sh_queue s)")
    case Nil
    then have "live q = [w]" using live by simp
    then show ?thesis using st r Nil unfolding startable_def v by (auto simp: fresh_entry_def)
  next
    case (Cons h rest)
    have hw: "h \<noteq> w" using Cons w by (auto simp: members_def queued_def)
    have "\<not> ?f w \<le> ?f h"
    proof
      assume le: "?f w \<le> ?f h"
      then have "live q = w # live (sh_queue s)" using Cons live by simp
      then have "w_tx r = None" using st r unfolding startable_def v by (auto simp: fresh_entry_def)
      with tail Cons have "txid_of s h < w_txid r" by (auto simp: queued_def)
      with le hw show False by simp
    qed
    then obtain rest' where "live q = h # rest'" using Cons live by simp
    then show ?thesis using st Cons hw unfolding startable_def unblocked_def v regs by simp
  qed
qed

section \<open>Plain acquisition\<close>

lemma Acquire_fast:
  assumes inv: "shard_inv n G g s" and free: "\<forall>js\<in>#intents G s. \<not> conflict keys js"
    and ls: "TryFastPath s keys = Some (s\<lparr>sh_locks := ls, sh_fastpath_runs := sh_fastpath_runs s + 1\<rparr>, True)"
      "lock_inv ls (add_mset keys (intents G s)) (add_mset keys (holds G s))"
  shows "\<exists>t. AwaitKeys s n w keys = Some (t, n, True) \<and> shard_inv n (add_mset keys G) g t"
proof -
  note ok = shard_invD(1) [OF inv]
  let ?t = "s\<lparr>sh_locks := ls, sh_fastpath_runs := sh_fastpath_runs s + 1\<rparr>"
  have "shard_ok n (add_mset keys G) g (s\<lparr>sh_locks := ls\<rparr>)"
  proof (rule relock_ok [OF ok])
    show "\<not> conflict (keys_of s v) js" if "js \<in># add_mset keys G" "v \<in> queued s" "is_tx s v" "g v" for js v
      using that free shard_okD(4) [OF ok] conflict_sym by (auto simp: order_ok_def intents_def members_def)
  qed (use ls(2) in \<open>simp only: intents_add_guard holds_add_guard\<close>)
  then have "shard_ok n (add_mset keys G) g ?t"
    by (subst shard_ok_cong [of _ "s\<lparr>sh_locks := ls\<rparr>"]) simp_all
  then show ?thesis
    using ls(1) shard_invD(2,3,5) [OF inv]
    by (intro exI [of _ ?t]) (simp add: AwaitKeys_def shard_inv_def prompt_def queued_def is_tx_def)
qed

lemma Acquire_queued:
  assumes inv: "shard_inv n G g s" and w: "w \<notin> members s" and n: "0 < n" "n + 1 \<noteq> 0"
    and clash: "\<not> (\<forall>js\<in>#intents G s. \<not> conflict keys js)"
    and ls: "TryFastPath s keys = Some (s\<lparr>sh_locks := ls\<rparr>, False)"
      "lock_inv ls (add_mset keys (intents G s)) (holds G s)"
  shows "\<exists>t. AwaitKeys s n w keys = Some (t, n + 1, False) \<and> shard_inv (n + 1) G (g(w := False)) t"
proof -
  note ok = shard_invD(1) [OF inv]
  let ?r = "no_waiter\<lparr>w_txid := n, w_keys := keys, w_resume := w\<rparr>"
  have r: "fresh_entry w ?r" "w_tx ?r = None" "w_txid ?r = n" "w_keys ?r = keys"
    by (simp_all add: fresh_entry_def no_waiter_def)
  have small: "\<forall>u\<in>queued s. txid_of s u < n" using shard_okD(2) [OF ok] by (simp add: queue_ok_def)
  have nn: "n < n + 1" by (rule word_less_plus_one [OF n(2)])
  have "\<exists>q. Insert (txid_of (enqueued s w ?r ls [])) (sh_queue s) w = Some q \<and>
      live q = insort_key ((txid_of s)(w := w_txid ?r)) w (live (sh_queue s)) \<and>
      shard_ok (n + 1) G (g(w := False)) (enqueued s w ?r ls q)"
  proof (rule enqueue_ok [OF ok w r(1)], unfold r(2-4))
    show "\<forall>u\<in>queued s. n < txid_of s u \<longrightarrow> is_tx s u \<and> g u \<or> holding s u \<longrightarrow> \<not> conflict keys (keys_of s u)"
      using small by (meson order.asym)
  qed (use ls(2) n small nn in auto)
  then obtain q where q: "Insert (txid_of (enqueued s w ?r ls [])) (sh_queue s) w = Some q"
      "live q = insort_key ((txid_of s)(w := w_txid ?r)) w (live (sh_queue s))"
      "shard_ok (n + 1) G (g(w := False)) (enqueued s w ?r ls q)"
    by (elim exE conjE)
  let ?t = "enqueued s w ?r ls q"
  have "AwaitKeys s n w keys = Some (?t, n + 1, False)"
    using ls(1) q(1)
    by (simp add: AwaitKeys_def AllocateTxid_def Enqueue_def set_waiter_def enqueued_def txid_of_def [abs_def])
  moreover have "G \<noteq> {#} \<or> resumed ?t \<noteq> {}" if "startable G ?t"
  proof -
    have "startable G s \<or> live (sh_queue s) = [] \<and> w_tx ?r = None"
      by (rule enqueued_startable [OF shard_okD(2) [OF ok] w r(1) q(2) that]) (use small in \<open>simp only: r(3)\<close>)
    moreover have "G \<noteq> {#} \<or> resumed s \<noteq> {}" if "live (sh_queue s) = []"
      using clash that by (auto simp: intents_def members_def queued_def)
    ultimately have "G \<noteq> {#} \<or> resumed s \<noteq> {}" using shard_invD(4) [OF inv] by blast
    then show ?thesis by (simp add: resumed_def)
  qed
  moreover have "prompt (g(w := False)) ?t"
    using shard_invD(5) [OF inv] w r(1) by (intro enqueued_prompt) (simp_all add: q(2) set_insort_key queued_def)
  ultimately show ?thesis using q(3) shard_invD(2,3) [OF inv] by (intro exI [of _ ?t]) (auto simp: shard_inv_def)
qed

lemma Acquire_correct:
  assumes inv: "shard_inv n G g s" and ks: "keys_ok keys" and w: "w \<notin> members s"
    and room: "size (intents G s) + 1 < 2 ^ 32" and n: "0 < n" "n + 1 \<noteq> 0"
  shows "(\<exists>t. AwaitKeys s n w keys = Some (t, n, True) \<and> shard_inv n (add_mset keys G) g t) \<or>
    (\<exists>t. AwaitKeys s n w keys = Some (t, n + 1, False) \<and> shard_inv (n + 1) G (g(w := False)) t)"
  using TryFastPath_correct [OF shard_okD(1) [OF shard_invD(1) [OF inv]] ks room]
    Acquire_fast [OF inv] Acquire_queued [OF inv w n]
  by (elim exE) (metis (no_types, lifting))

text \<open>
  \<open>Awaiter::await_resume\<close> of a queued waiter: the worker runs the coroutine and the guard
  takes over the registration.
\<close>

definition resume_waiter :: "TxShard \<Rightarrow> wid \<Rightarrow> TxShard" where
  "resume_waiter s w = s\<lparr>sh_runq := remove1 (ResumePlain w) (sh_runq s)\<rparr>"

lemma Resume_correct:
  assumes inv: "shard_inv n G g s" and w: "w \<in> resumed s"
  shows "shard_inv n (add_mset (keys_of s w) G) g (resume_waiter s w)"
    "members (resume_waiter s w) = members s - {w}" "queued (resume_waiter s w) = queued s" "idle (resume_waiter s w) = idle s"
proof -
  note ok = shard_invD(1) [OF inv] and fl = shard_okD(3) [OF shard_invD(1) [OF inv]]
  let ?t = "resume_waiter s w" and ?G = "add_mset (keys_of s w) G"
  have d: "distinct (sh_runq s)" "w \<notin> queued s" using fl w by (auto simp: flags_ok_def)
  have v: "queued ?t = queued s" "keys_of ?t = keys_of s" "is_tx ?t = is_tx s" "txid_of ?t = txid_of s"
    "holding ?t = holding s" "hops ?t = hops s" "resumed ?t = resumed s - {w}"
    "sh_waiters ?t = sh_waiters s" "sh_locks ?t = sh_locks s" "sh_queue ?t = sh_queue s"
    "sh_committed_txid ?t = sh_committed_txid s" "sh_polling ?t = sh_polling s" "sh_bypass_ready ?t = sh_bypass_ready s"
    using d(1) by (auto simp: resume_waiter_def queued_def keys_of_def is_tx_def txid_of_def holding_def hops_def resumed_def fun_eq_iff)
  have m: "members s = insert w (members ?t)" "w \<notin> members ?t" and h: "holders s = insert w (holders ?t)" "w \<notin> holders ?t"
    using w d(2) by (auto simp: members_def holders_def v)
  have "intents ?G ?t = intents G s" "holds ?G ?t = holds G s"
    by (simp_all add: intents_def holds_def m(1) h(1) members_insert [OF finite_members m(2)]
        members_insert [OF finite_holders h(2)] v(2))
  then have "lock_inv (sh_locks ?t) (intents ?G ?t) (holds ?G ?t)" using shard_okD(1) [OF ok] v by simp
  moreover have "queue_ok n ?t" using shard_okD(2) [OF ok] by (simp add: queue_ok_def v)
  moreover have "distinct (sh_runq ?t)" using d(1) by (simp add: resume_waiter_def)
  then have "flags_ok ?t" using fl by (auto simp: flags_ok_def v entry_ok_def)
  moreover have "order_ok ?G g ?t" using shard_okD(4) [OF ok] w unfolding order_ok_def v by auto
  ultimately show "shard_inv n ?G g ?t" using shard_invD(2,3,5) [OF inv] by (simp add: shard_inv_def shard_ok_def prompt_def v)
  show "members ?t = members s - {w}" using m by auto
  show "queued ?t = queued s" "idle ?t = idle s" by (simp_all add: v idle_def)
qed

section \<open>Transactions\<close>

text \<open>A record that is not in the queue may change freely.\<close>

lemma outside_ok:
  assumes inv: "shard_inv n G g s" and w: "w \<notin> members s" and ls: "lock_inv ls (intents G s) (holds G s)"
  shows "shard_inv n G (g(w := gw)) (s\<lparr>sh_locks := ls, sh_waiters := (sh_waiters s)(w := r)\<rparr>)"
proof -
  note ok = shard_invD(1) [OF inv]
  let ?t = "s\<lparr>sh_locks := ls, sh_waiters := (sh_waiters s)(w := r)\<rparr>"
  have v: "queued ?t = queued s" "resumed ?t = resumed s" "hops ?t = hops s" "members ?t = members s"
    "keys_of ?t = (keys_of s)(w := w_keys r)" "is_tx ?t = (is_tx s)(w := w_tx r \<noteq> None)"
    "txid_of ?t = (txid_of s)(w := w_txid r)" "holding ?t = (holding s)(w := w_holds_acquired r)"
    by (auto simp: queued_def resumed_def hops_def members_def keys_of_def is_tx_def txid_of_def holding_def fun_eq_iff)
  have wq: "w \<notin> queued s" "w \<notin> resumed s" using w by (auto simp: members_def)
  have h: "holders ?t = holders s" using wq by (auto simp: holders_def v)
  have same: "((keys_of s)(w := w_keys r)) u = keys_of s u" if "u \<in> members s" for u using that w by auto
  have "image_mset ((keys_of s)(w := w_keys r)) (mset_set (members s)) = image_mset (keys_of s) (mset_set (members s))"
    by (rule image_mset_set_cong [OF finite_members same])
  then have i: "intents G ?t = intents G s" by (simp only: intents_def v)
  have "image_mset ((keys_of s)(w := w_keys r)) (mset_set (holders s)) = image_mset (keys_of s) (mset_set (holders s))"
    by (rule image_mset_set_cong [OF finite_holders same]) (use holders_members in blast)
  then have hl: "holds G ?t = holds G s" by (simp only: holds_def v h)
  have mp: "map ((txid_of s)(w := w_txid r)) (live (sh_queue s)) = map (txid_of s) (live (sh_queue s))"
    using wq by (auto simp: queued_def)
  have "queue_ok n ?t" using shard_okD(2) [OF ok] wq unfolding queue_ok_def v by (auto simp: mp)
  moreover have "flags_ok ?t" using shard_okD(3) [OF ok] wq unfolding flags_ok_def v by (auto simp: entry_ok_def)
  moreover have "order_ok G (g(w := gw)) ?t" using shard_okD(4) [OF ok] wq unfolding order_ok_def v by auto
  moreover have "lock_inv (sh_locks ?t) (intents G ?t) (holds G ?t)" using ls i hl by simp
  moreover have "startable G ?t = startable G s"
    using wq unfolding startable_def unblocked_def v hl by (auto simp: queued_def split: list.splits)
  moreover have "prompt (g(w := gw)) ?t" using shard_invD(5) [OF inv] wq unfolding prompt_def v by auto
  ultimately show ?thesis using inv by (auto simp: shard_inv_def shard_ok_def v(2))
qed

text \<open>The tail entry has the largest id, so a rejected reorder is the only way to pass one.\<close>

lemma tail_greatest:
  assumes ok: "queue_ok n s" and u: "u \<in> queued s" and w: "w \<notin> queued s"
  shows "txid_of s u \<le> TailTxid ((txid_of s)(w := x)) (sh_queue s)" "TailTxid ((txid_of s)(w := x)) (sh_queue s) \<noteq> 0"
proof -
  have ne: "live (sh_queue s) \<noteq> []" using u by (auto simp: queued_def)
  then have l: "last (live (sh_queue s)) \<in> queued s" by (simp add: queued_def)
  then have t: "TailTxid ((txid_of s)(w := x)) (sh_queue s) = txid_of s (last (live (sh_queue s)))"
    using ne w by (auto simp: TailTxid_correct)
  show "TailTxid ((txid_of s)(w := x)) (sh_queue s) \<noteq> 0" using t l ok by (simp add: queue_ok_def)
  obtain ys y where ys: "live (sh_queue s) = ys @ [y]" using ne by (cases "live (sh_queue s)" rule: rev_cases) auto
  show "txid_of s u \<le> TailTxid ((txid_of s)(w := x)) (sh_queue s)"
    unfolding t using ok u ys by (auto simp: queue_ok_def queued_def sorted_append)
qed

lemma Schedule_enqueue:
  assumes inv: "shard_inv n G g s" and w: "w \<notin> members s" and r: "fresh_entry w r" "w_tx r \<noteq> None"
    and t: "w_txid r \<noteq> 0" "w_txid r < n" "\<forall>v\<in>queued s. txid_of s v \<noteq> w_txid r"
    and ls: "lock_inv ls (add_mset (w_keys r) (intents G s)) (holds G s)"
    and gr: "gw \<longleftrightarrow> (\<forall>js\<in>#intents G s. \<not> conflict (w_keys r) js)"
    and keep: "\<not> (\<not> gw \<and> TailTxid ((txid_of s)(w := w_txid r)) (sh_queue s) \<noteq> 0 \<and>
      w_txid r < TailTxid ((txid_of s)(w := w_txid r)) (sh_queue s))"
  shows "\<exists>q. Insert (txid_of (enqueued s w r ls [])) (sh_queue s) w = Some q \<and>
    shard_inv n G (g(w := gw)) (enqueued s w r ls q) \<and> set (live q) = insert w (queued s)"
proof -
  note ok = shard_invD(1) [OF inv]
  have wq: "w \<notin> queued s" using w by (simp add: members_def)
  have "\<exists>q. Insert (txid_of (enqueued s w r ls [])) (sh_queue s) w = Some q \<and>
      live q = insort_key ((txid_of s)(w := w_txid r)) w (live (sh_queue s)) \<and>
      shard_ok n G (g(w := gw)) (enqueued s w r ls q)"
  proof (rule enqueue_ok [OF ok w r(1) ls t(1,2) order.refl t(3)])
    show "\<forall>u\<in>queued s. w_txid r < txid_of s u \<longrightarrow> is_tx s u \<and> g u \<or> holding s u \<longrightarrow>
        \<not> conflict (w_keys r) (keys_of s u)"
    proof (intro ballI impI)
      fix u assume u: "u \<in> queued s" "w_txid r < txid_of s u"
      then have gw using keep tail_greatest [OF shard_okD(2) [OF ok] u(1) wq, of "w_txid r"]
        by (meson order_less_le_trans)
      then show "\<not> conflict (w_keys r) (keys_of s u)" using gr u by (simp add: intents_def members_def)
    qed
  qed (use gr in blast)
  then obtain q where q: "Insert (txid_of (enqueued s w r ls [])) (sh_queue s) w = Some q"
      "live q = insort_key ((txid_of s)(w := w_txid r)) w (live (sh_queue s))"
      "shard_ok n G (g(w := gw)) (enqueued s w r ls q)"
    by (elim exE conjE)
  have "startable G s" if "startable G (enqueued s w r ls q)"
    using enqueued_startable [OF shard_okD(2) [OF ok] w r(1) q(2) that] r(2) by blast
  moreover have "prompt (g(w := gw)) (enqueued s w r ls q)"
    using shard_invD(5) [OF inv] w r(1) by (intro enqueued_prompt) (simp_all add: q(2) set_insort_key queued_def)
  ultimately have "shard_inv n G (g(w := gw)) (enqueued s w r ls q)"
    using q(3) inv by (auto simp: shard_inv_def resumed_def)
  then show ?thesis using q(1,2) by (auto simp: set_insort_key queued_def)
qed

lemma Schedule_correct:
  assumes inv: "shard_inv n G g s" and w: "w \<notin> members s" and room: "size (intents G s) + 1 < 2 ^ 32"
    and r: "fresh_entry w (sh_waiters s w)" "is_tx s w" "keys_ok (keys_of s w)"
    and t: "txid \<noteq> 0" "txid < n" "\<forall>v\<in>queued s. txid_of s v \<noteq> txid"
  shows "\<exists>t granted failed. ScheduleInShard s w txid False = Some (t, granted, failed) \<and>
    shard_inv n G (g(w := granted)) t \<and> members t = (if failed then members s else insert w (members s))"
proof (cases "txid \<le> sh_committed_txid s")
  case True
  then show ?thesis
    using outside_ok [OF inv w shard_okD(1) [OF shard_invD(1) [OF inv]], of False "sh_waiters s w"]
    by (intro exI [of _ s] exI [of _ False] exI [of _ True]) (simp add: ScheduleInShard_def)
next
  case False
  let ?r = "(sh_waiters s w)\<lparr>w_txid := txid\<rparr>" and ?gw = "\<forall>js\<in>#intents G s. \<not> conflict (keys_of s w) js"
  have r': "fresh_entry w ?r" "w_tx ?r \<noteq> None" "w_txid ?r = txid" "w_keys ?r = keys_of s w"
    using r by (simp_all add: fresh_entry_def is_tx_def keys_of_def)
  obtain ls where ls: "AcquireIntents (sh_locks s) (keys_of s w) = Some (ls, ?gw)"
      "lock_inv ls (add_mset (keys_of s w) (intents G s)) (holds G s)"
    using AcquireIntents_correct [OF shard_okD(1) [OF shard_invD(1) [OF inv]] r(3) room] by (elim exE conjE)
  let ?tail = "TailTxid ((txid_of s)(w := txid)) (sh_queue s)"
  let ?s1 = "s\<lparr>sh_waiters := (sh_waiters s)(w := ?r), sh_locks := ls\<rparr>"
  have f: "txid_of ?s1 = (txid_of s)(w := txid)" by (auto simp: txid_of_def)
  have step: "ScheduleInShard s w txid False =
      (if \<not> ?gw \<and> ?tail \<noteq> 0 \<and> txid < ?tail
       then do { ls \<leftarrow> ReleaseIntents ls (keys_of s w); Some (?s1\<lparr>sh_locks := ls\<rparr>, ?gw, True) }
       else do { s \<leftarrow> Enqueue ?s1 w; Some (s, ?gw, False) })"
    using False ls(1) by (simp add: ScheduleInShard_def set_waiter_def keys_of_def f)
  show ?thesis
  proof (cases "\<not> ?gw \<and> ?tail \<noteq> 0 \<and> txid < ?tail")
    case True
    obtain ls2 where ls2: "ReleaseIntents ls (keys_of s w) = Some ls2" "lock_inv ls2 (intents G s) (holds G s)"
      using ReleaseIntents_correct [OF ls(2) holds_sub_intents] by blast
    let ?t = "s\<lparr>sh_locks := ls2, sh_waiters := (sh_waiters s)(w := ?r)\<rparr>"
    have "ScheduleInShard s w txid False = Some (?t, ?gw, True)"
      unfolding step using True ls2(1) by (simp only: if_P [OF True]) simp
    moreover have "members ?t = members s" by (simp add: members_def queued_def resumed_def)
    ultimately show ?thesis using outside_ok [OF inv w ls2(2), of ?gw ?r] by (metis (no_types, lifting))
  next
    case keep: False
    have "\<exists>q. Insert (txid_of (enqueued s w ?r ls [])) (sh_queue s) w = Some q \<and>
        shard_inv n G (g(w := ?gw)) (enqueued s w ?r ls q) \<and> set (live q) = insert w (queued s)"
      by (rule Schedule_enqueue [OF inv w r'(1,2)], unfold r'(3,4)) (use t ls(2) keep in blast)+
    then obtain q where q: "Insert (txid_of (enqueued s w ?r ls [])) (sh_queue s) w = Some q"
        "shard_inv n G (g(w := ?gw)) (enqueued s w ?r ls q)" "set (live q) = insert w (queued s)"
      by (elim exE conjE)
    have "Enqueue ?s1 w = Some (enqueued s w ?r ls q)"
      using q(1) by (simp add: Enqueue_def f enqueued_def txid_of_def [abs_def] fun_upd_def)
    then have "ScheduleInShard s w txid False = Some (enqueued s w ?r ls q, ?gw, False)"
      unfolding step by (simp only: if_not_P [OF keep]) simp
    moreover have "members (enqueued s w ?r ls q) = insert w (members s)" by (rule enqueued_views(8) [OF q(3) w])
    ultimately show ?thesis using q(2) by (metis (no_types, lifting))
  qed
qed

text \<open>A queued transaction leaves: its intents are already back, its slot becomes a tombstone.\<close>

lemma dequeue_ok:
  assumes ok: "shard_ok n G g s" and w: "w \<in> queued s"
    and t: "sh_runq t = remove1 (RunHop w) (sh_runq s)"
      "live (sh_queue t) = remove1 w (live (sh_queue s))" "\<And>v. v \<noteq> w \<Longrightarrow> sh_waiters t v = sh_waiters s v"
      "sh_committed_txid t = sh_committed_txid s"
    and ls: "\<And>I H. intents G s = add_mset (keys_of s w) I \<Longrightarrow>
      holds G s = (if holding s w then add_mset (keys_of s w) H else H) \<Longrightarrow> lock_inv (sh_locks t) I H"
  shows "shard_ok n G g t" "queued t = queued s - {w}"
proof -
  have fl: "flags_ok s" and qo: "queue_ok n s" using shard_okD [OF ok] by auto
  have d: "distinct (live (sh_queue s))" using qo by (auto simp: queue_ok_def distinct_map)
  have dr: "distinct (sh_runq s)" and wr: "w \<notin> resumed s" using fl w by (auto simp: flags_ok_def)
  show q: "queued t = queued s - {w}" using d t(2) by (simp add: queued_def)
  have r: "resumed t = resumed s" using t(1) dr by (auto simp: resumed_def)
  have h: "hops t = hops s - {w}" using t(1) dr by (auto simp: hops_def)
  have e: "keys_of t v = keys_of s v" "is_tx t v = is_tx s v" "txid_of t v = txid_of s v" "holding t v = holding s v"
    if "v \<noteq> w" for v
    using t(3) [OF that] by (simp_all add: keys_of_def is_tx_def txid_of_def holding_def)
  have m: "members s = insert w (members t)" "w \<notin> members t" using w wr by (auto simp: members_def q r)
  have eh: "{v \<in> queued s - {w}. holding t v} = {v \<in> queued s - {w}. holding s v}" using e(4) by blast
  have hm: "holders s = (if holding s w then insert w (holders t) else holders t)" "w \<notin> holders t"
    using w wr eh by (auto simp: holders_def q r)
  have k: "image_mset (keys_of t) (mset_set A) = image_mset (keys_of s) (mset_set A)" if "finite A" "w \<notin> A" for A
    using that by (intro image_mset_set_cong e(1)) auto
  have "intents G s = add_mset (keys_of s w) (intents G t)"
    by (simp add: intents_def m(1) members_insert [OF finite_members m(2)] k [OF finite_members m(2)])
  moreover have "holds G s = (if holding s w then add_mset (keys_of s w) (holds G t) else holds G t)"
    by (simp add: holds_def hm(1) members_insert [OF finite_holders hm(2)] k [OF finite_holders hm(2)])
  ultimately have 1: "lock_inv (sh_locks t) (intents G t) (holds G t)" by (rule ls)
  have mp: "map (txid_of t) (live (sh_queue t)) = map (txid_of s) (remove1 w (live (sh_queue s)))"
    using d t(2) e(3) by auto
  have "sorted (map (txid_of t) (live (sh_queue t)))" "distinct (map (txid_of t) (live (sh_queue t)))"
    unfolding mp using qo by (auto simp: queue_ok_def sorted_map_remove1 distinct_map intro: inj_on_subset dest: notin_set_remove1)
  then have 2: "queue_ok n t" using qo q e(3) t(4) by (auto simp: queue_ok_def)
  have "distinct (sh_runq t)" using t(1) dr by auto
  then have 3: "flags_ok t" using fl q r h t(3,4) by (auto simp: flags_ok_def entry_ok_def)
  have "keys_of t v = keys_of s v" if "v \<in> resumed s" for v using e(1) that wr by metis
  then have 4: "order_ok G g t" using shard_okD(4) [OF ok] e unfolding order_ok_def q r by auto
  show "shard_ok n G g t" using 1 2 3 4 by (simp add: shard_ok_def)
qed

lemma Cancel_correct:
  assumes inv: "shard_inv n G g s" and w: "w \<in> queued s" "is_tx s w" "\<not> holding s w" "\<not> w_running (sh_waiters s w)"
  shows "\<exists>t. CancelInShard s w = Some t \<and> shard_inv n G g t \<and> members t = members s - {w}"
proof -
  note ok = shard_invD(1) [OF inv]
  have nh: "w \<notin> holders s" "w \<notin> hops s" using shard_okD(3) [OF ok] w by (auto simp: flags_ok_def holders_def)
  have wm: "w \<in> members s" using w by (simp add: members_def)
  obtain I where I: "intents G s = add_mset (keys_of s w) I" and sub: "holds G s \<subseteq># I"
    using hold_room [OF wm nh(1), of G] by (metis insert_DiffM insert_subset_eq_iff)
  obtain ls where ls: "ReleaseIntents (sh_locks s) (keys_of s w) = Some ls" "lock_inv ls I (holds G s)"
    using ReleaseIntents_correct [OF _ sub] shard_okD(1) [OF ok] unfolding I by blast
  obtain q where q: "Remove (sh_queue s) w = Some q" using w(1) Remove_defined by (auto simp: queued_def)
  let ?s = "s\<lparr>sh_locks := ls, sh_queue := q\<rparr>"
  have rq: "sh_runq ?s = remove1 (RunHop w) (sh_runq s)" using nh(2) by (simp add: hops_def remove1_idem)
  have lq: "live (sh_queue ?s) = remove1 w (live (sh_queue s))" using Remove_live [OF q] by simp
  have lk: "lock_inv (sh_locks ?s) J H"
    if "intents G s = add_mset (keys_of s w) J" "holds G s = (if holding s w then add_mset (keys_of s w) H else H)" for J H
    using that ls(2) w(3) I by simp
  have ok': "shard_ok n G g ?s" "queued ?s = queued s - {w}"
    by (rule dequeue_ok [OF ok w(1) rq lq _ _ lk]; simp)+
  have "prompt g ?s" using shard_invD(5) [OF inv] unfolding prompt_def ok'(2) by (simp add: is_tx_def)
  then obtain t where t: "Poll ?s = Some t" "shard_inv n G g t" "poll_frame ?s t"
    using Poll_inv_quiet [OF ok'(1)] shard_invD(2,3) [OF inv] by auto
  have "w \<notin> resumed s" using shard_okD(3) [OF ok] w by (auto simp: flags_ok_def)
  then have "members ?s = members s - {w}" using ok'(2) by (auto simp: members_def resumed_def)
  then have "members t = members s - {w}" using t(3) by (simp add: poll_frame_def)
  then show ?thesis using ls(1) q t(1,2) by (simp add: CancelInShard_def keys_of_def)
qed

lemma in_remove_hop [simp]: "ResumePlain v \<in> set (remove1 (RunHop w) xs) \<longleftrightarrow> ResumePlain v \<in> set xs"
  by (simp add: in_set_remove1)

text \<open>Only the running and armed flags of one queued transaction change.\<close>

lemma reflag_ok:
  assumes ok: "shard_ok n G g s" and w: "w \<in> queued s" "is_tx s w"
    and t: "sh_locks t = sh_locks s" "sh_queue t = sh_queue s" "sh_committed_txid t = sh_committed_txid s"
      "sh_waiters t = (sh_waiters s)(w := (sh_waiters s w)\<lparr>w_armed := a, w_running := False\<rparr>)"
      "sh_runq t = remove1 (RunHop w) (sh_runq s)"
  shows "shard_ok n G g t" "queued t = queued s" "is_tx t = is_tx s" "members t = members s"
proof -
  have fl: "flags_ok s" using shard_okD [OF ok] by auto
  have d: "distinct (sh_runq s)" using fl by (simp add: flags_ok_def)
  have v: "queued t = queued s" "resumed t = resumed s" "keys_of t = keys_of s" "is_tx t = is_tx s" "txid_of t = txid_of s"
    "holding t = holding s" "hops t = hops s - {w}" "live (sh_queue t) = live (sh_queue s)"
    using d by (auto simp: queued_def resumed_def keys_of_def is_tx_def txid_of_def holding_def hops_def t fun_eq_iff)
  have m: "members t = members s" "holders t = holders s" by (simp_all add: members_def holders_def v)
  have e: "entry_ok t u" if "u \<in> queued s" for u
    using fl that w(2) by (cases "u = w") (auto simp: flags_ok_def entry_ok_def t(3,4) is_tx_def Let_def)
  have "hops t = {u \<in> queued t. w_running (sh_waiters t u)}" using fl unfolding flags_ok_def v by (auto simp: t(4))
  then have "flags_ok t" using fl d e unfolding flags_ok_def v by (simp add: t(5))
  moreover have "lock_inv (sh_locks t) (intents G t) (holds G t)"
    using shard_okD(1) [OF ok] by (simp add: intents_def holds_def v m t(1))
  moreover have "queue_ok n t" using shard_okD(2) [OF ok] by (simp add: queue_ok_def v t(3))
  moreover have "order_ok G g t" using shard_okD(4) [OF ok] by (simp add: order_ok_def v)
  ultimately show "shard_ok n G g t" by (simp add: shard_ok_def)
  show "queued t = queued s" "is_tx t = is_tx s" "members t = members s" by (simp_all add: v m)
qed

lemma Arm_correct:
  assumes inv: "shard_inv n G g s" and w: "w \<in> queued s" "is_tx s w"
    and idle: "\<not> w_armed (sh_waiters s w)" "\<not> w_running (sh_waiters s w)"
  shows "\<exists>t. ArmInShard s w (g w) = Some t \<and> shard_inv n G g t \<and> members t = members s \<and>
    queued t \<subseteq> queued s \<and> idle t \<subseteq> idle s - {w} \<and> (g w \<longrightarrow> w \<in> hops t)"
proof -
  note ok = shard_invD(1) [OF inv]
  let ?s = "s\<lparr>sh_waiters := (sh_waiters s)(w := (sh_waiters s w)\<lparr>w_armed := True\<rparr>)\<rparr>"
  let ?t = "?s\<lparr>sh_bypass_ready := sh_bypass_ready s @ (if g w then [w] else [])\<rparr>"
  have nh: "w \<notin> hops s" using shard_okD(3) [OF ok] idle by (auto simp: flags_ok_def)
  have rq: "sh_runq ?t = remove1 (RunHop w) (sh_runq s)" using nh by (simp add: hops_def remove1_idem)
  have wt: "sh_waiters ?t = (sh_waiters s)(w := (sh_waiters s w)\<lparr>w_armed := True, w_running := False\<rparr>)"
    using idle by (cases "sh_waiters s w") simp
  have ok': "shard_ok n G g ?t" "queued ?t = queued s" "is_tx ?t = is_tx s" "members ?t = members s"
    by (rule reflag_ok [OF ok w _ _ _ wt rq]; simp)+
  have b: "bypass_ok g ?t" using w shard_invD(3) [OF inv] unfolding bypass_ok_def ok' by auto
  have a: "v \<in> set (sh_bypass_ready ?t) \<and> \<not> w_running (sh_waiters ?t v)"
    if "v \<in> queued ?t" "is_tx ?t v \<and> g v \<and> w_armed (sh_waiters ?t v)" for v
    using that idle shard_invD(5) [OF inv] unfolding ok'(2,3) by (cases "v = w") (auto simp: prompt_def)
  obtain t where t: "Poll ?t = Some t" "shard_inv n G g t" "poll_frame ?t t"
    using Poll_inv [OF ok'(1) b] a shard_invD(2) [OF inv] by auto
  have "ArmInShard s w (g w) = Poll ?t"
    using w(2) idle
    by (auto simp: ArmInShard_def ArmTransaction_def EnqueueBypassReady_def set_waiter_def is_tx_def Let_def)
  moreover have "members t = members s" using t(3) ok'(4) by (simp add: poll_frame_def)
  moreover have "idle ?t \<subseteq> idle s - {w}" unfolding idle_def ok'(2,3) by (auto split: if_splits)
  moreover have "queued t \<subseteq> queued s" "idle t \<subseteq> idle ?t" using poll_frame_idle [OF t(3)] unfolding ok'(2) by blast+
  moreover have "w \<in> hops t" if "g w"
  proof -
    have f: "w \<in> queued t" "is_tx t w" using t(3) w unfolding poll_frame_def ok'(2,3) by auto
    then have "\<not> w_armed (sh_waiters t w)" using shard_invD(5) [OF t(2)] \<open>g w\<close> by (simp add: prompt_def)
    moreover have "w_armed (sh_waiters t w) \<or> w_running (sh_waiters t w)" using t(3) by (simp add: poll_frame_def)
    ultimately show ?thesis using f(1) shard_okD(3) [OF shard_invD(1) [OF t(2)]] by (simp add: flags_ok_def)
  qed
  ultimately show ?thesis using t(1,2) by (intro exI [of _ t]) (simp add: subset_trans)
qed

text \<open>The worker finishes the hop it ran: the run-queue entry goes, then the epilogue runs.\<close>

definition finish_hop :: "TxShard \<Rightarrow> wid \<Rightarrow> bool \<Rightarrow> TxShard option" where
  "finish_hop s w releasing = FinishShardHop (s\<lparr>sh_runq := remove1 (RunHop w) (sh_runq s)\<rparr>) w releasing"

lemma running_facts:
  assumes "shard_ok n G g s" "w \<in> hops s"
  shows "w \<in> queued s" "is_tx s w" "holding s w" "\<not> w_armed (sh_waiters s w)" "w_running (sh_waiters s w)"
  using shard_okD(3) [OF assms(1)] assms(2)
  by (auto simp: flags_ok_def entry_ok_def is_tx_def holding_def Let_def split: if_splits)

lemma Finish_keep:
  assumes inv: "shard_inv n G g s" and w: "w \<in> hops s"
  shows "\<exists>t. finish_hop s w False = Some t \<and> shard_inv n G g t \<and> members t = members s"
proof -
  note ok = shard_invD(1) [OF inv] and f = running_facts [OF shard_invD(1) [OF inv] w]
  let ?t = "s\<lparr>sh_runq := remove1 (RunHop w) (sh_runq s),
    sh_waiters := (sh_waiters s)(w := (sh_waiters s w)\<lparr>w_running := False\<rparr>)\<rparr>"
  have wt: "sh_waiters ?t = (sh_waiters s)(w := (sh_waiters s w)\<lparr>w_armed := False, w_running := False\<rparr>)"
    using f(4) by (cases "sh_waiters s w") simp
  have ok': "shard_ok n G g ?t" "queued ?t = queued s" "is_tx ?t = is_tx s" "members ?t = members s"
    by (rule reflag_ok [OF ok f(1,2) _ _ _ wt]; simp)+
  have "startable G s" if "startable G ?t"
  proof (cases "live (sh_queue s)")
    case (Cons h rest)
    have "h \<noteq> w" using that Cons f unfolding startable_def ok'(3) by auto
    moreover have "unblocked G ?t h = unblocked G s h"
    proof -
      have "holding ?t = holding s" "keys_of ?t = keys_of s" "resumed ?t = resumed s"
        by (auto simp: holding_def keys_of_def resumed_def fun_eq_iff)
      then show ?thesis by (simp only: unblocked_def holds_def holders_def ok'(2))
    qed
    ultimately show ?thesis using that Cons unfolding startable_def ok'(3) by simp
  qed (use that in \<open>simp add: startable_def\<close>)
  moreover have "resumed ?t = resumed s"
    by (simp add: resumed_def)
  moreover have "prompt g ?t" using shard_invD(5) [OF inv] unfolding prompt_def ok'(2,3) by auto
  ultimately have "shard_inv n G g ?t" using ok'(1) inv by (auto simp: shard_inv_def)
  moreover have "finish_hop s w False = Some ?t" by (simp add: finish_hop_def FinishShardHop_def set_waiter_def)
  ultimately show ?thesis using ok'(4) by blast
qed

lemma Finish_release:
  assumes inv: "shard_inv n G g s" and w: "w \<in> hops s"
  shows "\<exists>t. finish_hop s w True = Some t \<and> shard_inv n G g t \<and> members t = members s - {w} \<and>
    queued t \<subseteq> queued s \<and> idle t \<subseteq> idle s"
proof -
  note ok = shard_invD(1) [OF inv] and f = running_facts [OF shard_invD(1) [OF inv] w]
  have wr: "w \<notin> resumed s" using shard_okD(3) [OF ok] f by (auto simp: flags_ok_def)
  have wm: "w \<in> holders s" "w \<in> members s" using f by (simp_all add: holders_def members_def)
  obtain H where H: "holds G s = add_mset (keys_of s w) H"
    using wm(1) in_holds [of "keys_of s w" G s] by (metis mset_add)
  obtain ls1 where ls1: "ReleaseHolds (sh_locks s) (keys_of s w) = Some ls1" "lock_inv ls1 (intents G s) H"
    using ReleaseHolds_correct shard_okD(1) [OF ok] unfolding H by blast
  obtain I where I: "intents G s = add_mset (keys_of s w) I" and sub: "H \<subseteq># I"
    using holds_sub_intents [of G s] unfolding H by (metis insert_DiffM insert_subset_eq_iff)
  obtain ls2 where ls2: "ReleaseIntents ls1 (keys_of s w) = Some ls2" "lock_inv ls2 I H"
    using ReleaseIntents_correct [OF _ sub] ls1(2) unfolding I by blast
  obtain q where q: "Remove (sh_queue s) w = Some q" using f(1) Remove_defined by (auto simp: queued_def)
  let ?s = "s\<lparr>sh_runq := remove1 (RunHop w) (sh_runq s), sh_locks := ls2,
    sh_waiters := (sh_waiters s)(w := (sh_waiters s w)\<lparr>w_running := False, w_holds_acquired := False\<rparr>), sh_queue := q\<rparr>"
  have lq: "live (sh_queue ?s) = remove1 w (live (sh_queue s))" using Remove_live [OF q] by simp
  have lk: "lock_inv (sh_locks ?s) J K"
    if "intents G s = add_mset (keys_of s w) J" "holds G s = (if holding s w then add_mset (keys_of s w) K else K)" for J K
    using that ls2(2) f(3) I H by simp
  have ok': "shard_ok n G g ?s" "queued ?s = queued s - {w}"
    by (rule dequeue_ok [OF ok f(1) _ lq _ _ lk]; simp)+
  have "prompt g ?s" using shard_invD(5) [OF inv] unfolding prompt_def ok'(2) by (simp add: is_tx_def)
  then obtain t where t: "Poll ?s = Some t" "shard_inv n G g t" "poll_frame ?s t"
    using Poll_inv_quiet [OF ok'(1)] shard_invD(2,3) [OF inv] by auto
  have "resumed ?s = resumed s"
    by (simp add: resumed_def)
  then have "members ?s = members s - {w}" using ok'(2) wr by (auto simp: members_def)
  then have "members t = members s - {w}" using t(3) by (simp add: poll_frame_def)
  moreover have "finish_hop s w True = Poll ?s"
    using ls1(1) ls2(1) q by (simp add: finish_hop_def FinishShardHop_def set_waiter_def keys_of_def Let_def)
  moreover have "idle ?s \<subseteq> idle s" unfolding idle_def ok'(2) by (auto simp: is_tx_def)
  ultimately show ?thesis using t(1,2) poll_frame_idle [OF t(3)] ok'(2) by auto
qed

text \<open>The granted flag of a waiter outside the queue is not read.\<close>

lemma regrant_inv: "shard_inv n G g s \<Longrightarrow> w \<notin> queued s \<Longrightarrow> shard_inv n G (g(w := b)) s"
  by (auto simp: shard_inv_def shard_ok_def order_ok_def prompt_def)

lemma next_inv: "shard_inv n G g s \<Longrightarrow> n \<le> m \<Longrightarrow> shard_inv m G g s"
  by (auto simp: shard_inv_def shard_ok_def queue_ok_def intro: order_less_le_trans)

end
