(* ===== verification/Tx_World.thy ===== *)
theory Tx_World
  imports Tx_Operations
begin

text \<open>
  One shard and everything that drives it, as a transition system: plain coroutines that
  acquire and drop guards, the worker that resumes waiters and runs hops, coordinators that
  schedule, cancel and arm, and the other workers that draw ids from the shared counter.
  A step is one non-suspending section of the code; the suspension points are exactly the
  places where the steps of other parties may come in between.
\<close>

section \<open>Steps\<close>

record world =
  wo_shard :: TxShard
  wo_next :: u64
  wo_guards :: guards
  wo_granted :: "wid \<Rightarrow> bool"

datatype shard_op =
    Acquire wid "KeyRef list"
  | Resume wid
  | DropGuard "KeyRef list"
  | TakeTxid
  | Schedule wid nat u16 "KeyRef list" u64
  | Cancel wid
  | Arm wid
  | Finish wid bool

definition init_world :: world where
  "init_world = \<lparr>wo_shard = new_shard, wo_next = 1, wo_guards = {#}, wo_granted = (\<lambda>_. False)\<rparr>"

text \<open>
  What the callers guarantee. A coroutine frame or transaction node is used for one
  registration at a time, key sets are deduplicated by \<open>Seal\<close> or by the caller, and the
  32-bit counters have room (\<open>2 ^ 32\<close> registrants do not fit in memory). A transaction
  draws its id from the counter before it visits the shard and visits it once per id; it
  cancels before its first hop and arms a hop only after the previous one finished.
\<close>

fun enabled :: "world \<Rightarrow> shard_op \<Rightarrow> bool" where
  "enabled W (Acquire w keys) \<longleftrightarrow>
     w \<notin> members (wo_shard W) \<and> keys_ok keys \<and> wo_next W + 1 \<noteq> 0 \<and>
     size (intents (wo_guards W) (wo_shard W)) + 1 < 2 ^ 32"
| "enabled W (Resume w) \<longleftrightarrow> w \<in> resumed (wo_shard W)"
| "enabled W (DropGuard keys) \<longleftrightarrow> keys \<in># wo_guards W"
| "enabled W TakeTxid \<longleftrightarrow> wo_next W + 1 \<noteq> 0"
| "enabled W (Schedule w tx slot keys txid) \<longleftrightarrow>
     w \<notin> members (wo_shard W) \<and> keys_ok keys \<and> txid \<noteq> 0 \<and> txid < wo_next W \<and>
     txid \<notin> txid_of (wo_shard W) ` queued (wo_shard W) \<and>
     size (intents (wo_guards W) (wo_shard W)) + 1 < 2 ^ 32"
| "enabled W (Cancel w) \<longleftrightarrow>
     w \<in> idle (wo_shard W) \<and> \<not> holding (wo_shard W) w"
| "enabled W (Arm w) \<longleftrightarrow> w \<in> idle (wo_shard W)"
| "enabled W (Finish w releasing) \<longleftrightarrow> w \<in> hops (wo_shard W)"

definition sealed_node :: "nat \<Rightarrow> u16 \<Rightarrow> KeyRef list \<Rightarrow> TxWaiter" where
  "sealed_node tx slot keys = no_waiter\<lparr>w_keys := keys, w_tx := Some tx, w_shard_slot := slot\<rparr>"

fun run_op :: "world \<Rightarrow> shard_op \<Rightarrow> world option" where
  "run_op W (Acquire w keys) =
     do { (s, n, granted) \<leftarrow> AwaitKeys (wo_shard W) (wo_next W) w keys;
          Some (if granted then W\<lparr>wo_shard := s, wo_next := n, wo_guards := add_mset keys (wo_guards W)\<rparr>
                else W\<lparr>wo_shard := s, wo_next := n, wo_granted := (wo_granted W)(w := False)\<rparr>) }"
| "run_op W (Resume w) =
     Some (W\<lparr>wo_shard := resume_waiter (wo_shard W) w,
             wo_guards := add_mset (keys_of (wo_shard W) w) (wo_guards W)\<rparr>)"
| "run_op W (DropGuard keys) =
     do { s \<leftarrow> Release (wo_shard W) keys; Some (W\<lparr>wo_shard := s, wo_guards := wo_guards W - {#keys#}\<rparr>) }"
| "run_op W TakeTxid = Some (W\<lparr>wo_next := snd (AllocateTxid (wo_next W))\<rparr>)"
| "run_op W (Schedule w tx slot keys txid) =
     do { (s, granted, failed) \<leftarrow>
            ScheduleInShard (set_waiter w (\<lambda>_. sealed_node tx slot keys) (wo_shard W)) w txid False;
          Some (W\<lparr>wo_shard := s, wo_granted := (wo_granted W)(w := granted)\<rparr>) }"
| "run_op W (Cancel w) =
     do { s \<leftarrow> CancelInShard (wo_shard W) w;
          Some (W\<lparr>wo_shard := s, wo_granted := (wo_granted W)(w := False)\<rparr>) }"
| "run_op W (Arm w) =
     do { s \<leftarrow> ArmInShard (wo_shard W) w (wo_granted W w); Some (W\<lparr>wo_shard := s\<rparr>) }"
| "run_op W (Finish w releasing) =
     do { s \<leftarrow> finish_hop (wo_shard W) w releasing; Some (W\<lparr>wo_shard := s\<rparr>) }"

inductive step :: "world \<Rightarrow> world \<Rightarrow> bool" where
  step: "enabled W op \<Longrightarrow> run_op W op = Some W' \<Longrightarrow> step W W'"

inductive reachable :: "world \<Rightarrow> bool" where
  start: "reachable init_world"
| more: "reachable W \<Longrightarrow> step W W' \<Longrightarrow> reachable W'"

inductive_cases stepE: "step W W'"

section \<open>Every enabled step returns and keeps the invariant\<close>

definition world_inv :: "world \<Rightarrow> bool" where
  "world_inv W \<longleftrightarrow> 0 < wo_next W \<and> shard_inv (wo_next W) (wo_guards W) (wo_granted W) (wo_shard W)"

lemma init_world_inv: "world_inv init_world"
  using new_shard_inv [of 1] by (simp add: world_inv_def init_world_def)

lemma acquire_step:
  assumes inv: "world_inv W" and en: "enabled W (Acquire w keys)"
  shows "\<exists>W'. run_op W (Acquire w keys) = Some W' \<and> world_inv W'"
proof -
  have n: "0 < wo_next W" "wo_next W < wo_next W + 1" using inv en word_less_plus_one by (auto simp: world_inv_def)
  then have "0 < wo_next W + 1" by (rule less_trans)
  moreover have "shard_inv (wo_next W) (wo_guards W) (wo_granted W) (wo_shard W)" using inv by (simp add: world_inv_def)
  from Acquire_correct [OF this, of keys w] en n(1) show ?thesis
    using calculation by (auto simp: world_inv_def)
qed

lemma schedule_step:
  assumes inv: "world_inv W" and en: "enabled W (Schedule w tx slot keys txid)"
  shows "\<exists>W'. run_op W (Schedule w tx slot keys txid) = Some W' \<and> world_inv W'"
proof -
  let ?s = "wo_shard W" and ?G = "wo_guards W" and ?g = "wo_granted W" and ?n = "wo_next W"
  let ?t = "set_waiter w (\<lambda>_. sealed_node tx slot keys) ?s"
  have i: "shard_inv ?n ?G ?g ?s" using inv by (simp add: world_inv_def)
  have w: "w \<notin> members ?s" using en by simp
  have t: "?t = ?s\<lparr>sh_locks := sh_locks ?s, sh_waiters := (sh_waiters ?s)(w := sealed_node tx slot keys)\<rparr>"
    by (simp add: set_waiter_def)
  have i': "shard_inv ?n ?G (?g(w := False)) ?t"
    unfolding t by (rule outside_ok [OF i w shard_okD(1) [OF shard_invD(1) [OF i]]])
  have m: "members ?t = members ?s" "queued ?t = queued ?s"
    by (simp_all add: set_waiter_def members_def queued_def resumed_def)
  have same: "txid_of ?t v = txid_of ?s v" "keys_of ?t v = keys_of ?s v" if "v \<noteq> w" for v
    using that by (simp_all add: set_waiter_def txid_of_def keys_of_def)
  have "image_mset (keys_of ?t) (mset_set (members ?s)) = image_mset (keys_of ?s) (mset_set (members ?s))"
    by (rule image_mset_set_cong [OF finite_members same(2)]) (use w in blast)
  then have room: "size (intents ?G ?t) + 1 < 2 ^ 32" using en m(1) by (simp add: intents_def)
  have "\<exists>t granted failed. ScheduleInShard ?t w txid False = Some (t, granted, failed) \<and>
      shard_inv ?n ?G (?g(w := False, w := granted)) t \<and> members t = (if failed then members ?t else insert w (members ?t))"
  proof (rule Schedule_correct [OF i' _ room])
    show "w \<notin> members ?t" using w m(1) by simp
    show "\<forall>v\<in>queued ?t. txid_of ?t v \<noteq> txid" using en w unfolding m by (auto simp: same members_def image_iff) (metis same(1))
  qed (use en in \<open>simp_all add: m fresh_entry_def is_tx_def keys_of_def set_waiter_def sealed_node_def no_waiter_def\<close>)
  then show ?thesis using inv by (auto simp: world_inv_def)
qed

lemma enabled_step:
  assumes inv: "world_inv W" and en: "enabled W op"
  shows "\<exists>W'. run_op W op = Some W' \<and> world_inv W'"
proof -
  have i: "shard_inv (wo_next W) (wo_guards W) (wo_granted W) (wo_shard W)" and n: "0 < wo_next W"
    using inv by (auto simp: world_inv_def)
  show ?thesis
  proof (cases op)
    case (Acquire w keys)
    then show ?thesis using acquire_step [OF inv] en by blast
  next
    case (Resume w)
    then show ?thesis using Resume_correct(1) [OF i] en n by (simp add: world_inv_def)
  next
    case (DropGuard keys)
    then have "shard_inv (wo_next W) (add_mset keys (wo_guards W - {#keys#})) (wo_granted W) (wo_shard W)" using i en by simp
    from Release_correct [OF this] DropGuard show ?thesis using n by (auto simp: world_inv_def)
  next
    case TakeTxid
    then have "wo_next W < wo_next W + 1" using en by (simp add: word_less_plus_one)
    then show ?thesis using TakeTxid next_inv [OF i, of "wo_next W + 1"] n
      by (auto simp: world_inv_def AllocateTxid_def)
  next
    case (Schedule w tx slot keys txid)
    then show ?thesis using schedule_step [OF inv] en by blast
  next
    case (Cancel w)
    then obtain t where t: "CancelInShard (wo_shard W) w = Some t" "shard_inv (wo_next W) (wo_guards W) (wo_granted W) t"
        "members t = members (wo_shard W) - {w}"
      using Cancel_correct [OF i] en by (auto simp: idle_def)
    then have "w \<notin> queued t" by (auto simp: members_def)
    then show ?thesis using Cancel t n regrant_inv by (simp add: world_inv_def)
  next
    case (Arm w)
    then show ?thesis using Arm_correct [OF i, of w] en n by (auto simp: idle_def world_inv_def)
  next
    case (Finish w releasing)
    then show ?thesis using Finish_keep [OF i, of w] Finish_release [OF i, of w] en n
      by (cases releasing) (auto simp: world_inv_def)
  qed
qed

lemma step_inv: "world_inv W \<Longrightarrow> step W W' \<Longrightarrow> world_inv W'"
  by (metis enabled_step option.inject stepE)

lemma reachable_inv: "reachable W \<Longrightarrow> world_inv W"
  by (induction rule: reachable.induct) (auto intro: init_world_inv step_inv)

section \<open>Progress\<close>

text \<open>With no guard alive and no waiter resumed, nothing blocks the head of the queue.\<close>

lemma head_unblocked:
  assumes ok: "shard_ok n {#} g s" and head: "live (sh_queue s) = h # rest" and r: "resumed s = {}"
  shows "unblocked {#} s h"
proof -
  have h: "h \<in> queued s" using head by (simp add: queued_def)
  have "\<not> conflict (keys_of s h) (keys_of s v)" if v: "v \<in> queued s" "holding s v" "\<not> holding s h" for v
  proof -
    have "v \<noteq> h" using v by auto
    then have "txid_of s h < txid_of s v"
      using head_least [OF shard_okD(2) [OF ok] head v(1)] txid_inj [OF shard_okD(2) [OF ok] v(1) h] by (metis order_le_less)
    then show ?thesis using shard_okD(4) [OF ok] h v by (auto simp: order_ok_def)
  qed
  then show ?thesis by (auto simp: unblocked_def in_holds holders_def r)
qed

lemma head_waits_for_its_coordinator:
  assumes inv: "shard_inv n {#} g s" and head: "live (sh_queue s) = h # rest" and r: "resumed s = {}"
  shows "is_tx s h" "h \<in> idle s \<or> h \<in> hops s"
proof -
  note ok = shard_invD(1) [OF inv]
  have h: "h \<in> queued s" using head by (simp add: queued_def)
  have "\<not> startable {#} s" using shard_invD(4) [OF inv] r by blast
  then have "is_tx s h \<and> (\<not> w_armed (sh_waiters s h) \<or> w_running (sh_waiters s h))"
    using head_unblocked [OF ok head r] head by (simp add: startable_def)
  then show "is_tx s h" "h \<in> idle s \<or> h \<in> hops s"
    using h shard_okD(3) [OF ok] by (auto simp: idle_def flags_ok_def)
qed

definition backlog :: "world \<Rightarrow> nat" where
  "backlog W = size (wo_guards W) + 2 * card (members (wo_shard W)) + 2 * card (queued (wo_shard W)) + card (idle (wo_shard W))"

lemma backlog_less:
  assumes "size (wo_guards V) + 2 * card (members (wo_shard V)) < size (wo_guards W) + 2 * card (members (wo_shard W)) \<or>
      size (wo_guards V) + 2 * card (members (wo_shard V)) \<le> size (wo_guards W) + 2 * card (members (wo_shard W)) \<and>
      idle (wo_shard V) \<noteq> idle (wo_shard W)"
    and "queued (wo_shard V) \<subseteq> queued (wo_shard W)" "idle (wo_shard V) \<subseteq> idle (wo_shard W)"
  shows "backlog V < backlog W"
proof -
  have "card (queued (wo_shard V)) \<le> card (queued (wo_shard W))" using assms(2) by (simp add: card_mono)
  moreover have "card (idle (wo_shard V)) \<le> card (idle (wo_shard W))" using assms(3) by (simp add: card_mono)
  moreover have "card (idle (wo_shard V)) < card (idle (wo_shard W))" if "idle (wo_shard V) \<noteq> idle (wo_shard W)"
    using that assms(3) by (intro psubset_card_mono) auto
  ultimately show ?thesis using assms(1) unfolding backlog_def by linarith
qed

lemma card_members_less: "w \<in> members s \<Longrightarrow> card (members s - {w}) < card (members s)"
  by (metis card_Diff1_less finite_members)

lemma progress_busy:
  assumes inv: "world_inv W" and busy: "wo_guards W \<noteq> {#} \<or> resumed (wo_shard W) \<noteq> {}"
  shows "\<exists>V. step W V \<and> backlog V < backlog W"
proof (cases "wo_guards W = {#}")
  case True
  then obtain w where w: "w \<in> resumed (wo_shard W)" using busy by blast
  have i: "shard_inv (wo_next W) (wo_guards W) (wo_granted W) (wo_shard W)" using inv by (simp add: world_inv_def)
  let ?V = "W\<lparr>wo_shard := resume_waiter (wo_shard W) w, wo_guards := add_mset (keys_of (wo_shard W) w) (wo_guards W)\<rparr>"
  have "card (members (wo_shard W) - {w}) < card (members (wo_shard W))" using w by (intro card_members_less) (simp add: members_def)
  then have "backlog ?V < backlog W" using Resume_correct(2-4) [OF i w] by (intro backlog_less) auto
  moreover have "step W ?V" using w by (intro step.intros [of _ "Resume w"]) simp_all
  ultimately show ?thesis by blast
next
  case False
  then obtain ks G where G: "wo_guards W = add_mset ks G" by (meson multiset_cases)
  then have "shard_inv (wo_next W) (add_mset ks G) (wo_granted W) (wo_shard W)" using inv by (simp add: world_inv_def)
  from Release_correct [OF this] obtain t where t: "Release (wo_shard W) ks = Some t" "members t = members (wo_shard W)"
      "queued t \<subseteq> queued (wo_shard W)" "idle t \<subseteq> idle (wo_shard W)" by blast
  let ?V = "W\<lparr>wo_shard := t, wo_guards := G\<rparr>"
  have "step W ?V" using G t(1) by (intro step.intros [of _ "DropGuard ks"]) simp_all
  moreover have "backlog ?V < backlog W" using t(2-4) G by (intro backlog_less) auto
  ultimately show ?thesis by blast
qed

lemma progress_idle:
  assumes inv: "world_inv W" and quiet: "wo_guards W = {#}" "resumed (wo_shard W) = {}" and m: "members (wo_shard W) \<noteq> {}"
  shows "\<exists>V. step W V \<and> backlog V < backlog W"
proof -
  have i: "shard_inv (wo_next W) {#} (wo_granted W) (wo_shard W)" using inv quiet by (simp add: world_inv_def)
  obtain h rest where head: "live (sh_queue (wo_shard W)) = h # rest"
    using m quiet(2) by (cases "live (sh_queue (wo_shard W))") (auto simp: members_def queued_def)
  from head_waits_for_its_coordinator(2) [OF i head quiet(2)] show ?thesis
  proof
    assume h: "h \<in> idle (wo_shard W)"
    then obtain t where t: "ArmInShard (wo_shard W) h (wo_granted W h) = Some t" "members t = members (wo_shard W)"
        "queued t \<subseteq> queued (wo_shard W)" "idle t \<subseteq> idle (wo_shard W) - {h}"
      using Arm_correct [OF i, of h] by (auto simp: idle_def)
    have "step W (W\<lparr>wo_shard := t\<rparr>)" using h t(1) by (intro step.intros [of _ "Arm h"]) simp_all
    moreover have "backlog (W\<lparr>wo_shard := t\<rparr>) < backlog W" using t(2-4) h by (intro backlog_less) auto
    ultimately show ?thesis by blast
  next
    assume h: "h \<in> hops (wo_shard W)"
    then obtain t where t: "finish_hop (wo_shard W) h True = Some t" "members t = members (wo_shard W) - {h}"
        "queued t \<subseteq> queued (wo_shard W)" "idle t \<subseteq> idle (wo_shard W)"
      using Finish_release [OF i h] by blast
    have "step W (W\<lparr>wo_shard := t\<rparr>)" using h t(1) by (intro step.intros [of _ "Finish h True"]) simp_all
    moreover have "card (members (wo_shard W) - {h}) < card (members (wo_shard W))"
      using head by (intro card_members_less) (simp add: members_def queued_def)
    then have "backlog (W\<lparr>wo_shard := t\<rparr>) < backlog W" using t(2-4) by (intro backlog_less) auto
    ultimately show ?thesis by blast
  qed
qed

lemma drains: "world_inv W \<Longrightarrow> \<exists>V. step\<^sup>*\<^sup>* W V \<and> members (wo_shard V) = {} \<and> wo_guards V = {#}"
proof (induction "backlog W" arbitrary: W rule: less_induct)
  case less
  show ?case
  proof (cases "members (wo_shard W) = {} \<and> wo_guards W = {#}")
    case False
    then obtain V where V: "step W V" "backlog V < backlog W"
      using progress_busy [OF less.prems] progress_idle [OF less.prems] by (auto simp: members_def)
    then show ?thesis using less.hyps [OF V(2) step_inv [OF less.prems V(1)]] by (meson converse_rtranclp_into_rtranclp)
  qed auto
qed

section \<open>Optimistic reads\<close>

lemma size_of_zero:
  assumes "tidy t"
  shows "size_of t = 0 \<longleftrightarrow> (\<forall>fp. IsFree (lock_at t fp))"
proof -
  have "size_of t = 0 \<longleftrightarrow> (\<forall>fp. Mapping.lookup t fp = None)"
    by (auto simp: size_of_def Mapping.size_def keys_dom_lookup dom_def)
  also have "\<dots> \<longleftrightarrow> (\<forall>fp. IsFree (lock_at t fp))"
    using assms by (auto simp: tidy_def lock_at_def free_lock_def IsFree_def split: option.splits)
  finally show ?thesis .
qed

lemma cell_free_iff:
  assumes "lock_inv ls I H"
  shows "IsFree (cells ls x) \<longleftrightarrow> (\<forall>ks\<in>#I. mode_in ks x = None)"
proof -
  note c = lock_invD(3) [OF assms, of x, unfolded counts_ok_def]
  have "reg_count m x H \<le> reg_count m x I" for m by (rule reg_count_mono [OF lock_invD(4) [OF assms]])
  from this [of kShared] this [of kExclusive]
  have "IsFree (cells ls x) \<longleftrightarrow> reg_count kShared x I = 0 \<and> reg_count kExclusive x I = 0"
    using c unfolding IsFree_def unat_eq_zero [symmetric] by (elim conjE) (simp only:, linarith)
  also have "\<dots> \<longleftrightarrow> (\<forall>ks\<in>#I. mode_in ks x = None)" (is "?L \<longleftrightarrow> ?R")
  proof
    assume l: ?L
    show ?R
    proof
      fix ks assume "ks \<in># I"
      then show "mode_in ks x = None"
        using l by (cases "mode_in ks x"; cases "the (mode_in ks x)") (auto simp: reg_count_zero)
    qed
  qed (simp add: reg_count_zero)
  finally show ?thesis .
qed

lemma mode_in_None: "mode_in ks x = None \<longleftrightarrow> (\<forall>k\<in>set ks. key_id k \<noteq> x)"
  by (induction ks) auto

lemma optimistic_iff:
  assumes inv: "lock_inv (sh_locks s) I H" and db: "unat db < kLogicalDatabaseCount"
  shows "CanReadOptimistically s db = Some (\<forall>ks\<in>#I. \<forall>k\<in>set ks. kr_db k \<noteq> db)"
proof -
  have l: "unat db < length (sh_locks s)" using lock_invD(1) [OF inv] db by simp
  then have "tidy (sh_locks s ! unat db)" using lock_invD(2) [OF inv] by simp
  then have "size_of (sh_locks s ! unat db) = 0 \<longleftrightarrow> (\<forall>fp. IsFree (cells (sh_locks s) (db, fp)))"
    using l by (simp add: size_of_zero cells_def)
  also have "\<dots> \<longleftrightarrow> (\<forall>ks\<in>#I. \<forall>k\<in>set ks. kr_db k \<noteq> db)"
    unfolding cell_free_iff [OF inv] mode_in_None key_id_def by auto
  finally show ?thesis using db l by (simp add: CanReadOptimistically_def)
qed

section \<open>Sample runs\<close>

definition demo_key :: KeyRef where
  "demo_key = \<lparr>kr_fp = 5, kr_mode = kShared, kr_db = 0\<rparr>"

text \<open>A transaction draws id 1 and is scheduled on the idle shard.\<close>

definition demo_scheduled :: world where
  "demo_scheduled = init_world\<lparr>wo_next := 2, wo_granted := (\<lambda>_. False)(1 := True),
     wo_shard := new_shard\<lparr>sh_locks := (replicate 16 Mapping.empty)[0 := Mapping.update 5 (free_lock\<lparr>shared_intent := 1\<rparr>) Mapping.empty],
       sh_queue := [Some 1],
       sh_waiters := (\<lambda>_. no_waiter)(1 := (sealed_node 0 0 [demo_key])\<lparr>w_txid := 1\<rparr>)\<rparr>\<rparr>"

lemma demo_scheduled_reachable: "reachable demo_scheduled"
proof -
  let ?A = "init_world\<lparr>wo_next := 2\<rparr>"
  have "step init_world ?A"
    by (rule step.intros [of _ TakeTxid]) (simp_all add: init_world_def AllocateTxid_def)
  then have "reachable ?A" by (rule reachable.more [OF reachable.start])
  moreover have "step ?A demo_scheduled"
  proof (rule step.intros [of _ "Schedule 1 0 0 [demo_key] 1"])
    show "enabled ?A (Schedule 1 0 0 [demo_key] 1)"
      by (simp add: init_world_def new_shard_def members_def resumed_def queued_def intents_def keys_ok_def
          kLogicalDatabaseCount_def demo_key_def)
    show "run_op ?A (Schedule 1 0 0 [demo_key] 1) = Some demo_scheduled"
      by (simp add: init_world_def new_shard_def set_waiter_def sealed_node_def no_waiter_def ScheduleInShard_def
          kLogicalDatabaseCount_def AcquireIntent_def lock_at_def free_lock_def demo_scheduled_def demo_key_def
          Enqueue_def Insert_def TailTxid_def txid_of_def Let_def)
  qed
  ultimately show ?thesis by (rule reachable.more)
qed

text \<open>Two coroutines read the same key through the fast path.\<close>

definition demo_guards :: world where
  "demo_guards = init_world\<lparr>wo_guards := {#[demo_key], [demo_key]#},
     wo_shard := new_shard\<lparr>sh_locks := (replicate 16 Mapping.empty)
         [0 := Mapping.update 5 (free_lock\<lparr>shared_intent := 2, shared_held := 2\<rparr>) Mapping.empty],
       sh_fastpath_runs := 2\<rparr>\<rparr>"

lemma demo_guards_reachable: "reachable demo_guards"
proof -
  let ?A = "init_world\<lparr>wo_guards := {#[demo_key]#},
     wo_shard := new_shard\<lparr>sh_locks := (replicate 16 Mapping.empty)
         [0 := Mapping.update 5 (free_lock\<lparr>shared_intent := 1, shared_held := 1\<rparr>) Mapping.empty],
       sh_fastpath_runs := 1\<rparr>\<rparr>"
  note run = init_world_def new_shard_def AwaitKeys_def TryFastPath_def AcquireIntentAndHoldIfGranted_def lock_at_def
    free_lock_def demo_key_def kLogicalDatabaseCount_def Let_def members_def resumed_def queued_def intents_def keys_ok_def
  have "step init_world ?A"
    by (rule step.intros [of _ "Acquire 5 [demo_key]"]) (simp_all add: run)
  moreover have "step ?A demo_guards"
    by (rule step.intros [of _ "Acquire 6 [demo_key]"]) (simp_all add: run demo_guards_def Mapping.update_update)
  ultimately show ?thesis by (blast intro: reachable.intros)
qed

section \<open>Properties\<close>

text \<open>
  (C1) From every reachable state, every step its caller may take returns: no assertion of
  the lock table, the key-set loops, the queue, \<open>ArmTransaction\<close>, \<open>EnqueueBypassReady\<close> or
  \<open>Poll\<close> fails and no table is indexed out of range.
\<close>

theorem enabled_op_returns:
  assumes "reachable W" "enabled W op"
  shows "\<exists>W'. run_op W op = Some W' \<and> reachable W'"
  using enabled_step [OF reachable_inv [OF assms(1)] assms(2)] assms by (blast intro: reachable.more step.intros)

theorem enabled_op_returns_witness:
  "enabled init_world (Acquire 7 [\<lparr>kr_fp = 5, kr_mode = kExclusive, kr_db = 3\<rparr>]) \<and>
   (\<exists>W. run_op init_world (Acquire 7 [\<lparr>kr_fp = 5, kr_mode = kExclusive, kr_db = 3\<rparr>]) = Some W \<and> reachable W)"
proof -
  have "enabled init_world (Acquire 7 [\<lparr>kr_fp = 5, kr_mode = kExclusive, kr_db = 3\<rparr>])"
    by (simp add: init_world_def new_shard_def members_def resumed_def queued_def intents_def keys_ok_def
        kLogicalDatabaseCount_def)
  then show ?thesis using enabled_op_returns [OF reachable.start] by blast
qed

text \<open>
  (C2) Mutual exclusion. The owners of holds are the live guards, the resumed waiters and
  the queue entries that took their holds. In every reachable state no two of them conflict:
  no key is held exclusively by one and in any mode by another.
\<close>

theorem holders_never_conflict:
  assumes "reachable W" "holds (wo_guards W) (wo_shard W) = add_mset js (add_mset ks A)"
  shows "\<not> conflict js ks"
proof -
  have "shard_inv (wo_next W) (wo_guards W) (wo_granted W) (wo_shard W)"
    using reachable_inv [OF assms(1)] by (simp add: world_inv_def)
  from lock_invD(7) [OF shard_okD(1) [OF shard_invD(1) [OF this]]] show ?thesis
    unfolding assms(2) by simp
qed

theorem holders_never_conflict_witness:
  "reachable demo_guards \<and> holds (wo_guards demo_guards) (wo_shard demo_guards) = {#[demo_key], [demo_key]#} \<and>
   \<not> conflict [demo_key] [demo_key]"
proof -
  have "holds (wo_guards demo_guards) (wo_shard demo_guards) = add_mset [demo_key] (add_mset [demo_key] {#})"
    by (simp add: demo_guards_def init_world_def new_shard_def holds_def holders_def resumed_def queued_def)
  then show ?thesis using holders_never_conflict [OF demo_guards_reachable] demo_guards_reachable by auto
qed


text \<open>
  (C3) Queue discipline. In every reachable state the live entries are in strictly
  increasing txid order, every entry that took its holds is at or below the shard's
  committed id, and no entry that took its holds conflicts with an entry before it: hops run
  out of queue order only past entries they commute with.
\<close>

theorem queue_discipline:
  assumes "reachable W"
  shows "sorted_wrt (<) (map (txid_of (wo_shard W)) (live (sh_queue (wo_shard W)))) \<and>
    (\<forall>v\<in>queued (wo_shard W). \<forall>w\<in>queued (wo_shard W). holding (wo_shard W) w \<longrightarrow>
       txid_of (wo_shard W) w \<le> sh_committed_txid (wo_shard W) \<and>
       (txid_of (wo_shard W) v < txid_of (wo_shard W) w \<longrightarrow>
        \<not> conflict (keys_of (wo_shard W) v) (keys_of (wo_shard W) w)))"
proof -
  have ok: "shard_ok (wo_next W) (wo_guards W) (wo_granted W) (wo_shard W)"
    using reachable_inv [OF assms] by (simp add: world_inv_def shard_inv_def)
  show ?thesis
    using shard_okD(2-4) [OF ok]
    by (auto simp: queue_ok_def strict_sorted_iff flags_ok_def entry_ok_def order_ok_def holding_def txid_of_def Let_def)
qed

theorem queue_discipline_witness:
  "reachable demo_scheduled \<and> queued (wo_shard demo_scheduled) = {1} \<and>
   sorted_wrt (<) (map (txid_of (wo_shard demo_scheduled)) (live (sh_queue (wo_shard demo_scheduled))))"
  using queue_discipline [OF demo_scheduled_reachable] demo_scheduled_reachable
  by (simp add: queued_def demo_scheduled_def)


text \<open>
  (C4) The bypass. Between two steps the bypass queue is empty, whatever the state. A queued
  transaction whose intents were all granted when it was scheduled is never blocked and never
  left armed, and when its coordinator arms it, that step returns with its hop in the run
  queue of the worker, marked as running and holding its keys.
\<close>

theorem granted_never_waits:
  assumes "reachable W"
  shows "sh_bypass_ready (wo_shard W) = [] \<and>
    (w \<in> queued (wo_shard W) \<and> is_tx (wo_shard W) w \<and> wo_granted W w \<longrightarrow>
       unblocked (wo_guards W) (wo_shard W) w \<and> \<not> w_armed (sh_waiters (wo_shard W) w) \<and>
       (enabled W (Arm w) \<longrightarrow>
          (\<exists>V. run_op W (Arm w) = Some V \<and> RunHop w \<in> set (sh_runq (wo_shard V)) \<and>
             w_running (sh_waiters (wo_shard V) w) \<and> w_holds_acquired (sh_waiters (wo_shard V) w))))"
proof -
  have i: "shard_inv (wo_next W) (wo_guards W) (wo_granted W) (wo_shard W)"
    using reachable_inv [OF assms] by (simp add: world_inv_def)
  have "\<exists>V. run_op W (Arm w) = Some V \<and> RunHop w \<in> set (sh_runq (wo_shard V)) \<and>
      w_running (sh_waiters (wo_shard V) w) \<and> w_holds_acquired (sh_waiters (wo_shard V) w)"
    if arm: "wo_granted W w" "enabled W (Arm w)"
  proof -
    have f: "w \<in> queued (wo_shard W)" "is_tx (wo_shard W) w" "\<not> w_armed (sh_waiters (wo_shard W) w)" "\<not> w_running (sh_waiters (wo_shard W) w)"
      using arm(2) by (simp_all add: idle_def)
    obtain t where t: "ArmInShard (wo_shard W) w (wo_granted W w) = Some t" "shard_inv (wo_next W) (wo_guards W) (wo_granted W) t" "w \<in> hops t"
      using Arm_correct [OF i f] arm(1) by blast
    from t(3) running_facts [OF shard_invD(1) [OF t(2)]] have "w_running (sh_waiters t w)" "holding t w" by auto
    then show ?thesis using t(1,3) by (simp add: hops_def holding_def)
  qed
  then show ?thesis
    using granted_unblocked [OF shard_invD(1) [OF i], of w] shard_invD(3,5) [OF i] by (simp add: prompt_def)
qed

theorem granted_never_waits_witness:
  "reachable demo_scheduled \<and> 1 \<in> queued (wo_shard demo_scheduled) \<and> is_tx (wo_shard demo_scheduled) 1 \<and>
   wo_granted demo_scheduled 1 \<and> unblocked (wo_guards demo_scheduled) (wo_shard demo_scheduled) 1 \<and>
   (\<exists>V. run_op demo_scheduled (Arm 1) = Some V \<and> RunHop 1 \<in> set (sh_runq (wo_shard V)))"
proof -
  have s: "1 \<in> queued (wo_shard demo_scheduled)" "is_tx (wo_shard demo_scheduled) 1" "wo_granted demo_scheduled 1"
    by (simp_all add: demo_scheduled_def queued_def is_tx_def sealed_node_def)
  moreover have "enabled demo_scheduled (Arm 1)"
    using s by (simp add: idle_def) (simp add: demo_scheduled_def sealed_node_def no_waiter_def)
  ultimately show ?thesis using granted_never_waits [OF demo_scheduled_reachable, of 1] demo_scheduled_reachable by blast
qed


text \<open>
  (C5) No lost wakeup. When no guard is alive and no waiter is being resumed, the head of the
  queue is a transaction that waits for its own coordinator: it is running a hop or has not
  been armed. A plain waiter or an armed hop is never left at the head with nobody to poll.
\<close>

theorem no_lost_wakeup:
  assumes "reachable W" "wo_guards W = {#}" "resumed (wo_shard W) = {}" "live (sh_queue (wo_shard W)) = h # rest"
  shows "is_tx (wo_shard W) h \<and> (h \<in> idle (wo_shard W) \<or> h \<in> hops (wo_shard W))"
  using head_waits_for_its_coordinator [of "wo_next W" "wo_granted W" "wo_shard W" h rest] reachable_inv [OF assms(1)] assms
  by (auto simp: world_inv_def)

theorem no_lost_wakeup_witness:
  "reachable demo_scheduled \<and> wo_guards demo_scheduled = {#} \<and> resumed (wo_shard demo_scheduled) = {} \<and>
   is_tx (wo_shard demo_scheduled) 1 \<and> (1 \<in> idle (wo_shard demo_scheduled) \<or> 1 \<in> hops (wo_shard demo_scheduled))"
proof -
  have f: "wo_guards demo_scheduled = {#}" "resumed (wo_shard demo_scheduled) = {}"
    "live (sh_queue (wo_shard demo_scheduled)) = 1 # []"
    by (simp_all add: demo_scheduled_def init_world_def new_shard_def resumed_def)
  from no_lost_wakeup [OF demo_scheduled_reachable f] show ?thesis using f demo_scheduled_reachable by blast
qed


text \<open>
  (C6) No deadlock. From every reachable state some sequence of steps (dropping guards,
  resuming waiters, arming and finishing hops) leads to a shard with no registrant left.
\<close>

theorem shard_can_drain:
  assumes "reachable W"
  shows "\<exists>V. step\<^sup>*\<^sup>* W V \<and> members (wo_shard V) = {} \<and> wo_guards V = {#}"
  by (rule drains [OF reachable_inv [OF assms]])

theorem shard_can_drain_witness:
  "members (wo_shard demo_scheduled) = {1} \<and>
   (\<exists>V. step\<^sup>*\<^sup>* demo_scheduled V \<and> members (wo_shard V) = {} \<and> wo_guards V = {#})"
  using shard_can_drain [OF demo_scheduled_reachable]
  by (simp add: members_def queued_def resumed_def demo_scheduled_def init_world_def new_shard_def)


text \<open>
  (C12) Optimistic reads. In every reachable state \<open>CanReadOptimistically\<close> answers for a valid
  database, and answers yes exactly when no guard, resumed waiter or queue entry has a key in
  that database.
\<close>

theorem optimistic_read_exact:
  assumes "reachable W" "unat db < kLogicalDatabaseCount"
  shows "CanReadOptimistically (wo_shard W) db =
    Some (\<forall>ks\<in>#intents (wo_guards W) (wo_shard W). \<forall>k\<in>set ks. kr_db k \<noteq> db)"
  using reachable_inv [OF assms(1)] by (intro optimistic_iff [OF _ assms(2)]) (auto simp: world_inv_def shard_inv_def shard_ok_def)

theorem optimistic_read_exact_witness:
  "CanReadOptimistically (wo_shard demo_scheduled) 0 = Some False \<and> CanReadOptimistically (wo_shard demo_scheduled) 1 = Some True"
proof -
  have i: "intents (wo_guards demo_scheduled) (wo_shard demo_scheduled) = {#[demo_key]#}"
    by (simp add: intents_def members_def resumed_def queued_def keys_of_def demo_scheduled_def init_world_def new_shard_def
        sealed_node_def no_waiter_def)
  show ?thesis
    using optimistic_read_exact [OF demo_scheduled_reachable, of 0] optimistic_read_exact [OF demo_scheduled_reachable, of 1]
    by (simp add: i kLogicalDatabaseCount_def demo_key_def)
qed



text \<open>
  (C15) The single-key fast paths are optimisations only. In every reachable state and for every
  well-formed key set, \<open>TryFastPath\<close> equals recording all intents and then taking all holds
  when granted, and \<open>Release\<close> equals dropping all holds, then all intents, then polling; the
  fused lock-table operations of the one-key branches change nothing else.
\<close>

theorem single_key_paths_equivalent:
  assumes "reachable W" "keys_ok keys"
  shows "TryFastPath (wo_shard W) keys =
     do { (ls, granted) \<leftarrow> AcquireIntents (sh_locks (wo_shard W)) keys;
          if \<not> granted then Some ((wo_shard W)\<lparr>sh_locks := ls\<rparr>, False)
          else do { ls \<leftarrow> AcquireHolds ls keys;
                    Some ((wo_shard W)\<lparr>sh_locks := ls, sh_fastpath_runs := sh_fastpath_runs (wo_shard W) + 1\<rparr>, True) } } \<and>
    Release (wo_shard W) keys =
     do { ls \<leftarrow> ReleaseHolds (sh_locks (wo_shard W)) keys; ls \<leftarrow> ReleaseIntents ls keys;
          Poll ((wo_shard W)\<lparr>sh_locks := ls\<rparr>) }"
proof -
  have "lock_inv (sh_locks (wo_shard W)) (intents (wo_guards W) (wo_shard W)) (holds (wo_guards W) (wo_shard W))"
    using reachable_inv [OF assms(1)] by (simp add: world_inv_def shard_inv_def shard_ok_def)
  then show ?thesis using TryFastPath_uniform [OF _ assms(2)] Release_uniform by blast
qed

theorem single_key_paths_equivalent_witness:
  "Release (wo_shard demo_guards) [demo_key] =
     do { ls \<leftarrow> ReleaseHolds (sh_locks (wo_shard demo_guards)) [demo_key]; ls \<leftarrow> ReleaseIntents ls [demo_key];
          Poll ((wo_shard demo_guards)\<lparr>sh_locks := ls\<rparr>) }"
proof -
  have "keys_ok [demo_key]" by (simp add: keys_ok_def demo_key_def kLogicalDatabaseCount_def)
  from single_key_paths_equivalent [OF demo_guards_reachable this] show ?thesis by blast
qed

end
