(* ===== verification/Tx_Watch.thy ===== *)
theory Tx_Watch
  imports Tx_Shard "HOL-Library.Multiset"
begin

text \<open>
  The WATCH registrations of a shard (\<^verbatim>\<open>include/lavik/tx/tx_shard.h\<close>): per database a
  table from fingerprints to the connections that watch them, each with a sticky dirty bit.
  The abstract view is a partial map from (database, fingerprint, connection) to the bit.
\<close>

section \<open>Operations\<close>

text \<open>Indexing the array of tables; a database out of range has no table.\<close>

definition with_watches ::
    "(WatchTable \<Rightarrow> WatchTable) \<Rightarrow> WatchTable list \<Rightarrow> u8 \<Rightarrow> WatchTable list option" where
  "with_watches f ls db =
     (if unat db < length ls then Some (ls[unat db := f (ls ! unat db)]) else None)"

definition entries_at :: "WatchTable \<Rightarrow> u64 \<Rightarrow> WatchEntry list" where
  "entries_at t fp = (case Mapping.lookup t fp of None \<Rightarrow> [] | Some es \<Rightarrow> es)"

definition mark_entry :: "WatchEntry \<Rightarrow> WatchEntry" where
  "mark_entry e = e\<lparr>we_dirty := True\<rparr>"

definition Watch :: "WatchTable list \<Rightarrow> u8 \<Rightarrow> u64 \<Rightarrow> u64 \<Rightarrow> WatchTable list option" where
  "Watch ls db_id fp conn_id =
     with_watches (\<lambda>t. let entries = entries_at t fp in
        Mapping.update fp
          (if \<exists>e\<in>set entries. we_conn_id e = conn_id then entries
           else entries @ [\<lparr>we_conn_id = conn_id, we_dirty = False\<rparr>]) t) ls db_id"

definition MarkWatched :: "WatchTable list \<Rightarrow> u8 \<Rightarrow> u64 \<Rightarrow> WatchTable list option" where
  "MarkWatched ls db_id fp =
     with_watches (\<lambda>t. case Mapping.lookup t fp of
        None \<Rightarrow> t
      | Some entries \<Rightarrow> Mapping.update fp (map mark_entry entries) t) ls db_id"

definition MarkAllWatched :: "WatchTable list \<Rightarrow> u8 \<Rightarrow> WatchTable list option" where
  "MarkAllWatched ls db_id = with_watches (Mapping.map_values (\<lambda>_. map mark_entry)) ls db_id"

fun find_conn :: "WatchEntry list \<Rightarrow> u64 \<Rightarrow> WatchEntry option" where
  "find_conn [] conn_id = None"
| "find_conn (e # es) conn_id = (if we_conn_id e = conn_id then Some e else find_conn es conn_id)"

definition WatchClean :: "WatchTable list \<Rightarrow> u8 \<Rightarrow> u64 \<Rightarrow> u64 \<Rightarrow> bool option" where
  "WatchClean ls db_id fp conn_id =
     (if unat db_id < length ls then
        Some (case Mapping.lookup (ls ! unat db_id) fp of
                None \<Rightarrow> False
              | Some entries \<Rightarrow> (case find_conn entries conn_id of None \<Rightarrow> False | Some e \<Rightarrow> \<not> we_dirty e))
      else None)"

text \<open>The loop of \<open>Unwatch\<close>: the first match is overwritten by the last entry, which is dropped.\<close>

fun index_conn :: "WatchEntry list \<Rightarrow> u64 \<Rightarrow> nat option" where
  "index_conn [] conn_id = None"
| "index_conn (e # es) conn_id =
     (if we_conn_id e = conn_id then Some 0 else map_option Suc (index_conn es conn_id))"

definition swap_remove :: "WatchEntry list \<Rightarrow> u64 \<Rightarrow> WatchEntry list" where
  "swap_remove entries conn_id =
     (case index_conn entries conn_id of
        None \<Rightarrow> entries
      | Some i \<Rightarrow> butlast (entries[i := last entries]))"

definition Unwatch :: "WatchTable list \<Rightarrow> u8 \<Rightarrow> u64 \<Rightarrow> u64 \<Rightarrow> WatchTable list option" where
  "Unwatch ls db_id fp conn_id =
     with_watches (\<lambda>t. case Mapping.lookup t fp of
        None \<Rightarrow> t
      | Some entries \<Rightarrow>
          (let entries = swap_remove entries conn_id in
           if entries = [] then Mapping.delete fp t else Mapping.update fp entries t)) ls db_id"

section \<open>Abstract view\<close>

type_synonym watch_key = "u8 \<times> u64 \<times> u64"

definition registration :: "WatchTable list \<Rightarrow> watch_key \<Rightarrow> bool option" where
  "registration ls x =
     (case x of (db, fp, conn) \<Rightarrow>
        if unat db < length ls
        then map_option we_dirty (find_conn (entries_at (ls ! unat db) fp) conn) else None)"

text \<open>One registration per connection and fingerprint, and no empty entry list is kept.\<close>

definition table_ok :: "WatchTable \<Rightarrow> bool" where
  "table_ok t \<longleftrightarrow> (\<forall>fp es. Mapping.lookup t fp = Some es \<longrightarrow> es \<noteq> [] \<and> distinct (map we_conn_id es))"

definition watches_ok :: "WatchTable list \<Rightarrow> bool" where
  "watches_ok ls \<longleftrightarrow> length ls = kLogicalDatabaseCount \<and> (\<forall>t\<in>set ls. table_ok t)"

datatype watch_op =
    WatchOp u8 u64 u64
  | MarkOp u8 u64
  | MarkAllOp u8
  | UnwatchOp u8 u64 u64

fun op_db :: "watch_op \<Rightarrow> u8" where
  "op_db (WatchOp db fp conn) = db"
| "op_db (MarkOp db fp) = db"
| "op_db (MarkAllOp db) = db"
| "op_db (UnwatchOp db fp conn) = db"

definition op_ok :: "watch_op \<Rightarrow> bool" where
  "op_ok op \<longleftrightarrow> unat (op_db op) < kLogicalDatabaseCount"

fun watch_step :: "watch_op \<Rightarrow> WatchTable list \<Rightarrow> WatchTable list option" where
  "watch_step (WatchOp db fp conn) ls = Watch ls db fp conn"
| "watch_step (MarkOp db fp) ls = MarkWatched ls db fp"
| "watch_step (MarkAllOp db) ls = MarkAllWatched ls db"
| "watch_step (UnwatchOp db fp conn) ls = Unwatch ls db fp conn"

text \<open>The specification of each operation on the abstract view.\<close>

fun marks :: "watch_op \<Rightarrow> watch_key \<Rightarrow> bool" where
  "marks (MarkOp db fp) (db', fp', conn) \<longleftrightarrow> db = db' \<and> fp = fp'"
| "marks (MarkAllOp db) (db', fp', conn) \<longleftrightarrow> db = db'"
| "marks _ _ \<longleftrightarrow> False"

fun spec_step :: "watch_op \<Rightarrow> (watch_key \<Rightarrow> bool option) \<Rightarrow> watch_key \<Rightarrow> bool option" where
  "spec_step (WatchOp db fp conn) r =
     (if r (db, fp, conn) = None then r((db, fp, conn) := Some False) else r)"
| "spec_step (UnwatchOp db fp conn) r = r((db, fp, conn) := None)"
| "spec_step op r = (\<lambda>x. if marks op x then map_option (\<lambda>_. True) (r x) else r x)"

section \<open>Contract\<close>

locale watch_registry =
  fixes stp :: "watch_op \<Rightarrow> 's \<Rightarrow> 's option"
    and reg :: "'s \<Rightarrow> watch_key \<Rightarrow> bool option"
    and wf :: "'s \<Rightarrow> bool"
    and ok :: "watch_op \<Rightarrow> bool"
  assumes stp_spec: "wf s \<Longrightarrow> ok op \<Longrightarrow> \<exists>t. stp op s = Some t \<and> wf t \<and> reg t = spec_step op (reg s)"
begin

lemma run_spec:
  "wf s \<Longrightarrow> \<forall>op\<in>set ops. ok op \<Longrightarrow> \<exists>t. run_steps stp ops s = Some t \<and> wf t \<and> reg t = fold spec_step ops (reg s)"
proof (induction ops arbitrary: s)
  case (Cons op ops)
  from stp_spec [OF Cons.prems(1), of op] Cons.prems(2) obtain t where
    t: "stp op s = Some t" "wf t" "reg t = spec_step op (reg s)" by auto
  from Cons.IH [OF t(2)] Cons.prems(2) t show ?case by auto
qed simp

end

text \<open>A registration that is not withdrawn is dirty once marked and otherwise unchanged.\<close>

lemma spec_step_kept:
  assumes "r x = Some d" "\<forall>db fp conn. op = UnwatchOp db fp conn \<longrightarrow> (db, fp, conn) \<noteq> x"
  shows "spec_step op r x = Some (d \<or> marks op x)"
  using assms by (cases op; cases x) auto

lemma spec_run_kept:
  assumes "r x = Some d" "\<forall>db fp conn. UnwatchOp db fp conn \<in> set ops \<longrightarrow> (db, fp, conn) \<noteq> x"
  shows "fold spec_step ops r x = Some (d \<or> (\<exists>op\<in>set ops. marks op x))"
  using assms
proof (induction ops arbitrary: r d)
  case (Cons op ops)
  from Cons.prems have "spec_step op r x = Some (d \<or> marks op x)"
    by (intro spec_step_kept) auto
  from Cons.IH [of "spec_step op r" "d \<or> marks op x", OF this] Cons.prems(2) show ?case by auto
qed simp

section \<open>The tables implement the contract\<close>

lemma find_conn_SomeD: "find_conn es c = Some e \<Longrightarrow> e \<in> set es \<and> we_conn_id e = c"
  by (induction es) (auto split: if_splits)

lemma find_conn_None: "find_conn es c = None \<longleftrightarrow> (\<forall>e\<in>set es. we_conn_id e \<noteq> c)"
  by (induction es) auto

lemma find_conn_iff:
  "distinct (map we_conn_id es) \<Longrightarrow> find_conn es c = Some e \<longleftrightarrow> e \<in> set es \<and> we_conn_id e = c"
  by (induction es) (auto simp: image_iff)

lemma find_conn_append:
  "find_conn (es @ fs) c = (case find_conn es c of None \<Rightarrow> find_conn fs c | Some e \<Rightarrow> Some e)"
  by (induction es) auto

lemma find_conn_mark: "find_conn (map mark_entry es) c = map_option mark_entry (find_conn es c)"
  by (induction es) (auto simp: mark_entry_def)

lemma conns_mark [simp]: "map we_conn_id (map mark_entry es) = map we_conn_id es"
  by (simp add: mark_entry_def comp_def)

lemma index_conn_split:
  "index_conn es c = Some i \<Longrightarrow> \<exists>xs e ys. es = xs @ e # ys \<and> length xs = i \<and> we_conn_id e = c"
proof (induction es arbitrary: i)
  case (Cons a es)
  show ?case
  proof (cases "we_conn_id a = c")
    case True
    then show ?thesis using Cons.prems by (intro exI [of _ "[]"]) auto
  next
    case False
    then obtain j where j: "index_conn es c = Some j" "i = Suc j" using Cons.prems by auto
    from Cons.IH [OF j(1)] obtain xs e ys where "es = xs @ e # ys" "length xs = j" "we_conn_id e = c" by blast
    then show ?thesis using j(2) by (intro exI [of _ "a # xs"]) auto
  qed
qed simp

lemma index_conn_None: "index_conn es c = None \<longleftrightarrow> (\<forall>e\<in>set es. we_conn_id e \<noteq> c)"
  by (induction es) auto

lemma swap_remove_mset:
  assumes "distinct (map we_conn_id es)"
  shows "mset (swap_remove es c) = mset (filter (\<lambda>e. we_conn_id e \<noteq> c) es)"
proof (cases "index_conn es c")
  case None
  then have "filter (\<lambda>e. we_conn_id e \<noteq> c) es = es" by (auto simp: index_conn_None)
  then show ?thesis using None by (simp add: swap_remove_def)
next
  case (Some i)
  then obtain xs e ys where es: "es = xs @ e # ys" "length xs = i" "we_conn_id e = c"
    using index_conn_split by blast
  have "filter (\<lambda>e. we_conn_id e \<noteq> c) xs = xs" "filter (\<lambda>e. we_conn_id e \<noteq> c) ys = ys"
    using assms es by (auto intro!: filter_True simp: image_iff)
  then have f: "filter (\<lambda>e. we_conn_id e \<noteq> c) es = xs @ ys" using es by simp
  have "swap_remove es c = butlast (es[i := last es])" using Some by (simp add: swap_remove_def)
  also have "mset \<dots> = mset (xs @ ys)"
    using es by (cases ys rule: rev_cases) (auto simp: list_update_append butlast_append)
  finally show ?thesis by (simp only: f)
qed

lemma swap_remove_conns:
  assumes "distinct (map we_conn_id es)"
  shows "distinct (map we_conn_id (swap_remove es c))"
    "find_conn (swap_remove es c) d = (if d = c then None else find_conn es d)"
proof -
  let ?f = "filter (\<lambda>e. we_conn_id e \<noteq> c) es"
  have st: "set (swap_remove es c) = set ?f" by (metis swap_remove_mset [OF assms] set_mset_mset)
  have "mset (map we_conn_id (swap_remove es c)) = mset (map we_conn_id ?f)"
    using swap_remove_mset [OF assms] by simp
  then show d: "distinct (map we_conn_id (swap_remove es c))"
    using assms by (metis distinct_map_filter mset_eq_imp_distinct_iff)
  show "find_conn (swap_remove es c) d = (if d = c then None else find_conn es d)"
  proof (rule option.expand)
    show "find_conn (swap_remove es c) d = None \<longleftrightarrow> (if d = c then None else find_conn es d) = None"
      by (auto simp: find_conn_None st)
    assume "find_conn (swap_remove es c) d \<noteq> None" "(if d = c then None else find_conn es d) \<noteq> None"
    then obtain e where "find_conn (swap_remove es c) d = Some e" "d \<noteq> c" by (auto split: if_splits)
    moreover from this have "find_conn es d = Some e" using find_conn_iff [OF d] find_conn_iff [OF assms] st by auto
    ultimately show "the (find_conn (swap_remove es c) d) = the (if d = c then None else find_conn es d)" by simp
  qed
qed

text \<open>
  One lemma for all four operations: replacing the table of database \<open>db\<close> by one whose
  entry lists are given keeps the invariant and changes the view at \<open>db\<close> only.
\<close>

lemma with_watches_spec:
  assumes ok: "watches_ok ls" and db: "unat db < kLogicalDatabaseCount"
    and f: "\<And>t. table_ok t \<Longrightarrow> table_ok (f t)"
    and r: "\<And>t fp conn. table_ok t \<Longrightarrow> map_option we_dirty (find_conn (entries_at (f t) fp) conn) =
      g fp conn (map_option we_dirty (find_conn (entries_at t fp) conn))"
  shows "\<exists>ls'. with_watches f ls db = Some ls' \<and> watches_ok ls' \<and>
    registration ls' = (\<lambda>(db', fp, conn). if db' = db then g fp conn (registration ls (db', fp, conn)) else registration ls (db', fp, conn))"
proof -
  have l: "unat db < length ls" using ok db by (simp add: watches_ok_def)
  then have t: "table_ok (ls ! unat db)" using ok by (simp add: watches_ok_def)
  have "watches_ok (ls[unat db := f (ls ! unat db)])"
    using ok f [OF t] by (auto simp: watches_ok_def dest!: set_update_subset_insert [THEN subsetD])
  moreover have "registration (ls[unat db := f (ls ! unat db)]) =
      (\<lambda>(db', fp, conn). if db' = db then g fp conn (registration ls (db', fp, conn)) else registration ls (db', fp, conn))"
    using l r [OF t] by (auto simp: registration_def fun_eq_iff nth_list_update word_unat_eq_iff)
  ultimately show ?thesis using l by (simp add: with_watches_def)
qed

lemma table_okD: "table_ok t \<Longrightarrow> distinct (map we_conn_id (entries_at t fp))"
  by (auto simp: table_ok_def entries_at_def split: option.splits)

lemma entries_at_update [simp]: "entries_at (Mapping.update fp es t) fp' = (if fp' = fp then es else entries_at t fp')"
  by (simp add: entries_at_def lookup_update')

lemma entries_at_delete [simp]: "entries_at (Mapping.delete fp t) fp' = (if fp' = fp then [] else entries_at t fp')"
  by (simp add: entries_at_def lookup_delete_if)

lemma table_ok_update: "table_ok t \<Longrightarrow> es \<noteq> [] \<Longrightarrow> distinct (map we_conn_id es) \<Longrightarrow> table_ok (Mapping.update fp es t)"
  by (auto simp: table_ok_def lookup_update')

lemma table_ok_delete: "table_ok t \<Longrightarrow> table_ok (Mapping.delete fp t)"
  by (auto simp: table_ok_def lookup_delete_if)

lemma Watch_spec:
  assumes "watches_ok ls" "unat db < kLogicalDatabaseCount"
  shows "\<exists>ls'. Watch ls db fp conn = Some ls' \<and> watches_ok ls' \<and> registration ls' = spec_step (WatchOp db fp conn) (registration ls)"
proof -
  let ?add = "\<lambda>es. if \<exists>e\<in>set es. we_conn_id e = conn then es else es @ [\<lparr>we_conn_id = conn, we_dirty = False\<rparr>]"
  let ?g = "\<lambda>fp' conn' d. if fp' = fp \<and> conn' = conn \<and> d = None then Some False else d"
  let ?f = "\<lambda>t. Mapping.update fp (?add (entries_at t fp)) t"
  have ok: "table_ok (Mapping.update fp (?add (entries_at t fp)) t)" if "table_ok t" for t
    using that table_okD [OF that, of fp] by (intro table_ok_update) auto
  have r: "map_option we_dirty (find_conn (entries_at (Mapping.update fp (?add (entries_at t fp)) t) fp') conn') =
      ?g fp' conn' (map_option we_dirty (find_conn (entries_at t fp') conn'))" for t fp' conn'
    by (auto simp: find_conn_append find_conn_None dest: find_conn_SomeD split: option.splits)
  obtain ls' where "Watch ls db fp conn = Some ls'" "watches_ok ls'"
      "registration ls' = (\<lambda>(db', fp', conn'). if db' = db then ?g fp' conn' (registration ls (db', fp', conn')) else registration ls (db', fp', conn'))"
    using with_watches_spec [where f = ?f and g = ?g, OF assms ok r] unfolding Watch_def Let_def by blast
  then show ?thesis by (auto simp: fun_eq_iff)
qed

lemma MarkWatched_spec:
  assumes "watches_ok ls" "unat db < kLogicalDatabaseCount"
  shows "\<exists>ls'. MarkWatched ls db fp = Some ls' \<and> watches_ok ls' \<and> registration ls' = spec_step (MarkOp db fp) (registration ls)"
proof -
  let ?f = "\<lambda>t. case Mapping.lookup t fp of None \<Rightarrow> t | Some entries \<Rightarrow> Mapping.update fp (map mark_entry entries) t"
  let ?g = "\<lambda>fp' conn' d. if fp' = fp then map_option (\<lambda>_. True) d else d"
  have ok: "table_ok (?f t)" if "table_ok t" for t
    using that by (auto simp: table_ok_def lookup_update' simp del: map_map split: option.splits)
  have r: "map_option we_dirty (find_conn (entries_at (?f t) fp') conn') =
      ?g fp' conn' (map_option we_dirty (find_conn (entries_at t fp') conn'))" for t fp' conn'
  proof (cases "Mapping.lookup t fp")
    case None
    then show ?thesis by (auto simp: entries_at_def)
  next
    case (Some es)
    then have "entries_at t fp = es" by (simp add: entries_at_def)
    then show ?thesis using Some by (auto simp: find_conn_mark option.map_comp comp_def mark_entry_def)
  qed
  obtain ls' where "MarkWatched ls db fp = Some ls'" "watches_ok ls'"
      "registration ls' = (\<lambda>(db', fp', conn'). if db' = db then ?g fp' conn' (registration ls (db', fp', conn')) else registration ls (db', fp', conn'))"
    using with_watches_spec [where f = ?f and g = ?g, OF assms ok r] unfolding MarkWatched_def by blast
  then show ?thesis by (auto simp: fun_eq_iff)
qed

lemma MarkAllWatched_spec:
  assumes "watches_ok ls" "unat db < kLogicalDatabaseCount"
  shows "\<exists>ls'. MarkAllWatched ls db = Some ls' \<and> watches_ok ls' \<and> registration ls' = spec_step (MarkAllOp db) (registration ls)"
proof -
  let ?f = "Mapping.map_values (\<lambda>_. map mark_entry)"
  let ?g = "\<lambda>(fp' :: u64) (conn' :: u64) d. map_option (\<lambda>_. True) d"
  have ok: "table_ok (?f t)" if "table_ok t" for t
    using that by (auto simp: table_ok_def lookup_map_values map_option_eq_Some simp del: map_map)
  have r: "map_option we_dirty (find_conn (entries_at (?f t) fp') conn') =
      ?g fp' conn' (map_option we_dirty (find_conn (entries_at t fp') conn'))" for t fp' conn'
    by (cases "Mapping.lookup t fp'")
       (simp_all add: entries_at_def lookup_map_values find_conn_mark option.map_comp comp_def mark_entry_def)
  obtain ls' where "MarkAllWatched ls db = Some ls'" "watches_ok ls'"
      "registration ls' = (\<lambda>(db', fp', conn'). if db' = db then ?g fp' conn' (registration ls (db', fp', conn')) else registration ls (db', fp', conn'))"
    using with_watches_spec [where f = ?f and g = ?g, OF assms ok r] unfolding MarkAllWatched_def by blast
  then show ?thesis by (auto simp: fun_eq_iff)
qed

lemma Unwatch_spec:
  assumes "watches_ok ls" "unat db < kLogicalDatabaseCount"
  shows "\<exists>ls'. Unwatch ls db fp conn = Some ls' \<and> watches_ok ls' \<and> registration ls' = spec_step (UnwatchOp db fp conn) (registration ls)"
proof -
  let ?f = "\<lambda>t. case Mapping.lookup t fp of None \<Rightarrow> t
      | Some entries \<Rightarrow> (let entries = swap_remove entries conn in
           if entries = [] then Mapping.delete fp t else Mapping.update fp entries t)"
  let ?g = "\<lambda>fp' conn' d. if fp' = fp \<and> conn' = conn then None else d"
  have ok: "table_ok (?f t)" if "table_ok t" for t
    using that by (auto simp: Let_def swap_remove_conns(1) table_ok_def lookup_update' lookup_delete_if split: option.splits)
  have r: "map_option we_dirty (find_conn (entries_at (?f t) fp') conn') =
      ?g fp' conn' (map_option we_dirty (find_conn (entries_at t fp') conn'))" if "table_ok t" for t fp' conn'
  proof (cases "Mapping.lookup t fp")
    case None
    then show ?thesis by (auto simp: entries_at_def)
  next
    case (Some es)
    then have e: "entries_at t fp = es" by (simp add: entries_at_def)
    have d: "distinct (map we_conn_id es)" using table_okD [OF that, of fp] e by simp
    have "entries_at (?f t) fp' = (if fp' = fp then swap_remove es conn else entries_at t fp')"
      using Some by (simp add: Let_def)
    then show ?thesis using e swap_remove_conns(2) [OF d] by simp
  qed
  obtain ls' where "Unwatch ls db fp conn = Some ls'" "watches_ok ls'"
      "registration ls' = (\<lambda>(db', fp', conn'). if db' = db then ?g fp' conn' (registration ls (db', fp', conn')) else registration ls (db', fp', conn'))"
    using with_watches_spec [where f = ?f and g = ?g, OF assms ok r] unfolding Unwatch_def by blast
  then show ?thesis by (auto simp: fun_eq_iff)
qed

interpretation watches: watch_registry watch_step registration watches_ok op_ok
proof
  show "\<exists>t. watch_step op s = Some t \<and> watches_ok t \<and> registration t = spec_step op (registration s)"
    if "watches_ok s" "op_ok op" for s op
    using that Watch_spec MarkWatched_spec MarkAllWatched_spec Unwatch_spec by (cases op) (auto simp: op_ok_def)
qed

lemma WatchClean_registration:
  "watches_ok ls \<Longrightarrow> unat db < kLogicalDatabaseCount \<Longrightarrow> WatchClean ls db fp conn = Some (registration ls (db, fp, conn) = Some False)"
  by (auto simp: watches_ok_def WatchClean_def registration_def entries_at_def split: option.splits)

lemma new_watches_ok: "watches_ok (sh_watches new_shard)"
  by (simp add: watches_ok_def new_shard_def table_ok_def)

section \<open>Properties\<close>

text \<open>
  (C18) The EXEC guard. A connection registers a key and does not withdraw it while any
  sequence of registrations, marks and withdrawals of others runs on the shard. Every
  operation returns, and \<open>WatchClean\<close> then answers yes exactly when the registration was new
  or clean and no operation of the sequence marked the key: no write is missed, and a write
  to another key or database never dirties it.
\<close>

theorem watch_exec_guard:
  assumes "watches_ok ls" "unat db < kLogicalDatabaseCount" "\<forall>op\<in>set ops. op_ok op"
    and "UnwatchOp db fp conn \<notin> set ops"
  shows "\<exists>t. run_steps watch_step (WatchOp db fp conn # ops) ls = Some t \<and> watches_ok t \<and>
    WatchClean t db fp conn =
      Some (registration ls (db, fp, conn) \<noteq> Some True \<and> (\<forall>op\<in>set ops. \<not> marks op (db, fp, conn)))"
proof -
  obtain t where t: "run_steps watch_step (WatchOp db fp conn # ops) ls = Some t" "watches_ok t"
      "registration t = fold spec_step (WatchOp db fp conn # ops) (registration ls)"
    using watches.run_spec [OF assms(1), of "WatchOp db fp conn # ops"] assms(2,3) by (auto simp: op_ok_def)
  let ?d = "registration ls (db, fp, conn) = Some True"
  have "spec_step (WatchOp db fp conn) (registration ls) (db, fp, conn) = Some ?d"
    by (cases "registration ls (db, fp, conn)") auto
  moreover have "\<forall>db' fp' conn'. UnwatchOp db' fp' conn' \<in> set ops \<longrightarrow> (db', fp', conn') \<noteq> (db, fp, conn)"
    using assms(4) by auto
  ultimately have "registration t (db, fp, conn) = Some (?d \<or> (\<exists>op\<in>set ops. marks op (db, fp, conn)))"
    unfolding t(3) fold.simps comp_def by (rule spec_run_kept)
  then show ?thesis using t(1,2) WatchClean_registration [OF t(2) assms(2)] by auto
qed

theorem watch_exec_guard_witness:
  "\<exists>t. run_steps watch_step [WatchOp 0 7 1, WatchOp 0 7 2, MarkOp 0 8, UnwatchOp 0 7 2] (sh_watches new_shard) = Some t \<and>
     watches_ok t \<and> WatchClean t 0 7 1 = Some True"
  using watch_exec_guard [OF new_watches_ok, of 0 "[WatchOp 0 7 2, MarkOp 0 8, UnwatchOp 0 7 2]" 7 1]
  by (simp add: op_ok_def kLogicalDatabaseCount_def registration_def new_shard_def entries_at_def)

end
