(* ===== verification/Transaction.thy ===== *)
theory Transaction
  imports Tx_Shard
begin

text \<open>
  The coordinator side of a multi-key transaction, \<^verbatim>\<open>src/tx/transaction.cpp\<close> and
  \<^verbatim>\<open>include/lavik/tx/transaction.h\<close>: collecting keys, sealing them into per-shard slices
  and deduplicated lock sets, and the barrier rounds. Offsets and counts are the 16-bit
  fields of the code, with the narrowing of \<open>static_cast<std::uint16_t>\<close> written out as
  \<open>word_of_nat\<close>; the spans handed out by \<open>Seal\<close> are the lists they denote. Callback, hook
  and validator functions are not part of the state.
\<close>

section \<open>State\<close>

record TxKey =
  tk_digest :: u64
  tk_fp :: u64
  tk_arg_index :: u32
  tk_mode :: LockMode
  tk_db :: u8

datatype Phase = PhaseSchedule | PhaseCancel | PhaseArm

record ShardData =
  sd_shard_id :: u16
  sd_key_begin :: u16
  sd_key_count :: u16
  sd_lock_begin :: u16
  sd_lock_count :: u16
  sd_node_slot :: u16
  sd_node_keys :: "KeyRef list"
  sd_status :: "status option"
  sd_phase :: Phase
  sd_schedule_failed :: bool
  sd_entry_hook_invoked :: bool

record Transaction =
  tx_releasing :: bool
  tx_scheduled :: bool
  tx_txid :: u64
  tx_keys :: "TxKey list"
  tx_owners :: "u16 list"
  tx_lock_refs :: "KeyRef list"
  tx_shards :: "ShardData list"
  tx_schedule_retries :: u64
  tx_barrier :: u32

definition new_transaction :: Transaction where
  "new_transaction = \<lparr>tx_releasing = False, tx_scheduled = False, tx_txid = 0, tx_keys = [], tx_owners = [],
     tx_lock_refs = [], tx_shards = [], tx_schedule_retries = 0, tx_barrier = 0\<rparr>"

section \<open>Collecting and sealing\<close>

definition FingerprintOf :: "u64 \<Rightarrow> u64" where
  "FingerprintOf digest = digest"

text \<open>\<open>unsigned\<close> is 32 bits wide; the owner is narrowed to 16.\<close>

definition AddKey :: "Transaction \<Rightarrow> u32 \<Rightarrow> u8 \<Rightarrow> u64 \<Rightarrow> u32 \<Rightarrow> LockMode \<Rightarrow> Transaction option" where
  "AddKey tx owner db digest arg_index mode =
     (if tx_shards tx \<noteq> [] then None
      else Some (tx\<lparr>tx_keys := tx_keys tx @ [\<lparr>tk_digest = digest, tk_fp = FingerprintOf digest,
                      tk_arg_index = arg_index, tk_mode = mode, tk_db = db\<rparr>],
                    tx_owners := tx_owners tx @ [ucast owner]\<rparr>))"

definition distinct_owners :: "u16 list \<Rightarrow> u16 list" where
  "distinct_owners owners = fold (\<lambda>owner acc. if owner \<in> set acc then acc else acc @ [owner]) owners []"

text \<open>One pass of the deduplication loop over the references from \<open>lock_begin_\<close> on.\<close>

fun merge_ref :: "TxKey \<Rightarrow> KeyRef list \<Rightarrow> KeyRef list" where
  "merge_ref key [] = [\<lparr>kr_fp = tk_fp key, kr_mode = tk_mode key, kr_db = tk_db key\<rparr>]"
| "merge_ref key (ref # refs) =
     (if kr_fp ref = tk_fp key \<and> kr_db ref = tk_db key
      then (if tk_mode key = kExclusive then ref\<lparr>kr_mode := kExclusive\<rparr> else ref) # refs
      else ref # merge_ref key refs)"

definition owned_keys :: "TxKey list \<Rightarrow> u16 list \<Rightarrow> u16 \<Rightarrow> TxKey list" where
  "owned_keys keys owners owner = map fst (filter (\<lambda>ko. snd ko = owner) (zip keys owners))"

definition blank_shard :: ShardData where
  "blank_shard = \<lparr>sd_shard_id = 0, sd_key_begin = 0, sd_key_count = 0, sd_lock_begin = 0, sd_lock_count = 0,
     sd_node_slot = 0, sd_node_keys = [], sd_status = None, sd_phase = PhaseSchedule,
     sd_schedule_failed = False, sd_entry_hook_invoked = False\<rparr>"

text \<open>The body of the loop over the distinct owners.\<close>

definition seal_shard ::
    "TxKey list \<Rightarrow> u16 list \<Rightarrow> u16 \<Rightarrow> TxKey list \<times> KeyRef list \<Rightarrow> (TxKey list \<times> KeyRef list) \<times> ShardData" where
  "seal_shard keys owners owner st =
     (let (grouped, refs) = st;
          key_begin = word_of_nat (length grouped) :: u16;
          grouped = grouped @ owned_keys keys owners owner;
          key_count = word_of_nat (length grouped - unat key_begin);
          lock_begin = word_of_nat (length refs) :: u16;
          refs = fold (\<lambda>key refs. take (unat lock_begin) refs @ merge_ref key (drop (unat lock_begin) refs))
                   (drop (unat key_begin) grouped) refs;
          lock_count = word_of_nat (length refs - unat lock_begin)
      in ((grouped, refs), blank_shard\<lparr>sd_shard_id := owner, sd_key_begin := key_begin, sd_key_count := key_count,
            sd_lock_begin := lock_begin, sd_lock_count := lock_count\<rparr>))"

fun seal_loop ::
    "TxKey list \<Rightarrow> u16 list \<Rightarrow> u16 list \<Rightarrow> TxKey list \<times> KeyRef list \<Rightarrow> (TxKey list \<times> KeyRef list) \<times> ShardData list" where
  "seal_loop keys owners [] st = (st, [])"
| "seal_loop keys owners (owner # rest) st =
     (let (st, sd) = seal_shard keys owners owner st; (st, sds) = seal_loop keys owners rest st in (st, sd # sds))"

definition lock_span :: "KeyRef list \<Rightarrow> ShardData \<Rightarrow> KeyRef list" where
  "lock_span refs sd = take (unat (sd_lock_count sd)) (drop (unat (sd_lock_begin sd)) refs)"

definition Seal :: "Transaction \<Rightarrow> Transaction option" where
  "Seal tx =
     (if tx_keys tx = [] then None
      else let ((grouped, refs), sds) = seal_loop (tx_keys tx) (tx_owners tx) (distinct_owners (tx_owners tx)) ([], tx_lock_refs tx) in
        Some (tx\<lparr>tx_keys := grouped, tx_lock_refs := refs,
                 tx_shards := map (\<lambda>(s, sd). sd\<lparr>sd_node_slot := word_of_nat s, sd_node_keys := lock_span refs sd\<rparr>)
                                (enumerate 0 sds)\<rparr>))"

definition Slice :: "Transaction \<Rightarrow> ShardData \<Rightarrow> TxKey list" where
  "Slice tx sd = take (unat (sd_key_count sd)) (drop (unat (sd_key_begin sd)) (tx_keys tx))"

definition single_shard :: "Transaction \<Rightarrow> bool" where
  "single_shard tx = (length (tx_shards tx) = 1)"

definition shard_ids :: "Transaction \<Rightarrow> u16 list" where
  "shard_ids tx = map sd_shard_id (tx_shards tx)"

section \<open>Rounds\<close>

definition InRound :: "ShardData \<Rightarrow> Phase \<Rightarrow> bool" where
  "InRound sd phase = (phase \<noteq> PhaseCancel \<or> \<not> sd_schedule_failed sd)"

definition RoundTargets :: "Transaction \<Rightarrow> Phase \<Rightarrow> u32" where
  "RoundTargets tx phase = fold (\<lambda>sd targets. targets + (if InRound sd phase then 1 else 0)) (tx_shards tx) 0"

text \<open>
  \<open>RoundAwaiter\<close>: a round without targets does not suspend. Otherwise the barrier is set
  before any shard is told, and every shard of the round gets the phase.
\<close>

definition start_round :: "Transaction \<Rightarrow> Phase \<Rightarrow> Transaction \<times> bool" where
  "start_round tx phase =
     (if RoundTargets tx phase = 0 then (tx, False)
      else (tx\<lparr>tx_barrier := RoundTargets tx phase,
               tx_shards := map (\<lambda>sd. if InRound sd phase then sd\<lparr>sd_phase := phase\<rparr> else sd) (tx_shards tx)\<rparr>, True))"

text \<open>\<open>CompleteShardRound\<close>: the decrement, and whether the coordinator is resumed.\<close>

definition CompleteShardRound :: "Transaction \<Rightarrow> Transaction \<times> bool" where
  "CompleteShardRound tx = (tx\<lparr>tx_barrier := tx_barrier tx - 1\<rparr>, tx_barrier tx = 1)"

text \<open>The check of \<open>Schedule\<close> after the schedule round, and the bookkeeping of a retry.\<close>

definition schedule_succeeded :: "Transaction \<Rightarrow> Transaction option" where
  "schedule_succeeded tx =
     (if \<exists>sd\<in>set (tx_shards tx). sd_schedule_failed sd then None else Some (tx\<lparr>tx_scheduled := True\<rparr>))"

definition schedule_retry :: "Transaction \<Rightarrow> Transaction" where
  "schedule_retry tx = tx\<lparr>tx_schedule_retries := tx_schedule_retries tx + 1\<rparr>"

text \<open>The result of a multi-shard \<open>Execute\<close>: the first status that is not ok.\<close>

fun first_failure :: "ShardData list \<Rightarrow> status option" where
  "first_failure [] = None"
| "first_failure (sd # sds) = (if sd_status sd \<noteq> None then sd_status sd else first_failure sds)"

definition SetShardStatus :: "Transaction \<Rightarrow> u16 \<Rightarrow> status option \<Rightarrow> Transaction option" where
  "SetShardStatus tx slot st =
     (if unat slot < length (tx_shards tx)
      then Some (tx\<lparr>tx_shards := (tx_shards tx)[unat slot := (tx_shards tx ! unat slot)\<lparr>sd_status := st\<rparr>]\<rparr>) else None)"

section \<open>The lock set of a slice\<close>

definition tk_id :: "TxKey \<Rightarrow> u8 \<times> u64" where
  "tk_id k = (tk_db k, tk_fp k)"

definition lock_set :: "TxKey list \<Rightarrow> KeyRef list" where
  "lock_set ks = fold merge_ref ks []"

text \<open>What a slice asks of each \<open>(db, fp)\<close>: nothing, shared, or exclusive if any key writes.\<close>

definition wanted_mode :: "TxKey list \<Rightarrow> u8 \<times> u64 \<Rightarrow> LockMode option" where
  "wanted_mode ks x =
     (if \<exists>k\<in>set ks. tk_id k = x
      then Some (if \<exists>k\<in>set ks. tk_id k = x \<and> tk_mode k = kExclusive then kExclusive else kShared) else None)"

lemma key_id_tk_id: "kr_fp r = tk_fp k \<and> kr_db r = tk_db k \<longleftrightarrow> key_id r = tk_id k"
  by (auto simp: key_id_def tk_id_def)

lemma merge_ref_ids: "set (map key_id (merge_ref k refs)) = insert (tk_id k) (set (map key_id refs))"
  by (induction refs) (auto simp: key_id_tk_id key_id_def tk_id_def)

lemma merge_ref_distinct: "distinct (map key_id refs) \<Longrightarrow> distinct (map key_id (merge_ref k refs))"
proof (induction refs)
  case (Cons r refs)
  have "key_id (r\<lparr>kr_mode := m\<rparr>) = key_id r" for m by (simp add: key_id_def)
  then show ?case using Cons merge_ref_ids [of k refs] by (auto simp: key_id_tk_id)
qed simp

lemma merge_ref_mode:
  "mode_in (merge_ref k refs) x =
     (if x = tk_id k
      then Some (case mode_in refs x of None \<Rightarrow> tk_mode k | Some m \<Rightarrow> if tk_mode k = kExclusive then kExclusive else m)
      else mode_in refs x)"
proof (induction refs)
  case Nil
  then show ?case by (auto simp: key_id_def tk_id_def)
next
  case (Cons r refs)
  have "key_id (r\<lparr>kr_mode := m\<rparr>) = key_id r" for m by (simp add: key_id_def)
  then show ?case using Cons by (auto simp: key_id_tk_id)
qed

lemma length_merge_ref: "length refs \<le> length (merge_ref k refs) \<and> length (merge_ref k refs) \<le> Suc (length refs)"
  by (induction refs) auto

lemma lock_set_snoc [simp]: "lock_set [] = []" "lock_set (ks @ [k]) = merge_ref k (lock_set ks)"
  by (simp_all add: lock_set_def)

lemma lock_set_length: "length (lock_set ks) \<le> length ks"
proof (induction ks rule: rev_induct)
  case (snoc k ks)
  then show ?case using length_merge_ref [of "lock_set ks" k] by simp
qed simp

lemma lock_set_correct:
  "distinct (map key_id (lock_set ks))" "mode_in (lock_set ks) x = wanted_mode ks x"
  "set (map key_id (lock_set ks)) = tk_id ` set ks"
proof (induction ks rule: rev_induct)
  case (snoc k ks)
  {
    case 1
    then show ?case using snoc by (simp add: merge_ref_distinct)
  next
    case 2
    have "tk_mode k = kShared \<or> tk_mode k = kExclusive" using LockMode.exhaust by blast
    then show ?case using snoc by (auto simp: merge_ref_mode wanted_mode_def)
  next
    case 3
    then show ?case using snoc merge_ref_ids [of k "lock_set ks"] by simp
  }
qed (simp_all add: wanted_mode_def)

section \<open>Sealing within the 16-bit range\<close>

lemma fold_merge_suffix:
  "fold (\<lambda>key refs. take (length pre) refs @ merge_ref key (drop (length pre) refs)) ks (pre @ seg) =
     pre @ fold merge_ref ks seg"
  by (induction ks arbitrary: seg) simp_all

lemma unat_word16: "n < 65536 \<Longrightarrow> unat (word_of_nat n :: u16) = n"
  by (simp add: unat_of_nat)

lemma seal_shard_correct:
  assumes "length grouped + length (owned_keys keys owners ow) < 65536" "length refs + length (owned_keys keys owners ow) < 65536"
  defines "ks \<equiv> owned_keys keys owners ow"
  shows "seal_shard keys owners ow (grouped, refs) =
    ((grouped @ ks, refs @ lock_set ks),
     blank_shard\<lparr>sd_shard_id := ow, sd_key_begin := word_of_nat (length grouped), sd_key_count := word_of_nat (length ks),
       sd_lock_begin := word_of_nat (length refs), sd_lock_count := word_of_nat (length (lock_set ks))\<rparr>)"
proof -
  have "unat (word_of_nat (length grouped) :: u16) = length grouped" "unat (word_of_nat (length refs) :: u16) = length refs"
    using assms by (auto intro!: unat_word16)
  then show ?thesis
    using fold_merge_suffix [of refs ks "[]"]
    by (simp add: seal_shard_def Let_def ks_def [symmetric] lock_set_def)
qed

lemma seal_loop_correct:
  fixes keys owners
  defines "own \<equiv> owned_keys keys owners"
  assumes "length grouped + length (concat (map own ows)) < 65536" "length refs + length (concat (map own ows)) < 65536"
  shows "\<exists>sds. seal_loop keys owners ows (grouped, refs) =
      ((grouped @ concat (map own ows), refs @ concat (map (\<lambda>ow. lock_set (own ow)) ows)), sds) \<and> map sd_shard_id sds = ows \<and>
    (\<forall>sd\<in>set sds. take (unat (sd_key_count sd)) (drop (unat (sd_key_begin sd)) (grouped @ concat (map own ows))) = own (sd_shard_id sd) \<and>
       lock_span (refs @ concat (map (\<lambda>ow. lock_set (own ow)) ows)) sd = lock_set (own (sd_shard_id sd)))"
  using assms(2-)
proof (induction ows arbitrary: grouped refs)
  case (Cons ow ows)
  let ?sd = "blank_shard\<lparr>sd_shard_id := ow, sd_key_begin := word_of_nat (length grouped), sd_key_count := word_of_nat (length (own ow)),
       sd_lock_begin := word_of_nat (length refs), sd_lock_count := word_of_nat (length (lock_set (own ow)))\<rparr>"
  have s: "seal_shard keys owners ow (grouped, refs) = ((grouped @ own ow, refs @ lock_set (own ow)), ?sd)"
    using Cons.prems seal_shard_correct [of grouped keys owners ow refs] by (simp add: own_def)
  have le: "length (lock_set (own ow)) \<le> length (own ow)" by (rule lock_set_length)
  have room: "length (grouped @ own ow) + length (concat (map own ows)) < 65536"
      "length (refs @ lock_set (own ow)) + length (concat (map own ows)) < 65536"
    using Cons.prems le by simp_all
  obtain sds where sds: "seal_loop keys owners ows (grouped @ own ow, refs @ lock_set (own ow)) =
      ((grouped @ own ow @ concat (map own ows), refs @ lock_set (own ow) @ concat (map (\<lambda>ow. lock_set (own ow)) ows)), sds)"
      "map sd_shard_id sds = ows"
      "\<forall>sd\<in>set sds. take (unat (sd_key_count sd)) (drop (unat (sd_key_begin sd)) (grouped @ own ow @ concat (map own ows))) = own (sd_shard_id sd) \<and>
         lock_span (refs @ lock_set (own ow) @ concat (map (\<lambda>ow. lock_set (own ow)) ows)) sd = lock_set (own (sd_shard_id sd))"
    using Cons.IH [of "grouped @ own ow" "refs @ lock_set (own ow)", OF room] by (elim exE conjE) (simp only: append_assoc)
  have "unat (word_of_nat (length grouped) :: u16) = length grouped" "unat (word_of_nat (length refs) :: u16) = length refs"
    "unat (word_of_nat (length (own ow)) :: u16) = length (own ow)"
    "unat (word_of_nat (length (lock_set (own ow))) :: u16) = length (lock_set (own ow))"
    using Cons.prems le by (auto intro!: unat_word16)
  then have "take (unat (sd_key_count ?sd)) (drop (unat (sd_key_begin ?sd)) (grouped @ own ow @ concat (map own ows))) = own ow"
    "lock_span (refs @ lock_set (own ow) @ concat (map (\<lambda>ow. lock_set (own ow)) ows)) ?sd = lock_set (own ow)"
    by (simp_all add: lock_span_def)
  then show ?case using s sds by simp
qed simp

lemma distinct_owners_snoc:
  "distinct_owners [] = []"
  "distinct_owners (owners @ [ow]) =
     (if ow \<in> set (distinct_owners owners) then distinct_owners owners else distinct_owners owners @ [ow])"
  by (simp_all add: distinct_owners_def)

lemma distinct_owners_correct: "distinct (distinct_owners owners)" "set (distinct_owners owners) = set owners"
  by (induction owners rule: rev_induct) (auto simp: distinct_owners_snoc)

lemma in_map_enumerate:
  assumes "y \<in> set (map f (enumerate n xs))"
  obtains i x where "x \<in> set xs" "y = f (i, x)"
proof -
  obtain ix where "ix \<in> set (enumerate n xs)" "y = f ix" using assms by auto
  moreover from this have "snd ix \<in> set xs" by (metis image_eqI map_snd_enumerate set_map)
  ultimately show thesis using that [of "snd ix" "fst ix"] by simp
qed

text \<open>The slices partition the keys, so together they are no longer than the key list.\<close>

lemma partition_length:
  "distinct ows \<Longrightarrow> (\<Sum>ow\<leftarrow>ows. length (filter (\<lambda>ko. snd ko = ow) xs)) \<le> length xs"
proof (induction xs)
  case (Cons x xs)
  have "(\<Sum>ow\<leftarrow>ows. if snd x = ow then Suc (length (filter (\<lambda>ko. snd ko = ow) xs)) else length (filter (\<lambda>ko. snd ko = ow) xs)) =
      (\<Sum>ow\<leftarrow>ows. length (filter (\<lambda>ko. snd ko = ow) xs)) + (\<Sum>ow\<leftarrow>ows. if snd x = ow then 1 else 0)"
    unfolding sum_list_addf [symmetric] by (rule arg_cong [where f = sum_list]) (rule map_cong, auto)
  moreover have "(\<Sum>ow\<leftarrow>ows. if snd x = ow then 1 else 0) \<le> (1 :: nat)"
    using Cons.prems by (induction ows) auto
  ultimately show ?case using Cons by (simp add: if_distrib [where f = length] cong: if_cong)
qed simp

lemma owned_keys_total:
  "distinct ows \<Longrightarrow> length (concat (map (owned_keys keys owners) ows)) \<le> length keys"
  using partition_length [of ows "zip keys owners"] by (simp add: length_concat owned_keys_def comp_def)

lemma owned_keys_replicate: "length ks = n \<Longrightarrow> owned_keys ks (replicate n ow) ow = ks"
  by (induction ks arbitrary: n) (auto simp: owned_keys_def)

lemma distinct_owners_replicate: "0 < n \<Longrightarrow> distinct_owners (replicate n ow) = [ow]"
proof -
  have "fold (\<lambda>owner acc. if owner \<in> set acc then acc else acc @ [owner]) (replicate m ow) [ow] = [ow]" for m
    by (induction m) simp_all
  then show "0 < n \<Longrightarrow> distinct_owners (replicate n ow) = [ow]" by (cases n) (simp_all add: distinct_owners_def del: fold_replicate)
qed

section \<open>The barrier\<close>

lemma RoundTargets_count:
  assumes "length (tx_shards tx) < 2 ^ 32"
  shows "unat (RoundTargets tx phase) = length (filter (\<lambda>sd. InRound sd phase) (tx_shards tx))"
proof -
  have f: "fold (\<lambda>sd targets. targets + (if InRound sd phase then 1 else 0)) sds n =
      n + word_of_nat (length (filter (\<lambda>sd. InRound sd phase) sds))" for sds and n :: u32
    by (induction sds arbitrary: n) simp_all
  have "length (filter (\<lambda>sd. InRound sd phase) (tx_shards tx)) < 2 ^ 32"
    using assms length_filter_le [of "\<lambda>sd. InRound sd phase" "tx_shards tx"] by linarith
  then show ?thesis unfolding RoundTargets_def f by (simp add: unat_of_nat)
qed

definition completions :: "nat \<Rightarrow> Transaction \<Rightarrow> Transaction" where
  "completions n tx = ((\<lambda>tx. fst (CompleteShardRound tx)) ^^ n) tx"

lemma completions_barrier: "n \<le> unat (tx_barrier tx) \<Longrightarrow> unat (tx_barrier (completions n tx)) = unat (tx_barrier tx) - n"
proof (induction n)
  case (Suc n)
  then have "tx_barrier (completions n tx) \<noteq> 0" by (auto simp: unat_eq_zero [symmetric])
  then show ?case using Suc by (simp add: completions_def CompleteShardRound_def unat_minus_one_pos)
qed (simp add: completions_def)

section \<open>Properties\<close>

text \<open>
  (C21) Sealing. For a transaction with fewer than 65536 keys, \<open>Seal\<close> builds one shard entry per
  distinct owner in first-use order. Each entry's slice is exactly the keys of that owner in
  argument order, duplicates included, and its lock set has one reference per
  \<open>(db, fingerprint)\<close> of the slice, exclusive exactly when some key of the slice writes it.
\<close>

theorem seal_correct:
  assumes "tx_keys tx \<noteq> []" "tx_lock_refs tx = []" "length (tx_keys tx) < 65536"
  shows "\<exists>t. Seal tx = Some t \<and> shard_ids t = distinct_owners (tx_owners tx) \<and>
    (\<forall>sd\<in>set (tx_shards t).
       Slice t sd = owned_keys (tx_keys tx) (tx_owners tx) (sd_shard_id sd) \<and>
       distinct (map key_id (sd_node_keys sd)) \<and>
       (\<forall>x. mode_in (sd_node_keys sd) x = wanted_mode (Slice t sd) x))"
proof -
  let ?own = "owned_keys (tx_keys tx) (tx_owners tx)" and ?ows = "distinct_owners (tx_owners tx)"
  have le: "length (concat (map ?own ?ows)) < 65536"
    using owned_keys_total [OF distinct_owners_correct(1), of "tx_keys tx" "tx_owners tx" "tx_owners tx"] assms(3) by linarith
  obtain sds where sds: "seal_loop (tx_keys tx) (tx_owners tx) ?ows ([], []) =
      ((concat (map ?own ?ows), concat (map (\<lambda>ow. lock_set (?own ow)) ?ows)), sds)" "map sd_shard_id sds = ?ows"
      "\<forall>sd\<in>set sds. take (unat (sd_key_count sd)) (drop (unat (sd_key_begin sd)) (concat (map ?own ?ows))) = ?own (sd_shard_id sd) \<and>
         lock_span (concat (map (\<lambda>ow. lock_set (?own ow)) ?ows)) sd = lock_set (?own (sd_shard_id sd))"
    using seal_loop_correct [of "[]" "tx_keys tx" "tx_owners tx" ?ows "[]", unfolded append_Nil list.size add_0, OF le le]
    by (elim exE conjE) (rule that)
  let ?f = "\<lambda>(s, sd). sd\<lparr>sd_node_slot := word_of_nat s, sd_node_keys := lock_span (concat (map (\<lambda>ow. lock_set (?own ow)) ?ows)) sd\<rparr>"
  let ?t = "tx\<lparr>tx_keys := concat (map ?own ?ows), tx_lock_refs := concat (map (\<lambda>ow. lock_set (?own ow)) ?ows),
      tx_shards := map ?f (enumerate 0 sds)\<rparr>"
  have A: "Seal tx = Some ?t" using assms(1,2) sds(1) by (simp add: Seal_def)
  have "map sd_shard_id (map ?f (enumerate 0 sds)) = map sd_shard_id sds"
    by (rule nth_equalityI) (simp_all add: nth_enumerate_eq)
  then have B: "shard_ids ?t = ?ows" using sds(2) by (simp add: shard_ids_def)
  have C: "Slice ?t sd = ?own (sd_shard_id sd) \<and> distinct (map key_id (sd_node_keys sd)) \<and>
      (\<forall>x. mode_in (sd_node_keys sd) x = wanted_mode (Slice ?t sd) x)" if sd: "sd \<in> set (tx_shards ?t)" for sd
  proof -
    have f: "tx_shards ?t = map ?f (enumerate 0 sds)" "tx_keys ?t = concat (map ?own ?ows)" by simp_all
    have "sd \<in> set (map ?f (enumerate 0 sds))" using sd unfolding f(1) .
    then obtain i u where u: "u \<in> set sds" "sd = ?f (i, u)" by (rule in_map_enumerate)
    note spec = bspec [OF sds(3) u(1)]
    have "sd_shard_id sd = sd_shard_id u" "sd_key_count sd = sd_key_count u" "sd_key_begin sd = sd_key_begin u"
      "sd_node_keys sd = lock_set (?own (sd_shard_id u))"
      using spec unfolding u(2) by simp_all
    then have "Slice ?t sd = ?own (sd_shard_id sd)" "sd_node_keys sd = lock_set (?own (sd_shard_id sd))"
      using spec by (simp_all only: Slice_def f(2))
    then show ?thesis by (simp only: lock_set_correct simp_thms)
  qed
  show ?thesis by (rule exI [of _ ?t], rule conjI, fact A, rule conjI, fact B, rule ballI, rule C)
qed

definition demo_transaction :: Transaction where
  "demo_transaction = new_transaction\<lparr>
     tx_keys := [\<lparr>tk_digest = 5, tk_fp = 5, tk_arg_index = 1, tk_mode = kShared, tk_db = 0\<rparr>,
                 \<lparr>tk_digest = 5, tk_fp = 5, tk_arg_index = 2, tk_mode = kExclusive, tk_db = 0\<rparr>,
                 \<lparr>tk_digest = 6, tk_fp = 6, tk_arg_index = 3, tk_mode = kShared, tk_db = 0\<rparr>],
     tx_owners := [1, 1, 2]\<rparr>"

theorem seal_correct_witness:
  "\<exists>t. Seal demo_transaction = Some t \<and> shard_ids t = [1, 2]"
  using seal_correct [of demo_transaction]
  by (auto simp: demo_transaction_def new_transaction_def distinct_owners_def)


text \<open>
  (C23) The 16-bit counts of \<open>Seal\<close> wrap. A transaction with 65536 keys of one owner and
  pairwise different lock ids is sealed without an error, but the entry's key count and lock
  count are both 0: its slice is empty and it locks nothing.
\<close>

theorem seal_wraps_at_65536:
  assumes "length (tx_keys tx) = 65536" "tx_owners tx = replicate 65536 ow" "tx_lock_refs tx = []"
    and "distinct (map tk_id (tx_keys tx))"
  shows "\<exists>t sd. Seal tx = Some t \<and> tx_shards t = [sd] \<and> Slice t sd = [] \<and> sd_node_keys sd = [] \<and> length (tx_keys t) = 65536"
proof -
  let ?ks = "tx_keys tx"
  have own: "owned_keys ?ks (tx_owners tx) ow = ?ks" unfolding assms(2) by (rule owned_keys_replicate [OF assms(1)])
  have ows: "distinct_owners (tx_owners tx) = [ow]" unfolding assms(2) by (rule distinct_owners_replicate) simp
  have len: "length (lock_set ?ks) = 65536"
    using lock_set_correct(1) [of ?ks] lock_set_correct(3) [of ?ks] assms(1,4)
    by (metis distinct_card length_map list.set_map)
  let ?sd = "blank_shard\<lparr>sd_shard_id := ow, sd_key_begin := 0, sd_key_count := 0, sd_lock_begin := 0, sd_lock_count := 0\<rparr>"
  have z: "(word_of_nat 65536 :: u16) = 0" by simp
  have "seal_shard ?ks (tx_owners tx) ow ([], []) = ((?ks, lock_set ?ks), ?sd)"
    using fold_merge_suffix [of "[]" ?ks "[]"] len assms(1)
    by (simp add: seal_shard_def own lock_set_def [symmetric])
  then have "seal_loop ?ks (tx_owners tx) (distinct_owners (tx_owners tx)) ([], []) = ((?ks, lock_set ?ks), [?sd])"
    by (simp add: ows)
  then show ?thesis using assms(1,3) by (auto simp: Seal_def Slice_def lock_span_def)
qed

definition wide_transaction :: Transaction where
  "wide_transaction = new_transaction\<lparr>
     tx_keys := map (\<lambda>n. \<lparr>tk_digest = word_of_nat n, tk_fp = word_of_nat n, tk_arg_index = 0, tk_mode = kExclusive, tk_db = 0\<rparr>)
                  [0..<65536],
     tx_owners := replicate 65536 3\<rparr>"

theorem seal_wraps_at_65536_witness:
  "\<exists>t sd. Seal wide_transaction = Some t \<and> tx_shards t = [sd] \<and> Slice t sd = [] \<and> sd_node_keys sd = [] \<and> length (tx_keys t) = 65536"
proof (rule seal_wraps_at_65536)
  have "inj_on (\<lambda>n. word_of_nat n :: u64) {0..<65536}"
    by (intro inj_onI) (auto simp: word_of_nat_eq_iff take_bit_nat_eq_self)
  then show "distinct (map tk_id (tx_keys wide_transaction))"
    by (auto simp: wide_transaction_def tk_id_def distinct_map inj_on_def)
qed (simp_all only: wide_transaction_def new_transaction_def Transaction.simps length_map length_upt diff_zero)


text \<open>
  (C40) The round barrier. A round over a set of shards suspends the coordinator exactly when it
  has a target; of the completions that follow, exactly the last one, the one of the last
  shard of the round, resumes the coordinator.
\<close>

theorem round_resumes_once:
  assumes "length (tx_shards tx) < 2 ^ 32" "start_round tx phase = (t, True)"
    and "n < length (filter (\<lambda>sd. InRound sd phase) (tx_shards tx))"
  shows "snd (CompleteShardRound (completions n t)) \<longleftrightarrow>
    Suc n = length (filter (\<lambda>sd. InRound sd phase) (tx_shards tx))"
proof -
  let ?k = "length (filter (\<lambda>sd. InRound sd phase) (tx_shards tx))"
  have b: "unat (tx_barrier t) = ?k"
    using assms(2) RoundTargets_count [OF assms(1), of phase] by (auto simp: start_round_def split: if_splits)
  have "unat (tx_barrier (completions n t)) = ?k - n" using completions_barrier [of n t] b assms(3) by simp
  then show ?thesis
    using assms(3) by (auto simp: CompleteShardRound_def word_eq_one_iff_unat)
qed

theorem round_resumes_once_witness:
  "snd (CompleteShardRound (completions 1 (fst (start_round (new_transaction\<lparr>tx_shards := [blank_shard, blank_shard]\<rparr>) PhaseArm))))"
  using round_resumes_once [of "new_transaction\<lparr>tx_shards := [blank_shard, blank_shard]\<rparr>" PhaseArm
      "fst (start_round (new_transaction\<lparr>tx_shards := [blank_shard, blank_shard]\<rparr>) PhaseArm)" 1]
  by (simp add: start_round_def RoundTargets_def InRound_def new_transaction_def)


end
