(* ===== verification/Topology.thy ===== *)
theory Topology
  imports Prelude "HOL-Library.Option_ord" "HOL-Library.List_Lexorder" "HOL-Library.Char_ord"
begin

text \<open>
  The committed routing snapshot of the cluster data plane,
  \<^verbatim>\<open>src/cluster/topology.cpp\<close> and \<^verbatim>\<open>include/lavik/cluster/topology.h\<close>, with the 128-bit
  identities of \<^verbatim>\<open>include/lavik/cluster/control_types.h\<close>. An identity that may be empty is
  an optional byte list; its order (empty first, then lexicographic) is the order of the
  library on options and lists. In-flight cells are handles into a store of striped
  counters, so that snapshots that share a cell hold the same handle.
\<close>

unbundle bit_operations_syntax

section \<open>Identities\<close>

type_synonym NodeId = "bytes option"
type_synonym ControlId128 = "bytes option"

definition nibble :: "char \<Rightarrow> u8 option" where
  "nibble c =
     (if of_char CHR ''0'' \<le> (of_char c :: nat) \<and> of_char c \<le> (of_char CHR ''9'' :: nat)
      then Some (word_of_nat (of_char c - of_char CHR ''0''))
      else if of_char CHR ''a'' \<le> (of_char c :: nat) \<and> of_char c \<le> (of_char CHR ''f'' :: nat)
      then Some (word_of_nat (of_char c - of_char CHR ''a'' + 10))
      else None)"

text \<open>The byte loop shared by both \<open>Parse\<close> functions; an odd tail cannot occur there.\<close>

fun parse_pairs :: "string \<Rightarrow> bytes option" where
  "parse_pairs (h # l # rest) =
     (case (nibble h, nibble l) of
        (Some high, Some low) \<Rightarrow>
          (case parse_pairs rest of None \<Rightarrow> None | Some bs \<Rightarrow> Some ((push_bit 4 high OR low) # bs))
      | _ \<Rightarrow> None)"
| "parse_pairs [] = Some []"
| "parse_pairs [c] = None"

definition NodeId_Parse :: "string \<Rightarrow> NodeId option" where
  "NodeId_Parse hex = (if length hex \<noteq> 40 then None else map_option Some (parse_pairs hex))"

definition ControlId128_Parse :: "string \<Rightarrow> ControlId128 option" where
  "ControlId128_Parse hex = (if length hex \<noteq> 32 then None else map_option Some (parse_pairs hex))"

definition kHexDigits :: string where
  "kHexDigits = ''0123456789abcdef''"

fun hex_pairs :: "bytes \<Rightarrow> string" where
  "hex_pairs [] = []"
| "hex_pairs (b # bs) = kHexDigits ! unat (drop_bit 4 b) # kHexDigits ! unat (b AND 0x0f) # hex_pairs bs"

definition ToHex :: "NodeId \<Rightarrow> string option" where
  "ToHex i = map_option hex_pairs i"

definition ToHexString :: "NodeId \<Rightarrow> string" where
  "ToHexString i = (case ToHex i of None \<Rightarrow> [] | Some hex \<Rightarrow> hex)"

definition AppendHexTo :: "NodeId \<Rightarrow> string \<Rightarrow> string" where
  "AppendHexTo i out = (case ToHex i of None \<Rightarrow> out | Some hex \<Rightarrow> out @ hex)"

section \<open>Snapshot data\<close>

definition kSlotCount :: nat where
  "kSlotCount = 16384"

definition kNoNodeIndex :: u32 where
  "kNoNodeIndex = - 1"

definition kNoGroupIndex :: u16 where
  "kNoGroupIndex = - 1"

record NodeDescriptor =
  nd_node_id :: NodeId
  nd_link_connected :: bool
  nd_port :: u16
  nd_tls_port :: u16
  nd_primary_node_index :: u32
  nd_group_term :: u64
  nd_host :: string

definition is_primary :: "NodeDescriptor \<Rightarrow> bool" where
  "is_primary n = (nd_primary_node_index n = kNoNodeIndex)"

record SlotRange =
  sr_first :: u16
  sr_last :: u16

record GroupView =
  gv_group_id :: string
  gv_primary_node_index :: u32
  gv_assignment_id :: ControlId128
  gv_granted :: bool
  gv_population_ready :: bool
  gv_storage_ready :: bool
  gv_mutations_paused :: bool
  gv_group_term :: u64
  gv_manifest_revision :: u64
  gv_replica_node_indices :: "u32 list"
  gv_slot_ranges :: "SlotRange list"

text \<open>
  \<open>ss_address\<close> stands for the address of the immutable snapshot object, so that equal records
  are equal pointers.
\<close>

record ServingState =
  ss_address :: nat
  ss_topology_epoch :: u64
  ss_max_group_term :: u64
  ss_content_hash :: u64
  ss_nodes :: "NodeDescriptor list"
  ss_groups :: "GroupView list"
  ss_self_node_index :: u32
  ss_slot_to_group :: "u16 list"
  ss_covered_slots :: u32
  ss_in_flight_stripe_count :: nat
  ss_group_tokens :: "u64 list"
  ss_in_flight_cells :: "nat list"

section \<open>Hashing\<close>

definition kFnv1aOffsetBasis :: u64 where
  "kFnv1aOffsetBasis = 14695981039346656037"

definition kFnv1aPrime :: u64 where
  "kFnv1aPrime = 1099511628211"

definition HashByte :: "u64 \<Rightarrow> u8 \<Rightarrow> u64" where
  "HashByte hash byte = (hash XOR ucast byte) * kFnv1aPrime"

fun hash_u64_loop :: "nat \<Rightarrow> u64 \<Rightarrow> u64 \<Rightarrow> u64" where
  "hash_u64_loop 0 hash v = hash"
| "hash_u64_loop (Suc i) hash v = hash_u64_loop i (HashByte hash (ucast (v AND 0xFF))) (drop_bit 8 v)"

definition HashU64 :: "u64 \<Rightarrow> u64 \<Rightarrow> u64" where
  "HashU64 hash v = hash_u64_loop 8 hash v"

definition HashBool :: "u64 \<Rightarrow> bool \<Rightarrow> u64" where
  "HashBool hash v = HashByte hash (if v then 1 else 0)"

definition HashString :: "u64 \<Rightarrow> string \<Rightarrow> u64" where
  "HashString hash v =
     fold (\<lambda>c hash. HashByte hash (word_of_nat (of_char c))) v (HashU64 hash (word_of_nat (length v)))"

definition HashNodeId :: "u64 \<Rightarrow> NodeId \<Rightarrow> u64" where
  "HashNodeId hash i =
     (let hash = HashBool hash (i \<noteq> None) in
      case i of None \<Rightarrow> hash | Some bs \<Rightarrow> fold (\<lambda>b hash. HashByte hash b) bs hash)"

definition HashAssignmentId :: "u64 \<Rightarrow> ControlId128 \<Rightarrow> u64" where
  "HashAssignmentId hash i =
     (let hash = HashBool hash (i \<noteq> None) in
      case i of None \<Rightarrow> hash | Some bs \<Rightarrow> fold (\<lambda>b hash. HashByte hash b) bs hash)"

definition node_at :: "NodeDescriptor list \<Rightarrow> u32 \<Rightarrow> NodeDescriptor option" where
  "node_at nodes i = (if i = kNoNodeIndex \<or> length nodes \<le> unat i then None else Some (nodes ! unat i))"

definition HashNodeReference :: "u64 \<Rightarrow> NodeDescriptor list \<Rightarrow> u32 \<Rightarrow> u64" where
  "HashNodeReference hash nodes i =
     (case node_at nodes i of None \<Rightarrow> HashBool hash False | Some node \<Rightarrow> HashNodeId hash (nd_node_id node))"

definition ComputeGroupToken :: "GroupView \<Rightarrow> NodeDescriptor list \<Rightarrow> u64" where
  "ComputeGroupToken g nodes =
     (let hash = kFnv1aOffsetBasis;
          hash = HashNodeReference hash nodes (gv_primary_node_index g);
          hash = HashAssignmentId hash (gv_assignment_id g);
          hash = HashU64 hash (gv_group_term g);
          hash = HashU64 hash (gv_manifest_revision g);
          hash = HashBool hash (gv_granted g);
          hash = HashBool hash (gv_population_ready g);
          hash = HashBool hash (gv_storage_ready g)
      in if hash = 0 then 1 else hash)"

definition hash_node :: "NodeDescriptor list \<Rightarrow> NodeDescriptor \<Rightarrow> u64 \<Rightarrow> u64" where
  "hash_node nodes node hash =
     (let hash = HashNodeId hash (nd_node_id node);
          hash = HashString hash (nd_host node);
          hash = HashU64 hash (ucast (nd_port node));
          hash = HashU64 hash (ucast (nd_tls_port node));
          hash = HashBool hash (is_primary node);
          hash = HashNodeReference hash nodes (nd_primary_node_index node);
          hash = HashU64 hash (nd_group_term node)
      in HashBool hash (nd_link_connected node))"

definition hash_group :: "NodeDescriptor list \<Rightarrow> GroupView \<Rightarrow> u64 \<Rightarrow> u64" where
  "hash_group nodes g hash =
     (let hash = HashString hash (gv_group_id g);
          hash = HashNodeReference hash nodes (gv_primary_node_index g);
          hash = HashAssignmentId hash (gv_assignment_id g);
          replicas = sort (map (\<lambda>i. nd_node_id (nodes ! unat i)) (gv_replica_node_indices g));
          hash = HashU64 hash (word_of_nat (length replicas));
          hash = fold (\<lambda>r hash. HashNodeId hash r) replicas hash;
          hash = HashU64 hash (gv_group_term g);
          hash = HashU64 hash (gv_manifest_revision g);
          hash = HashBool hash (gv_granted g);
          hash = HashBool hash (gv_population_ready g);
          hash = HashBool hash (gv_storage_ready g)
      in HashBool hash (gv_mutations_paused g))"

definition hash_slot :: "GroupView list \<Rightarrow> u16 list \<Rightarrow> nat \<Rightarrow> u64 \<Rightarrow> u64" where
  "hash_slot groups slots slot hash =
     (if slots ! slot = kNoGroupIndex then hash
      else HashString (HashU64 hash (word_of_nat slot)) (gv_group_id (groups ! unat (slots ! slot))))"

definition ComputeContentHash ::
    "u64 \<Rightarrow> u64 \<Rightarrow> u32 \<Rightarrow> NodeDescriptor list \<Rightarrow> GroupView list \<Rightarrow> u16 list \<Rightarrow> u64" where
  "ComputeContentHash epoch max_term self_index nodes groups slots =
     (let hash = HashU64 (HashU64 kFnv1aOffsetBasis epoch) max_term;
          hash = HashNodeReference hash nodes self_index;
          hash = HashU64 hash (word_of_nat (length nodes));
          hash = fold (hash_node nodes) (sort_key nd_node_id nodes) hash;
          hash = HashU64 hash (word_of_nat (length groups));
          hash = fold (hash_group nodes) (sort_key gv_group_id groups) hash
      in fold (hash_slot groups slots) [0..<kSlotCount] hash)"

section \<open>Reading a snapshot\<close>

definition NodeAt :: "ServingState \<Rightarrow> u32 \<Rightarrow> NodeDescriptor option" where
  "NodeAt st i =
     (if i = kNoNodeIndex \<or> length (ss_nodes st) \<le> unat i then None else Some (ss_nodes st ! unat i))"

definition Self :: "ServingState \<Rightarrow> NodeDescriptor option" where
  "Self st = NodeAt st (ss_self_node_index st)"

definition FindNode :: "ServingState \<Rightarrow> NodeId \<Rightarrow> NodeDescriptor option" where
  "FindNode st node_id = find (\<lambda>n. nd_node_id n = node_id) (ss_nodes st)"

text \<open>A \<open>GroupView*\<close> is used both for the group and for its index in \<open>groups_\<close>.\<close>

fun find_group_index :: "string \<Rightarrow> GroupView list \<Rightarrow> nat option" where
  "find_group_index group_id [] = None"
| "find_group_index group_id (g # gs) =
     (if gv_group_id g = group_id then Some 0 else map_option Suc (find_group_index group_id gs))"

definition FindGroup :: "ServingState \<Rightarrow> string \<Rightarrow> GroupView option" where
  "FindGroup st group_id = map_option (\<lambda>i. ss_groups st ! i) (find_group_index group_id (ss_groups st))"

definition GroupForSlot :: "ServingState \<Rightarrow> u16 \<Rightarrow> GroupView option" where
  "GroupForSlot st slot =
     (if kSlotCount \<le> unat slot then None
      else let group_index = ss_slot_to_group st ! unat slot in
        if group_index = kNoGroupIndex then None else Some (ss_groups st ! unat group_index))"

definition FullyReady :: "ServingState \<Rightarrow> bool" where
  "FullyReady st = list_all (\<lambda>g. gv_storage_ready g \<and> gv_population_ready g) (ss_groups st)"

definition AuthorityToken :: "ServingState \<Rightarrow> string \<Rightarrow> u64" where
  "AuthorityToken st group_id =
     (case find_group_index group_id (ss_groups st) of None \<Rightarrow> 0 | Some i \<Rightarrow> ss_group_tokens st ! i)"

definition AuthorityTokenForSlot :: "ServingState \<Rightarrow> u16 \<Rightarrow> u64" where
  "AuthorityTokenForSlot st slot =
     (if kSlotCount \<le> unat slot then 0
      else let group_index = ss_slot_to_group st ! unat slot in
        if group_index = kNoGroupIndex then 0 else ss_group_tokens st ! unat group_index)"

text \<open>
  \<open>InFlightCellForSlot\<close> indexes the slot array without the range test of its siblings;
  the outer \<^const>\<open>None\<close> is the access outside the array.
\<close>

definition InFlightCellForSlot :: "ServingState \<Rightarrow> u16 \<Rightarrow> nat option option" where
  "InFlightCellForSlot st slot =
     (if kSlotCount \<le> unat slot then None
      else let index = ss_slot_to_group st ! unat slot in
        Some (if index = kNoGroupIndex then None else Some (ss_in_flight_cells st ! unat index)))"

section \<open>In-flight cells\<close>

text \<open>
  One cell is the list of its stripes. \<open>Enter\<close> and \<open>Exit\<close> touch the stripe of the calling
  worker and fail on the assertion that it exists, \<open>Total\<close> adds the stripes up.
\<close>

type_synonym GroupInFlight = "u64 list"
type_synonym cells = "nat \<Rightarrow> GroupInFlight"

definition Enter :: "nat \<Rightarrow> GroupInFlight \<Rightarrow> GroupInFlight option" where
  "Enter stripe c = (if stripe < length c then Some (c[stripe := c ! stripe + 1]) else None)"

definition Exit :: "nat \<Rightarrow> GroupInFlight \<Rightarrow> GroupInFlight option" where
  "Exit stripe c = (if stripe < length c then Some (c[stripe := c ! stripe - 1]) else None)"

definition Total :: "GroupInFlight \<Rightarrow> u64" where
  "Total c = fold (\<lambda>s total. total + s) c 0"

definition GroupInFlightCount :: "cells \<Rightarrow> ServingState \<Rightarrow> string \<Rightarrow> u64" where
  "GroupInFlightCount cs st group_id =
     (case find_group_index group_id (ss_groups st) of
        None \<Rightarrow> 0 | Some i \<Rightarrow> Total (cs (ss_in_flight_cells st ! i)))"

definition TotalInFlightCount :: "cells \<Rightarrow> ServingState \<Rightarrow> u64" where
  "TotalInFlightCount cs st = fold (\<lambda>h total. total + Total (cs h)) (ss_in_flight_cells st) 0"

definition shared_cell :: "ServingState \<Rightarrow> ServingState \<Rightarrow> nat \<Rightarrow> nat" where
  "shared_cell previous st i =
     (let group_id = gv_group_id (ss_groups st ! i); token = AuthorityToken st group_id in
      case find_group_index group_id (ss_groups previous) of
        None \<Rightarrow> ss_in_flight_cells st ! i
      | Some j \<Rightarrow> if token \<noteq> AuthorityToken previous group_id then ss_in_flight_cells st ! i
                  else ss_in_flight_cells previous ! j)"

definition ShareInFlightCellsFrom :: "ServingState \<Rightarrow> ServingState \<Rightarrow> ServingState" where
  "ShareInFlightCellsFrom previous st =
     st\<lparr>ss_in_flight_cells := map (shared_cell previous st) [0..<length (ss_groups st)]\<rparr>"

section \<open>Building a snapshot\<close>

record ServingStateBuilder =
  sb_topology_epoch :: u64
  sb_max_group_term :: u64
  sb_self_node_index :: u32
  sb_in_flight_stripe_count :: nat
  sb_nodes :: "NodeDescriptor list"
  sb_groups :: "GroupView list"

definition new_builder :: ServingStateBuilder where
  "new_builder = \<lparr>sb_topology_epoch = 0, sb_max_group_term = 0, sb_self_node_index = kNoNodeIndex,
     sb_in_flight_stripe_count = 1, sb_nodes = [], sb_groups = []\<rparr>"

definition SetTopologyEpoch :: "u64 \<Rightarrow> ServingStateBuilder \<Rightarrow> ServingStateBuilder" where
  "SetTopologyEpoch epoch b = b\<lparr>sb_topology_epoch := epoch\<rparr>"

definition SetSelfNodeIndex :: "u32 \<Rightarrow> ServingStateBuilder \<Rightarrow> ServingStateBuilder" where
  "SetSelfNodeIndex i b = b\<lparr>sb_self_node_index := i\<rparr>"

definition IncludeGroupTerm :: "u64 \<Rightarrow> ServingStateBuilder \<Rightarrow> ServingStateBuilder" where
  "IncludeGroupTerm t b = b\<lparr>sb_max_group_term := max (sb_max_group_term b) t\<rparr>"

definition SetInFlightStripeCount :: "nat \<Rightarrow> ServingStateBuilder \<Rightarrow> ServingStateBuilder" where
  "SetInFlightStripeCount n b = b\<lparr>sb_in_flight_stripe_count := n\<rparr>"

definition AddNode :: "NodeDescriptor \<Rightarrow> ServingStateBuilder \<Rightarrow> ServingStateBuilder" where
  "AddNode n b = (let b = IncludeGroupTerm (nd_group_term n) b in b\<lparr>sb_nodes := sb_nodes b @ [n]\<rparr>)"

definition AddGroup :: "GroupView \<Rightarrow> ServingStateBuilder \<Rightarrow> ServingStateBuilder" where
  "AddGroup g b = (let b = IncludeGroupTerm (gv_group_term g) b in b\<lparr>sb_groups := sb_groups b @ [g]\<rparr>)"

fun add_range :: "string \<Rightarrow> SlotRange \<Rightarrow> GroupView list \<Rightarrow> GroupView list" where
  "add_range group_id r [] = []"
| "add_range group_id r (g # gs) =
     (if gv_group_id g = group_id then g\<lparr>gv_slot_ranges := gv_slot_ranges g @ [r]\<rparr> # gs
      else g # add_range group_id r gs)"

definition AddSlotRange :: "string \<Rightarrow> SlotRange \<Rightarrow> ServingStateBuilder \<Rightarrow> ServingStateBuilder" where
  "AddSlotRange group_id r b = b\<lparr>sb_groups := add_range group_id r (sb_groups b)\<rparr>"

text \<open>The duplicate search of \<open>Build\<close> compares neighbours of the sorted identities.\<close>

fun adjacent_equal :: "'a list \<Rightarrow> bool" where
  "adjacent_equal (x # y # zs) = (y = x \<or> adjacent_equal (y # zs))"
| "adjacent_equal _ = False"

definition primary_reference_ok :: "NodeDescriptor list \<Rightarrow> NodeDescriptor \<Rightarrow> bool" where
  "primary_reference_ok nodes n =
     (nd_primary_node_index n = kNoNodeIndex \<or>
      unat (nd_primary_node_index n) < length nodes \<and>
      is_primary (nodes ! unat (nd_primary_node_index n)))"

definition replica_ok :: "NodeDescriptor list \<Rightarrow> GroupView \<Rightarrow> u32 \<Rightarrow> bool" where
  "replica_ok nodes g i =
     (unat i < length nodes \<and>
      (let replica = nodes ! unat i in
       \<not> is_primary replica \<and> nd_primary_node_index replica = gv_primary_node_index g))"

definition group_nodes_ok :: "NodeDescriptor list \<Rightarrow> GroupView \<Rightarrow> bool" where
  "group_nodes_ok nodes g =
     (unat (gv_primary_node_index g) < length nodes \<and>
      is_primary (nodes ! unat (gv_primary_node_index g)) \<and>
      list_all (replica_ok nodes g) (gv_replica_node_indices g))"

type_synonym slot_map = "u16 list \<times> u32"

fun assign_slots :: "u16 \<Rightarrow> nat list \<Rightarrow> slot_map \<Rightarrow> slot_map status_or" where
  "assign_slots gi [] sm = Inr sm"
| "assign_slots gi (slot # slots) (m, covered) =
     (if m ! slot \<noteq> kNoGroupIndex then Inl InvalidArgument
      else assign_slots gi slots (m[slot := gi], covered + 1))"

fun assign_ranges :: "u16 \<Rightarrow> SlotRange list \<Rightarrow> slot_map \<Rightarrow> slot_map status_or" where
  "assign_ranges gi [] sm = Inr sm"
| "assign_ranges gi (r # rs) sm =
     (if sr_last r < sr_first r then Inl InvalidArgument
      else if kSlotCount \<le> unat (sr_last r) then Inl InvalidArgument
      else case assign_slots gi [unat (sr_first r)..<Suc (unat (sr_last r))] sm of
             Inl e \<Rightarrow> Inl e
           | Inr sm \<Rightarrow> assign_ranges gi rs sm)"

fun assign_groups :: "nat \<Rightarrow> GroupView list \<Rightarrow> slot_map \<Rightarrow> slot_map status_or" where
  "assign_groups gi [] sm = Inr sm"
| "assign_groups gi (g # gs) sm =
     (case assign_ranges (word_of_nat gi) (gv_slot_ranges g) sm of
        Inl e \<Rightarrow> Inl e
      | Inr sm \<Rightarrow> assign_groups (Suc gi) gs sm)"

definition check_nodes :: "ServingStateBuilder \<Rightarrow> unit status_or" where
  "check_nodes b =
     (if sb_in_flight_stripe_count b = 0 then Inl InvalidArgument
      else if list_ex (\<lambda>n. nd_node_id n = None) (sb_nodes b) then Inl InvalidArgument
      else if adjacent_equal (sort (map nd_node_id (sb_nodes b))) then Inl InvalidArgument
      else if sb_self_node_index b \<noteq> kNoNodeIndex \<and> length (sb_nodes b) \<le> unat (sb_self_node_index b)
      then Inl InvalidArgument
      else if \<not> list_all (primary_reference_ok (sb_nodes b)) (sb_nodes b) then Inl InvalidArgument
      else Inr ())"

definition check_groups :: "ServingStateBuilder \<Rightarrow> unit status_or" where
  "check_groups b =
     (if unat kNoGroupIndex < length (sb_groups b) then Inl ResourceExhausted
      else if list_ex (\<lambda>g. gv_group_id g = []) (sb_groups b) then Inl InvalidArgument
      else if adjacent_equal (sort (map gv_group_id (sb_groups b))) then Inl InvalidArgument
      else if \<not> list_all (group_nodes_ok (sb_nodes b)) (sb_groups b) then Inl InvalidArgument
      else Inr ())"

text \<open>
  \<open>Build\<close> allocates the snapshot and a fresh cell per group: \<open>fresh\<close> is the first unused handle.
\<close>

definition make_state :: "ServingStateBuilder \<Rightarrow> nat \<Rightarrow> slot_map \<Rightarrow> ServingState" where
  "make_state b fresh sm =
     \<lparr>ss_address = fresh,
      ss_topology_epoch = sb_topology_epoch b,
      ss_max_group_term = sb_max_group_term b,
      ss_content_hash = ComputeContentHash (sb_topology_epoch b) (sb_max_group_term b)
        (sb_self_node_index b) (sb_nodes b) (sb_groups b) (fst sm),
      ss_nodes = sb_nodes b,
      ss_groups = sb_groups b,
      ss_self_node_index = sb_self_node_index b,
      ss_slot_to_group = fst sm,
      ss_covered_slots = snd sm,
      ss_in_flight_stripe_count = sb_in_flight_stripe_count b,
      ss_group_tokens = map (\<lambda>g. ComputeGroupToken g (sb_nodes b)) (sb_groups b),
      ss_in_flight_cells = map (\<lambda>i. fresh + 1 + i) [0..<length (sb_groups b)]\<rparr>"

definition Build :: "ServingStateBuilder \<Rightarrow> nat \<Rightarrow> ServingState status_or" where
  "Build b fresh =
     (case check_nodes b of
        Inl e \<Rightarrow> Inl e
      | Inr _ \<Rightarrow>
     (case check_groups b of
        Inl e \<Rightarrow> Inl e
      | Inr _ \<Rightarrow>
     (case assign_groups 0 (sb_groups b) (replicate kSlotCount kNoGroupIndex, 0) of
        Inl e \<Rightarrow> Inl e
      | Inr sm \<Rightarrow> Inr (make_state b fresh sm))))"

section \<open>Publication\<close>

record TopologyCache =
  tc_current :: "ServingState option"
  tc_version :: u64
  tc_publication_sequence :: u64

definition Publish :: "ServingState option \<Rightarrow> TopologyCache \<Rightarrow> TopologyCache \<times> u64" where
  "Publish st c =
     (case (tc_current c, st) of
        (Some current, Some new) \<Rightarrow>
          if ss_content_hash current = ss_content_hash new then (c, tc_version c)
          else (c\<lparr>tc_current := Some (ShareInFlightCellsFrom current new),
                  tc_version := tc_version c + 1,
                  tc_publication_sequence := tc_publication_sequence c + 1 + 1\<rparr>, tc_version c + 1)
      | _ \<Rightarrow> (c\<lparr>tc_current := st,
               tc_version := tc_version c + 1,
               tc_publication_sequence := tc_publication_sequence c + 1 + 1\<rparr>, tc_version c + 1))"

section \<open>Redirection targets\<close>

definition PrimaryForSlot :: "ServingState \<Rightarrow> u16 \<Rightarrow> NodeDescriptor option" where
  "PrimaryForSlot st slot =
     (case GroupForSlot st slot of None \<Rightarrow> None | Some g \<Rightarrow> NodeAt st (gv_primary_node_index g))"

definition ClientPort :: "NodeDescriptor \<Rightarrow> bool \<Rightarrow> u16" where
  "ClientPort node tls = (if tls \<and> nd_tls_port node \<noteq> 0 then nd_tls_port node else nd_port node)"

section \<open>Identities print and parse\<close>

lemma less_16_cases:
  "(n :: nat) < 16 \<Longrightarrow> n \<in> {0, 1, 2, 3, 4, 5, 6, 7, 8, 9, 10, 11, 12, 13, 14, 15}"
  unfolding insert_iff empty_iff by presburger

lemma nibble_digit: "n < 16 \<Longrightarrow> nibble (kHexDigits ! n) = Some (word_of_nat n)"
  by (drule less_16_cases, elim insertE emptyE) (simp_all add: nibble_def kHexDigits_def)

lemma char_nibble_range:
  assumes "nibble c = Some v"
  shows "unat v < 16 \<and> kHexDigits ! unat v = c"
proof -
  define n :: nat where "n = of_char c"
  have "n \<in> {48, 49, 50, 51, 52, 53, 54, 55, 56, 57} \<and> v = word_of_nat (n - 48) \<or>
        n \<in> {97, 98, 99, 100, 101, 102} \<and> v = word_of_nat (n - 87)"
    using assms unfolding nibble_def n_def [symmetric] insert_iff empty_iff
    by (simp split: if_splits) presburger+
  then have "unat v < 16 \<and> of_char (kHexDigits ! unat v) = n"
    by (elim disjE conjE insertE emptyE) (simp_all add: kHexDigits_def)
  then show ?thesis by (simp add: n_def)
qed

lemma byte_of_nibbles: "push_bit 4 (drop_bit 4 b) OR (b AND 0x0f) = (b :: u8)"
proof -
  have "(0x0f :: u8) = mask 4" by (simp add: mask_eq_exp_minus_1)
  then show ?thesis
    by (auto simp: bit_eq_iff bit_or_iff bit_push_bit_iff bit_drop_bit_eq bit_and_iff bit_mask_iff)
qed

lemma nibbles_of_byte:
  fixes high low :: u8
  assumes "unat high < 16" "unat low < 16"
  shows "drop_bit 4 (push_bit 4 high OR low) = high" "(push_bit 4 high OR low) AND 0x0f = low"
proof -
  have m: "(0x0f :: u8) = mask 4" by (simp add: mask_eq_exp_minus_1)
  have "take_bit 4 high = high" "take_bit 4 low = low"
    using assms by (simp_all add: word_eq_iff_unsigned [where 'a = nat] unsigned_take_bit_eq
        take_bit_nat_eq_self)
  then have b: "\<And>i. bit high i \<Longrightarrow> i < 4" "\<And>i. bit low i \<Longrightarrow> i < 4"
    by (metis bit_take_bit_iff)+
  show "drop_bit 4 (push_bit 4 high OR low) = high"
    by (rule bit_word_eqI) (auto simp: bit_or_iff bit_push_bit_iff bit_drop_bit_eq dest: b)
  show "(push_bit 4 high OR low) AND 0x0f = low"
    by (rule bit_word_eqI) (auto simp: m bit_or_iff bit_push_bit_iff bit_and_iff bit_mask_iff dest: b)
qed

lemma length_hex_pairs [simp]: "length (hex_pairs bs) = 2 * length bs"
  by (induction bs) auto

lemma nibble_bounds: "unat (drop_bit 4 (b :: u8)) < 16" "unat (b AND 0x0f) < 16"
proof -
  have "unat b < 256" using unsigned_less [of b] by simp
  then show "unat (drop_bit 4 b) < 16" by (simp add: drop_bit_eq_div unat_div)
  have "b AND 0x0f \<le> 0x0f" by (rule word_and_le1)
  then show "unat (b AND 0x0f) < 16" by (simp add: word_le_nat_alt)
qed

lemma parse_hex_pairs: "parse_pairs (hex_pairs bs) = Some bs"
  by (induction bs) (simp_all add: nibble_digit nibble_bounds byte_of_nibbles)

lemma hex_parse_pairs: "parse_pairs s = Some bs \<Longrightarrow> hex_pairs bs = s"
proof (induction s arbitrary: bs rule: parse_pairs.induct)
  case (1 h l rest)
  then obtain high low cs where n: "nibble h = Some high" "nibble l = Some low"
    and cs: "parse_pairs rest = Some cs" and bs: "bs = (push_bit 4 high OR low) # cs"
    by (auto split: option.splits)
  have "hex_pairs cs = rest" using 1 n cs by simp
  moreover note h = char_nibble_range [OF n(1)] and l = char_nibble_range [OF n(2)]
  ultimately show ?case
    unfolding bs hex_pairs.simps nibbles_of_byte [OF conjunct1 [OF h] conjunct1 [OF l]] by simp
qed auto

text \<open>
  Identity texts are canonical. \<open>NodeId::Parse\<close> accepts exactly the strings that
  \<open>ToHexString\<close> prints for a present 20-byte identity, and the two are inverse: parsing a
  printed identity gives it back, and whatever parses prints as the text it came from, so that
  upper-case, short or long texts are rejected and no two texts name the same node. The same
  holds of the 16-byte control identities.
\<close>

theorem node_id_roundtrip:
  "(NodeId_Parse s = Some i \<longleftrightarrow> (\<exists>bs. i = Some bs \<and> length bs = 20 \<and> s = ToHexString i)) \<and>
   (ControlId128_Parse s = Some j \<longleftrightarrow> (\<exists>bs. j = Some bs \<and> length bs = 16 \<and> s = ToHexString j))"
  using hex_parse_pairs [of s] parse_hex_pairs length_hex_pairs
  by (auto simp: NodeId_Parse_def ControlId128_Parse_def ToHexString_def ToHex_def)

end
