(* ===== verification/Snapshot.thy ===== *)
theory Snapshot
  imports Topology "HOL-Library.Multiset"
begin

text \<open>
  Correctness of snapshot building and publication: which builders \<open>Build\<close> accepts, what the
  slot map of the result says, what two snapshots with the same content have in common, and
  which in-flight cells a publication shares.
\<close>

section \<open>What a built snapshot looks like\<close>

lemma adjacent_equal_sorted: "sorted xs \<Longrightarrow> adjacent_equal xs \<longleftrightarrow> \<not> distinct xs"
proof (induction xs rule: adjacent_equal.induct)
  case (1 x y zs)
  then have "x \<notin> set (y # zs) \<longleftrightarrow> x \<noteq> y"
    by (auto dest: order.antisym)
  with 1 show ?case by auto
qed auto

lemma adjacent_equal_sort [simp]: "adjacent_equal (sort xs) \<longleftrightarrow> \<not> distinct xs"
  by (simp add: adjacent_equal_sorted)

text \<open>The slot map is a list of assignments painted over the empty map.\<close>

definition paint :: "(nat \<times> u16) list \<Rightarrow> u16 list \<Rightarrow> u16 list" where
  "paint ps m = fold (\<lambda>(s, g) m. m[s := g]) ps m"

lemma length_paint [simp]: "length (paint ps m) = length m"
  by (induction ps arbitrary: m) (auto simp: paint_def)

lemma paint_append: "paint (ps @ qs) m = paint qs (paint ps m)"
  by (simp add: paint_def)

lemma paint_outside: "s \<notin> fst ` set ps \<Longrightarrow> paint ps m ! s = m ! s"
  by (induction ps arbitrary: m) (auto simp: paint_def)

lemma paint_inside:
  assumes "(s, g) \<in> set ps" "distinct (map fst ps)" "s < length m"
  shows "paint ps m ! s = g"
  using assms
proof (induction ps arbitrary: m)
  case (Cons p ps)
  show ?case
  proof (cases "p = (s, g)")
    case True
    then have "s \<notin> fst ` set ps" using Cons.prems by auto
    then show ?thesis using paint_outside [of s ps "m[s := g]"] True Cons.prems
      by (simp add: paint_def)
  next
    case False
    then show ?thesis using Cons.IH [of "m[fst p := snd p]"] Cons.prems
      by (auto simp: paint_def split_def)
  qed
qed simp

definition range_slots :: "SlotRange \<Rightarrow> nat list" where
  "range_slots r = [unat (sr_first r)..<Suc (unat (sr_last r))]"

definition group_slots :: "GroupView \<Rightarrow> nat list" where
  "group_slots g = concat (map range_slots (gv_slot_ranges g))"

definition range_ok :: "SlotRange \<Rightarrow> bool" where
  "range_ok r \<longleftrightarrow> sr_first r \<le> sr_last r \<and> unat (sr_last r) < kSlotCount"

definition free_slots :: "nat list \<Rightarrow> u16 list \<Rightarrow> bool" where
  "free_slots slots m \<longleftrightarrow> distinct slots \<and> (\<forall>s \<in> set slots. m ! s = kNoGroupIndex)"

fun group_pairs :: "nat \<Rightarrow> GroupView list \<Rightarrow> (nat \<times> u16) list" where
  "group_pairs gi [] = []"
| "group_pairs gi (g # gs) = map (\<lambda>s. (s, word_of_nat gi)) (group_slots g) @ group_pairs (Suc gi) gs"

lemma map_fst_group_pairs: "map fst (group_pairs gi gs) = concat (map group_slots gs)"
  by (induction gs arbitrary: gi) (auto simp: comp_def)

lemma free_slots_append:
  assumes "gi \<noteq> kNoGroupIndex" "\<forall>s \<in> set as. s < length m"
  shows "free_slots (as @ bs) m \<longleftrightarrow> free_slots as m \<and> free_slots bs (paint (map (\<lambda>s. (s, gi)) as) m)"
proof (cases "distinct as")
  case True
  have p: "paint (map (\<lambda>s. (s, gi)) as) m ! s = (if s \<in> set as then gi else m ! s)" for s
  proof (cases "s \<in> set as")
    case inside: True
    then show ?thesis using True assms by (auto simp: comp_def intro!: paint_inside)
  next
    case False
    then show ?thesis by (auto intro!: paint_outside)
  qed
  show ?thesis using assms(1) by (auto simp: free_slots_def p)
qed (simp add: free_slots_def)

lemma assign_slots_eq:
  assumes "gi \<noteq> kNoGroupIndex" "\<forall>s \<in> set slots. s < length m"
  shows "assign_slots gi slots (m, c) =
    (if free_slots slots m
     then Inr (paint (map (\<lambda>s. (s, gi)) slots) m, c + word_of_nat (length slots))
     else Inl InvalidArgument)"
  using assms
proof (induction slots arbitrary: m c)
  case (Cons s slots)
  have "free_slots (s # slots) m \<longleftrightarrow> m ! s = kNoGroupIndex \<and> free_slots slots (m[s := gi])"
    using free_slots_append [of gi "[s]" m slots] Cons.prems by (simp add: free_slots_def paint_def)
  then show ?case using Cons by (simp add: paint_def)
qed (simp add: free_slots_def paint_def)

lemma range_slots_bound: "range_ok r \<Longrightarrow> s \<in> set (range_slots r) \<Longrightarrow> s < kSlotCount"
  by (auto simp: range_ok_def range_slots_def)

lemma assign_ranges_Cons:
  "assign_ranges gi (r # rs) sm =
     (if \<not> range_ok r then Inl InvalidArgument
      else case assign_slots gi (range_slots r) sm of
             Inl e \<Rightarrow> Inl e | Inr sm \<Rightarrow> assign_ranges gi rs sm)"
  by (auto simp: range_ok_def range_slots_def not_le not_less simp del: upt_Suc)

lemma assign_ranges_eq:
  assumes "gi \<noteq> kNoGroupIndex" "length m = kSlotCount"
  shows "assign_ranges gi rs (m, c) =
    (let slots = concat (map range_slots rs) in
     if list_all range_ok rs \<and> free_slots slots m
     then Inr (paint (map (\<lambda>s. (s, gi)) slots) m, c + word_of_nat (length slots))
     else Inl InvalidArgument)"
  using assms
proof (induction rs arbitrary: m c)
  case (Cons r rs)
  show ?case
  proof (cases "range_ok r")
    case True
    then have b: "\<forall>s \<in> set (range_slots r). s < length m"
      using range_slots_bound Cons.prems by simp
    note split = free_slots_append [OF Cons.prems(1) b, of "concat (map range_slots rs)"]
    show ?thesis
      using True Cons.IH [OF Cons.prems(1)] Cons.prems(2)
        assign_slots_eq [OF Cons.prems(1) b, of c]
      by (simp add: assign_ranges_Cons split paint_append Let_def add.assoc del: assign_ranges.simps)
  qed (simp add: assign_ranges_Cons del: assign_ranges.simps)
qed (simp add: free_slots_def paint_def)

lemma unat_kNoGroupIndex [simp]: "unat kNoGroupIndex = 65535"
  by (simp add: kNoGroupIndex_def unsigned_minus_1_eq_mask mask_eq_exp_minus_1)

lemma assign_groups_eq:
  assumes "gi + length gs \<le> unat kNoGroupIndex" "length m = kSlotCount"
  shows "assign_groups gi gs (m, c) =
    (let slots = concat (map group_slots gs) in
     if list_all (list_all range_ok \<circ> gv_slot_ranges) gs \<and> free_slots slots m
     then Inr (paint (group_pairs gi gs) m, c + word_of_nat (length slots))
     else Inl InvalidArgument)"
  using assms
proof (induction gs arbitrary: gi m c)
  case (Cons g gs)
  have gi: "word_of_nat gi \<noteq> kNoGroupIndex"
    using Cons.prems by (auto simp: unsigned_of_nat take_bit_eq_mod dest!: arg_cong [of _ _ unat])
  show ?case
  proof (cases "list_all range_ok (gv_slot_ranges g)")
    case True
    then have b: "\<forall>s \<in> set (group_slots g). s < length m"
      using range_slots_bound Cons.prems by (auto simp: group_slots_def list_all_iff)
    note split = free_slots_append [OF gi b, of "concat (map group_slots gs)"]
    show ?thesis
      using True Cons.IH [of "Suc gi"] Cons.prems assign_ranges_eq [OF gi, of m "gv_slot_ranges g" c]
      by (simp add: split paint_append Let_def add.assoc group_slots_def [symmetric])
  next
    case False
    then show ?thesis using Cons.prems assign_ranges_eq [OF gi, of m "gv_slot_ranges g" c] by (simp add: Let_def)
  qed
qed (simp add: free_slots_def paint_def)

lemma group_pairs_iff:
  "(s, w) \<in> set (group_pairs gi gs) \<longleftrightarrow> (\<exists>i < length gs. w = word_of_nat (gi + i) \<and> s \<in> set (group_slots (gs ! i)))"
proof (induction gs arbitrary: gi)
  case (Cons g gs)
  have "(\<exists>i < length (g # gs). w = word_of_nat (gi + i) \<and> s \<in> set (group_slots ((g # gs) ! i))) \<longleftrightarrow>
        (w = word_of_nat gi \<and> s \<in> set (group_slots g)) \<or>
        (\<exists>i < length gs. w = word_of_nat (Suc gi + i) \<and> s \<in> set (group_slots (gs ! i)))"
    by (simp only: length_Cons Ex_less_Suc2 nth_Cons_0 nth_Cons_Suc add_0_right add_Suc_right add_Suc)
  then show ?case using Cons.IH [of "Suc gi"] by auto
qed simp

text \<open>
  \<open>builder_ok\<close> states the documented preconditions of a snapshot without the order in which
  \<open>Build\<close> tests them; \<open>state_wf\<close> is what every reader of a snapshot relies on.
\<close>

definition builder_ok :: "ServingStateBuilder \<Rightarrow> bool" where
  "builder_ok b \<longleftrightarrow>
     0 < sb_in_flight_stripe_count b \<and>
     (\<forall>n \<in> set (sb_nodes b). nd_node_id n \<noteq> None) \<and> distinct (map nd_node_id (sb_nodes b)) \<and>
     (sb_self_node_index b = kNoNodeIndex \<or> unat (sb_self_node_index b) < length (sb_nodes b)) \<and>
     (\<forall>n \<in> set (sb_nodes b). primary_reference_ok (sb_nodes b) n) \<and>
     length (sb_groups b) \<le> 65535 \<and>
     (\<forall>g \<in> set (sb_groups b). gv_group_id g \<noteq> []) \<and> distinct (map gv_group_id (sb_groups b)) \<and>
     (\<forall>g \<in> set (sb_groups b). group_nodes_ok (sb_nodes b) g) \<and>
     (\<forall>g \<in> set (sb_groups b). \<forall>r \<in> set (gv_slot_ranges g). range_ok r) \<and>
     distinct (concat (map group_slots (sb_groups b)))"

definition empty_slots :: "u16 list" where
  "empty_slots = replicate kSlotCount kNoGroupIndex"

definition built_map :: "ServingStateBuilder \<Rightarrow> slot_map" where
  "built_map b = (paint (group_pairs 0 (sb_groups b)) empty_slots,
     word_of_nat (length (concat (map group_slots (sb_groups b)))))"

lemma slots_bound:
  assumes "\<forall>g \<in> set gs. \<forall>r \<in> set (gv_slot_ranges g). range_ok r" "s \<in> set (concat (map group_slots gs))"
  shows "s < kSlotCount"
  using assms range_slots_bound by (fastforce simp: group_slots_def)

lemma free_slots_empty:
  "(\<forall>g \<in> set gs. \<forall>r \<in> set (gv_slot_ranges g). range_ok r) \<and>
     free_slots (concat (map group_slots gs)) (replicate kSlotCount kNoGroupIndex) \<longleftrightarrow>
   (\<forall>g \<in> set gs. \<forall>r \<in> set (gv_slot_ranges g). range_ok r) \<and> distinct (concat (map group_slots gs))"
  using slots_bound [of gs] by (simp add: free_slots_def cong: conj_cong)

lemma Build_eq:
  "Build b fresh =
     (if builder_ok b then Inr (make_state b fresh (built_map b))
      else if (\<exists>e. check_nodes b = Inl e) \<or> length (sb_groups b) \<le> 65535 then Inl InvalidArgument
      else Inl ResourceExhausted)"
proof (cases "(\<exists>e. check_nodes b = Inl e) \<or> 65535 < length (sb_groups b)")
  case True
  then show ?thesis
    by (auto simp: Build_def check_nodes_def check_groups_def builder_ok_def list_ex_iff list_all_iff
        split: if_splits)
next
  case False
  then have n: "check_nodes b = Inr ()" and l: "length (sb_groups b) \<le> 65535"
    by (auto simp: check_nodes_def split: if_splits)
  have a: "assign_groups 0 (sb_groups b) (replicate kSlotCount kNoGroupIndex, 0) =
      (if (\<forall>g \<in> set (sb_groups b). \<forall>r \<in> set (gv_slot_ranges g). range_ok r) \<and>
          distinct (concat (map group_slots (sb_groups b)))
       then Inr (built_map b) else Inl InvalidArgument)"
    using l assign_groups_eq [of 0 "sb_groups b" "replicate kSlotCount kNoGroupIndex" 0]
      free_slots_empty [of "sb_groups b"]
    by (simp add: Let_def list_all_iff built_map_def empty_slots_def)
  show ?thesis
    using n l a by (auto simp: Build_def check_nodes_def check_groups_def builder_ok_def list_ex_iff
        list_all_iff split: if_splits)
qed

lemma built_map_slot:
  assumes "builder_ok b" "s < kSlotCount"
  shows "fst (built_map b) ! s = w \<longleftrightarrow>
    (if w = kNoGroupIndex then s \<notin> set (concat (map group_slots (sb_groups b)))
     else \<exists>i < length (sb_groups b). w = word_of_nat i \<and> s \<in> set (group_slots (sb_groups b ! i)))"
proof -
  let ?ps = "group_pairs 0 (sb_groups b)"
  have d: "distinct (map fst ?ps)" and l: "length (sb_groups b) \<le> 65535"
    using assms(1) by (simp_all add: builder_ok_def map_fst_group_pairs)
  have small: "word_of_nat i \<noteq> kNoGroupIndex" if "i < length (sb_groups b)" for i
    using that l by (auto simp: unsigned_of_nat take_bit_eq_mod dest!: arg_cong [of _ _ unat])
  have dom: "fst ` set ?ps = set (concat (map group_slots (sb_groups b)))"
    using map_fst_group_pairs [of 0 "sb_groups b"] by (metis set_map)
  show ?thesis
  proof (cases "s \<in> fst ` set ?ps")
    case True
    then obtain v where v: "(s, v) \<in> set ?ps" by auto
    then have "fst (built_map b) ! s = v"
      using d assms(2) paint_inside [of s v ?ps empty_slots] by (simp add: built_map_def empty_slots_def)
    moreover have "(s, w) \<in> set ?ps \<longleftrightarrow> w = v"
      using v d by (auto dest: eq_key_imp_eq_value)
    moreover have "v \<noteq> kNoGroupIndex" using v small by (auto simp: group_pairs_iff)
    ultimately show ?thesis using True dom by (auto simp: group_pairs_iff)
  next
    case False
    then have "fst (built_map b) ! s = kNoGroupIndex"
      using assms(2) paint_outside [of s ?ps empty_slots] by (simp add: built_map_def empty_slots_def)
    moreover have "(s, w) \<notin> set ?ps" using False by force
    ultimately show ?thesis using False dom small by (auto simp: group_pairs_iff)
  qed
qed

lemma group_slots_iff:
  "unat slot \<in> set (group_slots g) \<longleftrightarrow> (\<exists>r \<in> set (gv_slot_ranges g). sr_first r \<le> slot \<and> slot \<le> sr_last r)"
  by (auto simp: group_slots_def range_slots_def word_le_nat_alt less_Suc_eq_le)

lemma Build_Inr: "Build b fresh = Inr st \<longleftrightarrow> builder_ok b \<and> st = make_state b fresh (built_map b)"
  by (auto simp: Build_eq)

lemma built_group_for_slot:
  assumes "builder_ok b"
  shows "GroupForSlot (make_state b fresh (built_map b)) slot = Some g \<longleftrightarrow>
    g \<in> set (sb_groups b) \<and> unat slot \<in> set (group_slots g)"
proof (cases "unat slot < kSlotCount")
  case True
  have l: "length (sb_groups b) \<le> 65535" using assms by (simp add: builder_ok_def)
  let ?w = "fst (built_map b) ! unat slot"
  show ?thesis
  proof (cases "?w = kNoGroupIndex")
    case none: True
    then have "unat slot \<notin> set (concat (map group_slots (sb_groups b)))"
      using built_map_slot [OF assms True, of kNoGroupIndex] by simp
    then show ?thesis using True none by (auto simp: GroupForSlot_def make_state_def Let_def)
  next
    case False
    then obtain i where i: "i < length (sb_groups b)" "?w = word_of_nat i"
        "unat slot \<in> set (group_slots (sb_groups b ! i))"
      using built_map_slot [OF assms True, of ?w] by auto
    then have u: "unat ?w = i" using l by (simp add: unsigned_of_nat take_bit_eq_mod)
    have "j = i" if "j < length (sb_groups b)" "unat slot \<in> set (group_slots (sb_groups b ! j))" for j
    proof -
      have "word_of_nat j \<noteq> kNoGroupIndex"
        using that l by (auto simp: unsigned_of_nat take_bit_eq_mod dest!: arg_cong [of _ _ unat])
      then have "?w = word_of_nat j" using that built_map_slot [OF assms True, of "word_of_nat j"] by auto
      then show ?thesis using that l u by (simp add: unsigned_of_nat take_bit_eq_mod)
    qed
    then have "g \<in> set (sb_groups b) \<and> unat slot \<in> set (group_slots g) \<longleftrightarrow> g = sb_groups b ! i"
      using i by (metis in_set_conv_nth)
    then show ?thesis using True False u by (auto simp: GroupForSlot_def make_state_def Let_def)
  qed
next
  case False
  then have "unat slot \<notin> set (group_slots g)" if "g \<in> set (sb_groups b)"
    using that assms slots_bound [of "sb_groups b" "unat slot"] by (auto simp: builder_ok_def)
  then show ?thesis using False by (auto simp: GroupForSlot_def)
qed

lemma word_interval_card:
  "finite A \<Longrightarrow> A \<subseteq> {..<2 ^ LENGTH('a)} \<Longrightarrow> card {w :: 'a::len word. unat w \<in> A} = card A"
proof -
  assume A: "finite A" "A \<subseteq> {..<2 ^ LENGTH('a)}"
  have inv: "unat (word_of_nat y :: 'a word) = y" if "y \<in> A" for y
    using that A(2) by (auto simp: unsigned_of_nat take_bit_eq_mod)
  have "bij_betw (unat :: 'a word \<Rightarrow> nat) {w. unat w \<in> A} A"
    by (rule bij_betw_byWitness [where f' = word_of_nat]) (auto simp: inv)
  then show ?thesis by (rule bij_betw_same_card)
qed

lemma built_covered:
  assumes "builder_ok b"
  shows "unat (snd (built_map b)) =
    card {slot. GroupForSlot (make_state b fresh (built_map b)) slot \<noteq> None}"
proof -
  let ?slots = "concat (map group_slots (sb_groups b))"
  have d: "distinct ?slots" and sub: "set ?slots \<subseteq> {..<16384}"
    using assms slots_bound [of "sb_groups b"] by (auto simp: builder_ok_def kSlotCount_def)
  have c: "length ?slots = card (set ?slots)" by (rule distinct_card [OF d, symmetric])
  have "card (set ?slots) \<le> 16384"
    using card_mono [OF finite_lessThan sub] by simp
  then have "unat (snd (built_map b)) = card (set ?slots)"
    unfolding built_map_def snd_conv c by (simp add: unsigned_of_nat take_bit_eq_mod)
  also have "\<dots> = card {slot :: u16. unat slot \<in> set ?slots}"
    using sub by (subst word_interval_card) (auto dest!: subsetD [OF sub])
  also have "{slot :: u16. unat slot \<in> set ?slots} =
      {slot. GroupForSlot (make_state b fresh (built_map b)) slot \<noteq> None}"
    using built_group_for_slot [OF assms, of fresh] by auto
  finally show ?thesis .
qed

text \<open>
  (C28) \<open>ServingStateBuilder::Build\<close> accepts a builder exactly when it meets the documented
  preconditions (distinct non-empty identities, references that resolve to nodes of the right
  role, slot ranges in bounds and pairwise disjoint), whatever the order of its checks, and
  every refusal is an \<open>InvalidArgument\<close> or, for more groups than 16 bits index, a
  \<open>ResourceExhausted\<close> status.
\<close>

theorem build_accepts_exactly:
  "((\<exists>st. Build b fresh = Inr st) = builder_ok b) \<and>
   Build b fresh \<notin> Inl ` (- {InvalidArgument, ResourceExhausted})"
  by (auto simp: Build_eq)

text \<open>
  (C26) The slot map of a built snapshot is right: a slot is owned by a group exactly when one of
  the group's ranges contains it, so no slot has two owners and none is lost, and the covered
  slot count is the number of slots that have an owner.
\<close>

theorem build_slot_ownership:
  assumes "Build b fresh = Inr st"
  shows "(GroupForSlot st slot = Some g \<longleftrightarrow>
            g \<in> set (sb_groups b) \<and> (\<exists>r \<in> set (gv_slot_ranges g). sr_first r \<le> slot \<and> slot \<le> sr_last r)) \<and>
         unat (ss_covered_slots st) = card {slot. GroupForSlot st slot \<noteq> None}"
proof -
  have b: "builder_ok b" and st: "st = make_state b fresh (built_map b)"
    using assms by (auto simp: Build_Inr)
  then show ?thesis
    using built_group_for_slot [OF b, of fresh slot g] built_covered [OF b, of fresh]
    by (simp add: group_slots_iff make_state_def)
qed

section \<open>The content hash reads content only\<close>

definition node_ref :: "NodeDescriptor list \<Rightarrow> u32 \<Rightarrow> NodeId option" where
  "node_ref nodes i = map_option nd_node_id (node_at nodes i)"

text \<open>
  The content of a node or a group: its fields with every index replaced by the identity it
  refers to. \<open>snapshot_content\<close> forgets the order of nodes, groups and replicas, the indices
  and how the ranges of a group are cut.
\<close>

type_synonym node_content = "NodeId \<times> string \<times> u16 \<times> u16 \<times> bool \<times> NodeId option \<times> u64 \<times> bool"

type_synonym group_content =
  "string \<times> NodeId option \<times> ControlId128 \<times> NodeId multiset \<times> u64 \<times> u64 \<times> bool \<times> bool \<times> bool \<times> bool"

definition node_content :: "NodeDescriptor list \<Rightarrow> NodeDescriptor \<Rightarrow> node_content" where
  "node_content nodes n =
     (nd_node_id n, nd_host n, nd_port n, nd_tls_port n, is_primary n,
      node_ref nodes (nd_primary_node_index n), nd_group_term n, nd_link_connected n)"

definition group_content :: "NodeDescriptor list \<Rightarrow> GroupView \<Rightarrow> group_content" where
  "group_content nodes g =
     (gv_group_id g, node_ref nodes (gv_primary_node_index g), gv_assignment_id g,
      mset (map (\<lambda>i. nd_node_id (nodes ! unat i)) (gv_replica_node_indices g)),
      gv_group_term g, gv_manifest_revision g, gv_granted g, gv_population_ready g,
      gv_storage_ready g, gv_mutations_paused g)"

definition snapshot_content ::
    "ServingState \<Rightarrow> u64 \<times> u64 \<times> NodeId option \<times> node_content multiset \<times> group_content multiset \<times> (u16 \<Rightarrow> string option)" where
  "snapshot_content st =
     (ss_topology_epoch st, ss_max_group_term st, node_ref (ss_nodes st) (ss_self_node_index st),
      mset (map (node_content (ss_nodes st)) (ss_nodes st)),
      mset (map (group_content (ss_nodes st)) (ss_groups st)),
      (\<lambda>slot. map_option gv_group_id (GroupForSlot st slot)))"

definition hash_ref :: "NodeId option \<Rightarrow> u64 \<Rightarrow> u64" where
  "hash_ref r hash = (case r of None \<Rightarrow> HashBool hash False | Some i \<Rightarrow> HashNodeId hash i)"

lemma HashNodeReference_ref: "HashNodeReference hash nodes i = hash_ref (node_ref nodes i) hash"
  by (simp add: HashNodeReference_def hash_ref_def node_ref_def split: option.split)

lemma hash_node_content:
  "node_content nodes n = node_content nodes' n' \<Longrightarrow> hash_node nodes n = hash_node nodes' n'"
  by (rule ext) (simp add: hash_node_def HashNodeReference_ref node_content_def)

lemma hash_group_content:
  assumes "group_content nodes g = group_content nodes' g'"
  shows "hash_group nodes g = hash_group nodes' g'"
proof -
  have m: "mset (map (\<lambda>i. nd_node_id (nodes ! unat i)) (gv_replica_node_indices g)) =
        mset (map (\<lambda>i. nd_node_id (nodes' ! unat i)) (gv_replica_node_indices g'))"
    using assms by (simp add: group_content_def)
  then have "sort (map (\<lambda>i. nd_node_id (nodes ! unat i)) (gv_replica_node_indices g)) =
        sort (map (\<lambda>i. nd_node_id (nodes' ! unat i)) (gv_replica_node_indices g'))"
    by (metis sorted_list_of_multiset_mset)
  then show ?thesis
    using assms by (intro ext) (simp add: hash_group_def HashNodeReference_ref group_content_def)
qed

lemma insort_key_map: "insort_key f (c x) (map c xs) = map c (insort_key (f \<circ> c) x xs)"
  by (induction xs) auto

lemma sort_key_map: "sort_key f (map c xs) = map c (sort_key (f \<circ> c) xs)"
  by (induction xs) (simp_all add: insort_key_map [unfolded comp_def] comp_def)

lemma sorted_content:
  assumes "mset (map c xs) = mset (map c' ys)" "distinct (map (f \<circ> c) xs)"
  shows "map c (sort_key (f \<circ> c) xs) = map c' (sort_key (f \<circ> c') ys)"
proof -
  have "sort_key f (map c xs) = sort_key f (map c' ys)"
  proof (rule sort_key_inj_key_eq)
    show "mset (map c xs) = mset (sort_key f (map c' ys))" using assms(1) by simp
    show "inj_on f (set (map c xs))" using assms(2) by (auto simp: distinct_map inj_on_def)
  qed simp
  then show ?thesis by (simp add: sort_key_map)
qed

lemma fold_via_content:
  assumes "\<And>x y. c x = c' y \<Longrightarrow> h x = h' y" "map c xs = map c' ys"
  shows "fold h xs a = fold h' ys a"
  using assms(2)
proof (induction xs arbitrary: ys a)
  case (Cons x xs)
  then obtain y zs where "ys = y # zs" "c x = c' y" "map c xs = map c' zs" by (cases ys) auto
  then show ?case using Cons.IH assms(1) by simp
qed simp

lemma hash_slot_content:
  assumes "length (ss_slot_to_group st) = kSlotCount" "slot < kSlotCount"
  shows "hash_slot (ss_groups st) (ss_slot_to_group st) slot hash =
    (case map_option gv_group_id (GroupForSlot st (word_of_nat slot)) of
       None \<Rightarrow> hash | Some i \<Rightarrow> HashString (HashU64 hash (word_of_nat slot)) i)"
  using assms by (simp add: hash_slot_def GroupForSlot_def Let_def unsigned_of_nat take_bit_eq_mod kSlotCount_def)

lemma built_content_hash:
  assumes "Build b fresh = Inr st"
  shows "ss_content_hash st = ComputeContentHash (ss_topology_epoch st) (ss_max_group_term st)
    (ss_self_node_index st) (ss_nodes st) (ss_groups st) (ss_slot_to_group st) \<and>
    distinct (map nd_node_id (ss_nodes st)) \<and> distinct (map gv_group_id (ss_groups st)) \<and>
    length (ss_slot_to_group st) = kSlotCount"
  using assms by (auto simp: Build_Inr make_state_def builder_ok_def built_map_def empty_slots_def)

lemma content_hash_cong:
  assumes "Build b fresh = Inr st" "Build b' fresh' = Inr st'"
    and "snapshot_content st = snapshot_content st'"
  shows "ss_content_hash st = ss_content_hash st'"
proof -
  note B = built_content_hash [OF assms(1)] and B' = built_content_hash [OF assms(2)]
  have c: "ss_topology_epoch st = ss_topology_epoch st'" "ss_max_group_term st = ss_max_group_term st'"
    "node_ref (ss_nodes st) (ss_self_node_index st) = node_ref (ss_nodes st') (ss_self_node_index st')"
    "mset (map (node_content (ss_nodes st)) (ss_nodes st)) = mset (map (node_content (ss_nodes st')) (ss_nodes st'))"
    "mset (map (group_content (ss_nodes st)) (ss_groups st)) = mset (map (group_content (ss_nodes st')) (ss_groups st'))"
    and slots: "\<And>slot. map_option gv_group_id (GroupForSlot st slot) = map_option gv_group_id (GroupForSlot st' slot)"
    using assms(3) by (simp_all add: snapshot_content_def fun_eq_iff)
  have keys: "fst \<circ> node_content nodes = nd_node_id" "fst \<circ> group_content nodes = gv_group_id" for nodes
    by (auto simp: node_content_def group_content_def)
  have n: "fold (hash_node (ss_nodes st)) (sort_key nd_node_id (ss_nodes st)) a =
      fold (hash_node (ss_nodes st')) (sort_key nd_node_id (ss_nodes st')) a" for a
    using sorted_content [OF c(4), of fst] B
    by (intro fold_via_content [OF hash_node_content]) (simp_all add: keys)
  have g: "fold (hash_group (ss_nodes st)) (sort_key gv_group_id (ss_groups st)) a =
      fold (hash_group (ss_nodes st')) (sort_key gv_group_id (ss_groups st')) a" for a
    using sorted_content [OF c(5), of fst] B
    by (intro fold_via_content [OF hash_group_content]) (simp_all add: keys)
  have s: "fold (hash_slot (ss_groups st) (ss_slot_to_group st)) [0..<kSlotCount] a =
      fold (hash_slot (ss_groups st') (ss_slot_to_group st')) [0..<kSlotCount] a" for a
    using B B' by (intro fold_cong) (simp_all add: fun_eq_iff hash_slot_content slots)
  have l: "length (ss_nodes st) = length (ss_nodes st')" "length (ss_groups st) = length (ss_groups st')"
    using arg_cong [OF c(4), of size] arg_cong [OF c(5), of size] by simp_all
  show ?thesis
    using B B' by (simp add: ComputeContentHash_def Let_def HashNodeReference_ref c n g s l)
qed

text \<open>
  (C30) Replaying the same projection is invisible. Two built snapshots with the same content
  (nodes, groups and replicas by identity and in any order, ranges cut in any way that gives the
  same slot ownership) have the same content hash, and publishing one while the other is current
  changes neither the snapshot nor the version.
\<close>

theorem content_hash_semantic:
  assumes "Build b fresh = Inr st" "Build b' fresh' = Inr st'"
    and "snapshot_content st = snapshot_content st'" "tc_current c = Some st"
  shows "ss_content_hash st = ss_content_hash st' \<and> Publish (Some st') c = (c, tc_version c)"
  using content_hash_cong [OF assms(1-3)] assms(4) by (simp add: Publish_def)

section \<open>What readers of a snapshot rely on\<close>

definition state_wf :: "ServingState \<Rightarrow> bool" where
  "state_wf st \<longleftrightarrow>
     length (ss_slot_to_group st) = kSlotCount \<and>
     (\<forall>w \<in> set (ss_slot_to_group st). w = kNoGroupIndex \<or> unat w < length (ss_groups st)) \<and>
     distinct (map gv_group_id (ss_groups st)) \<and>
     (\<forall>g \<in> set (ss_groups st). gv_group_id g \<noteq> [] \<and> group_nodes_ok (ss_nodes st) g) \<and>
     ss_group_tokens st = map (\<lambda>g. ComputeGroupToken g (ss_nodes st)) (ss_groups st) \<and>
     length (ss_in_flight_cells st) = length (ss_groups st)"

lemma ComputeGroupToken_nonzero [simp]: "ComputeGroupToken g nodes \<noteq> 0"
  by (simp add: ComputeGroupToken_def Let_def)

lemma Build_wf:
  assumes "Build b fresh = Inr st"
  shows "state_wf st"
proof -
  have b: "builder_ok b" and st: "st = make_state b fresh (built_map b)"
    using assms by (auto simp: Build_Inr)
  have "w = kNoGroupIndex \<or> unat w < length (sb_groups b)" if w: "w \<in> set (fst (built_map b))" for w
  proof -
    obtain s where "s < kSlotCount" "fst (built_map b) ! s = w"
      using w by (auto simp: in_set_conv_nth built_map_def empty_slots_def)
    then show ?thesis
      using built_map_slot [OF b, of s w] b
      by (auto simp: builder_ok_def unsigned_of_nat take_bit_eq_mod split: if_splits)
  qed
  moreover have "length (fst (built_map b)) = kSlotCount" by (simp add: built_map_def empty_slots_def)
  ultimately show ?thesis
    using b unfolding state_wf_def st by (simp add: make_state_def builder_ok_def)
qed

lemma ShareInFlightCellsFrom_wf: "state_wf st \<Longrightarrow> state_wf (ShareInFlightCellsFrom previous st)"
  by (simp add: state_wf_def ShareInFlightCellsFrom_def)

lemma find_group_index_Some:
  "find_group_index i gs = Some k \<longleftrightarrow> k < length gs \<and> gv_group_id (gs ! k) = i \<and> (\<forall>j < k. gv_group_id (gs ! j) \<noteq> i)"
proof (induction gs arbitrary: k)
  case (Cons g gs)
  then show ?case by (cases k) (auto simp: All_less_Suc2)
qed simp

lemma find_group_index_None: "find_group_index i gs = None \<longleftrightarrow> (\<forall>g \<in> set gs. gv_group_id g \<noteq> i)"
  by (induction gs) auto

lemma find_group_index_nth:
  "distinct (map gv_group_id gs) \<Longrightarrow> k < length gs \<Longrightarrow> find_group_index (gv_group_id (gs ! k)) gs = Some k"
  by (auto simp: find_group_index_Some distinct_conv_nth)

lemma AuthorityToken_Some:
  assumes "state_wf st" "FindGroup st i = Some g"
  shows "AuthorityToken st i = ComputeGroupToken g (ss_nodes st)"
proof -
  obtain k where k: "find_group_index i (ss_groups st) = Some k" "g = ss_groups st ! k"
    using assms(2) by (auto simp: FindGroup_def)
  moreover have "k < length (ss_groups st)" using k(1) by (simp add: find_group_index_Some)
  ultimately show ?thesis using assms(1) by (simp add: AuthorityToken_def state_wf_def)
qed

lemma AuthorityToken_zero: "state_wf st \<Longrightarrow> AuthorityToken st i = 0 \<longleftrightarrow> FindGroup st i = None"
  by (auto simp: FindGroup_def AuthorityToken_def state_wf_def find_group_index_Some split: option.splits)

lemma GroupForSlot_FindGroup:
  assumes "state_wf st" "GroupForSlot st slot = Some g"
  shows "FindGroup st (gv_group_id g) = Some g \<and> g \<in> set (ss_groups st) \<and>
    AuthorityTokenForSlot st slot = AuthorityToken st (gv_group_id g)"
proof -
  let ?w = "ss_slot_to_group st ! unat slot"
  have s: "unat slot < kSlotCount" "?w \<noteq> kNoGroupIndex" "g = ss_groups st ! unat ?w"
    using assms(2) by (auto simp: GroupForSlot_def Let_def not_le split: if_splits)
  moreover have "?w \<in> set (ss_slot_to_group st)" using assms(1) s by (simp add: state_wf_def)
  ultimately have w: "unat ?w < length (ss_groups st)" using assms(1) by (auto simp: state_wf_def)
  then have f: "find_group_index (gv_group_id g) (ss_groups st) = Some (unat ?w)"
    using assms(1) s(3) by (simp add: state_wf_def find_group_index_nth)
  then show ?thesis
    using s w by (simp add: FindGroup_def AuthorityTokenForSlot_def AuthorityToken_def Let_def)
qed

lemma AuthorityTokenForSlot_None: "GroupForSlot st slot = None \<Longrightarrow> AuthorityTokenForSlot st slot = 0"
  by (auto simp: GroupForSlot_def AuthorityTokenForSlot_def Let_def split: if_splits)

text \<open>The cell that counts the requests in flight of a group.\<close>

definition group_cell :: "ServingState \<Rightarrow> string \<Rightarrow> nat option" where
  "group_cell st i = map_option (\<lambda>k. ss_in_flight_cells st ! k) (find_group_index i (ss_groups st))"

lemma share_cells:
  assumes "state_wf st" "find_group_index i (ss_groups st) = Some k"
  shows "group_cell (ShareInFlightCellsFrom previous st) i =
    (if FindGroup previous i \<noteq> None \<and> AuthorityToken previous i = AuthorityToken st i
     then group_cell previous i else Some (ss_in_flight_cells st ! k))"
proof -
  have "k < length (ss_groups st)" "gv_group_id (ss_groups st ! k) = i"
    using assms(2) by (auto simp: find_group_index_Some)
  then show ?thesis
    using assms(2)
    by (auto simp: group_cell_def ShareInFlightCellsFrom_def shared_cell_def Let_def FindGroup_def split: option.splits)
qed

text \<open>
  (C32) Publication keeps in-flight accounting exactly across authority changes. After a snapshot
  built with unused cells replaces the current one, a group that keeps its authority token keeps
  its in-flight cell, so the requests counted before are still counted; every other group gets a
  cell that no group of the replaced snapshot uses, so a drain of the old authority never waits
  for requests of the new one.
\<close>

theorem publish_shares_cells:
  assumes "state_wf cur" "Build b fresh = Inr new" "\<forall>h \<in> set (ss_in_flight_cells cur). h < fresh"
    and "tc_current c = Some cur" "ss_content_hash cur \<noteq> ss_content_hash new"
    and "FindGroup new i \<noteq> None"
  shows "\<exists>st h. tc_current (fst (Publish (Some new) c)) = Some st \<and> state_wf st \<and> group_cell st i = Some h \<and>
    (if FindGroup cur i \<noteq> None \<and> AuthorityToken cur i = AuthorityToken new i
     then group_cell cur i = Some h else h \<notin> set (ss_in_flight_cells cur))"
proof -
  have wf: "state_wf new" by (rule Build_wf [OF assms(2)])
  have cells: "ss_in_flight_cells new = map (\<lambda>i. fresh + 1 + i) [0..<length (ss_groups new)]"
    using assms(2) by (auto simp: Build_Inr make_state_def)
  obtain k where k: "find_group_index i (ss_groups new) = Some k" "k < length (ss_groups new)"
    using assms(6) by (auto simp: FindGroup_def find_group_index_Some)
  have old: "\<exists>h. group_cell cur i = Some h" if "FindGroup cur i \<noteq> None"
    using that by (auto simp: group_cell_def FindGroup_def)
  have "ss_in_flight_cells new ! k \<notin> set (ss_in_flight_cells cur)"
    using assms(3) cells k(2) by force
  then show ?thesis
    using share_cells [OF wf k(1), of cur] ShareInFlightCellsFrom_wf [OF wf, of cur] assms(4,5) old
    by (auto simp: Publish_def)
qed

section \<open>A small cluster\<close>

definition demo_node :: "u8 \<Rightarrow> u32 \<Rightarrow> NodeDescriptor" where
  "demo_node i primary =
     \<lparr>nd_node_id = Some (replicate 20 i), nd_link_connected = True, nd_port = 6379, nd_tls_port = 0,
      nd_primary_node_index = primary, nd_group_term = 1, nd_host = ''h''\<rparr>"

definition demo_group :: "u64 \<Rightarrow> GroupView" where
  "demo_group t =
     \<lparr>gv_group_id = ''g'', gv_primary_node_index = 0, gv_assignment_id = Some (replicate 16 7),
      gv_granted = True, gv_population_ready = True, gv_storage_ready = True,
      gv_mutations_paused = False, gv_group_term = t, gv_manifest_revision = 3,
      gv_replica_node_indices = [1], gv_slot_ranges = [\<lparr>sr_first = 5, sr_last = 9\<rparr>]\<rparr>"

definition demo_builder :: "u64 \<Rightarrow> ServingStateBuilder" where
  "demo_builder t = AddGroup (demo_group t) (AddNode (demo_node 2 0) (AddNode (demo_node 1 kNoNodeIndex)
     (SetSelfNodeIndex 0 new_builder)))"

text \<open>The same cluster described in another order, with the range cut in two.\<close>

definition demo_builder_cut :: "u64 \<Rightarrow> ServingStateBuilder" where
  "demo_builder_cut t =
     AddSlotRange ''g'' \<lparr>sr_first = 5, sr_last = 6\<rparr>
      (AddGroup ((demo_group t)\<lparr>gv_primary_node_index := 1, gv_replica_node_indices := [0],
          gv_slot_ranges := [\<lparr>sr_first = 7, sr_last = 9\<rparr>]\<rparr>)
      (AddNode (demo_node 1 kNoNodeIndex) (AddNode (demo_node 2 1) (SetSelfNodeIndex 1 new_builder))))"

lemmas demo_cluster_defs = demo_builder_def demo_builder_cut_def demo_group_def demo_node_def
  AddGroup_def AddNode_def AddSlotRange_def SetSelfNodeIndex_def IncludeGroupTerm_def new_builder_def

lemma demo_builder_ok: "builder_ok (demo_builder t)" "builder_ok (demo_builder_cut t)"
  by (auto simp: builder_ok_def demo_cluster_defs primary_reference_ok_def group_nodes_ok_def replica_ok_def
      is_primary_def kNoNodeIndex_def group_slots_def range_slots_def range_ok_def kSlotCount_def)

definition demo_state :: "u64 \<Rightarrow> ServingState" where
  "demo_state t = make_state (demo_builder t) 0 (built_map (demo_builder t))"

definition demo_state_cut :: "u64 \<Rightarrow> ServingState" where
  "demo_state_cut t = make_state (demo_builder_cut t) 2 (built_map (demo_builder_cut t))"

lemma demo_built: "Build (demo_builder t) 0 = Inr (demo_state t)"
  "Build (demo_builder_cut t) 2 = Inr (demo_state_cut t)"
  by (simp_all add: Build_Inr demo_builder_ok demo_state_def demo_state_cut_def)

theorem build_slot_ownership_witness:
  "GroupForSlot (demo_state 1) 7 = Some (demo_group 1) \<and>
   unat (ss_covered_slots (demo_state 1)) = card {slot. GroupForSlot (demo_state 1) slot \<noteq> None}"
  using build_slot_ownership [OF demo_built(1), of 1 7 "demo_group 1"] by (simp add: demo_cluster_defs)

lemma single_group_slot:
  assumes "builder_ok b" "sb_groups b = [g]"
  shows "map_option gv_group_id (GroupForSlot (make_state b fresh (built_map b)) slot) =
    (if \<exists>r \<in> set (gv_slot_ranges g). sr_first r \<le> slot \<and> slot \<le> sr_last r then Some (gv_group_id g) else None)"
proof (cases "unat slot \<in> set (group_slots g)")
  case True
  then show ?thesis
    using built_group_for_slot [OF assms(1), of fresh slot g] assms(2) by (simp add: group_slots_iff)
next
  case False
  then have "GroupForSlot (make_state b fresh (built_map b)) slot = None"
    using built_group_for_slot [OF assms(1), of fresh slot] assms(2)
    by (cases "GroupForSlot (make_state b fresh (built_map b)) slot") auto
  then show ?thesis using False by (simp add: group_slots_iff)
qed

lemma demo_groups:
  "sb_groups (demo_builder t) = [demo_group t]"
  "sb_groups (demo_builder_cut t) = [(demo_group t)\<lparr>gv_primary_node_index := 1,
     gv_replica_node_indices := [0], gv_slot_ranges := [\<lparr>sr_first = 7, sr_last = 9\<rparr>, \<lparr>sr_first = 5, sr_last = 6\<rparr>]\<rparr>]"
  by (simp_all add: demo_cluster_defs)

lemma demo_slots:
  "map_option gv_group_id (GroupForSlot (demo_state t) slot) =
   map_option gv_group_id (GroupForSlot (demo_state_cut t) slot)"
proof -
  have "5 \<le> slot \<and> slot \<le> 9 \<longleftrightarrow> 7 \<le> slot \<and> slot \<le> 9 \<or> 5 \<le> slot \<and> slot \<le> 6"
    by (auto simp: word_le_nat_alt)
  then show ?thesis
    unfolding demo_state_def demo_state_cut_def single_group_slot [OF demo_builder_ok(1) demo_groups(1)]
      single_group_slot [OF demo_builder_ok(2) demo_groups(2)]
    by (simp add: demo_group_def)
qed

lemma demo_content: "snapshot_content (demo_state t) = snapshot_content (demo_state_cut t)"
  unfolding snapshot_content_def demo_slots
  by (simp add: demo_state_def make_state_def demo_state_cut_def demo_cluster_defs node_ref_def node_at_def
        kNoNodeIndex_def node_content_def group_content_def is_primary_def add_mset_commute)

theorem content_hash_semantic_witness:
  "snapshot_content (demo_state 1) = snapshot_content (demo_state_cut 1) \<and>
   Publish (Some (demo_state_cut 1))
     \<lparr>tc_current = Some (demo_state 1), tc_version = 8, tc_publication_sequence = 16\<rparr> =
   (\<lparr>tc_current = Some (demo_state 1), tc_version = 8, tc_publication_sequence = 16\<rparr>, 8)"
  using content_hash_semantic [OF demo_built(1) [of 1] demo_built(2) [of 1] demo_content,
      of "\<lparr>tc_current = Some (demo_state 1), tc_version = 8, tc_publication_sequence = 16\<rparr>"]
  by (simp add: demo_content)

definition demo_current :: ServingState where
  "demo_current = (demo_state 1)\<lparr>ss_content_hash := ss_content_hash (demo_state_cut 1) + 1\<rparr>"

lemma demo_current_wf: "state_wf demo_current"
  using Build_wf [OF demo_built(1) [of 1]] by (simp add: demo_current_def state_wf_def)

theorem publish_shares_cells_witness:
  "\<exists>st h. tc_current (fst (Publish (Some (demo_state_cut 1))
       \<lparr>tc_current = Some demo_current, tc_version = 8, tc_publication_sequence = 16\<rparr>)) = Some st \<and>
     group_cell st ''g'' = Some h \<and> state_wf st"
  using publish_shares_cells [OF demo_current_wf demo_built(2) [of 1], of
      "\<lparr>tc_current = Some demo_current, tc_version = 8, tc_publication_sequence = 16\<rparr>" "''g''"]
  by (auto simp: demo_current_def demo_state_def demo_state_cut_def make_state_def demo_cluster_defs
      FindGroup_def)

end
