(* ===== verification/Authority.thy ===== *)
theory Authority
  imports Snapshot
begin

text \<open>
  The request admission gate and the lease-carrying authority guard,
  \<^verbatim>\<open>src/cluster/authority.cpp\<close> and \<^verbatim>\<open>include/lavik/cluster/authority.h\<close>. Pure decisions
  (\<open>Admit\<close>, \<open>AuthorityUnchanged\<close>) are functions of snapshots. The guard is a record with the
  writer's state, the published copy that requests read, and the expiration receipts; every
  method is a function from guard to guard.
\<close>

section \<open>Routing decisions\<close>

record RequestView =
  rv_slots :: "u16 list"
  rv_is_write :: bool
  rv_connection_readonly :: bool
  rv_loading_allowed :: bool

datatype decision_kind =
    kServe
  | kServeStaleRead
  | kMoved
  | kClusterDownUnbound
  | kCrossSlot
  | kLoading
  | kTryAgain
  | kCloseConnection

record Decision =
  dc_kind :: decision_kind
  dc_moved_slot :: u16
  dc_moved_port :: u16
  dc_moved_tls_port :: u16
  dc_moved_host :: string

definition new_decision :: Decision where
  "new_decision = \<lparr>dc_kind = kServe, dc_moved_slot = 0, dc_moved_port = 0, dc_moved_tls_port = 0, dc_moved_host = []\<rparr>"

definition GroupReady :: "GroupView \<Rightarrow> bool" where
  "GroupReady g = (gv_storage_ready g \<and> gv_population_ready g)"

fun InvolvedGroupsReady :: "ServingState \<Rightarrow> u16 list \<Rightarrow> bool" where
  "InvolvedGroupsReady st [] = True"
| "InvolvedGroupsReady st (slot # slots) =
     (case GroupForSlot st slot of
        Some g \<Rightarrow> if \<not> GroupReady g then False else InvolvedGroupsReady st slots
      | None \<Rightarrow> InvolvedGroupsReady st slots)"

definition admit_single :: "ServingState \<Rightarrow> RequestView \<Rightarrow> u16 \<Rightarrow> GroupView \<Rightarrow> Decision" where
  "admit_single st r slot g =
     (let self_index = ss_self_node_index st in
      if self_index = gv_primary_node_index g then
        new_decision\<lparr>dc_kind :=
          (if \<not> gv_granted g then kClusterDownUnbound
           else if rv_is_write r \<and> gv_mutations_paused g then kTryAgain else kServe)\<rparr>
      else if self_index \<noteq> kNoNodeIndex \<and> \<not> rv_is_write r \<and> rv_connection_readonly r \<and>
              self_index \<in> set (gv_replica_node_indices g)
      then new_decision\<lparr>dc_kind := kServeStaleRead\<rparr>
      else case NodeAt st (gv_primary_node_index g) of
             None \<Rightarrow> new_decision\<lparr>dc_kind := kClusterDownUnbound\<rparr>
           | Some primary \<Rightarrow>
               \<lparr>dc_kind = kMoved, dc_moved_slot = slot, dc_moved_port = nd_port primary,
                dc_moved_tls_port = nd_tls_port primary, dc_moved_host = nd_host primary\<rparr>)"

definition Admit :: "ServingState option \<Rightarrow> RequestView \<Rightarrow> Decision" where
  "Admit state r =
     (case state of
        None \<Rightarrow> new_decision\<lparr>dc_kind := if rv_loading_allowed r then kServe else kLoading\<rparr>
      | Some st \<Rightarrow>
          if \<not> (if rv_slots r = [] then FullyReady st else InvolvedGroupsReady st (rv_slots r))
          then new_decision\<lparr>dc_kind := if rv_loading_allowed r then kServe else kLoading\<rparr>
          else (case rv_slots r of
                  [] \<Rightarrow> new_decision\<lparr>dc_kind := kServe\<rparr>
                | slot # others \<Rightarrow>
                   (case GroupForSlot st slot of
                      None \<Rightarrow> new_decision\<lparr>dc_kind := kClusterDownUnbound\<rparr>
                    | Some g \<Rightarrow>
                        if list_ex (\<lambda>other. other \<noteq> slot) others
                        then new_decision\<lparr>dc_kind := kCrossSlot\<rparr>
                        else admit_single st r slot g)))"

section \<open>Comparing snapshots\<close>

text \<open>The tests \<open>admitted = c\<close> compare the addresses of immutable snapshots.\<close>

fun authority_slots_unchanged :: "ServingState \<Rightarrow> ServingState \<Rightarrow> u16 list \<Rightarrow> bool" where
  "authority_slots_unchanged admitted current [] = True"
| "authority_slots_unchanged admitted current (slot # slots) =
     (case (GroupForSlot admitted slot, GroupForSlot current slot) of
        (None, None) \<Rightarrow> authority_slots_unchanged admitted current slots
      | (Some before, Some now) \<Rightarrow>
          if gv_group_id before \<noteq> gv_group_id now \<or>
             AuthorityTokenForSlot admitted slot \<noteq> AuthorityTokenForSlot current slot
          then False
          else authority_slots_unchanged admitted current slots
      | _ \<Rightarrow> False)"

definition AuthorityUnchanged :: "ServingState \<Rightarrow> ServingState option \<Rightarrow> u16 list \<Rightarrow> bool" where
  "AuthorityUnchanged admitted current slots =
     (case current of
        None \<Rightarrow> slots = []
      | Some c \<Rightarrow> admitted = c \<or> authority_slots_unchanged admitted c slots)"

fun mutation_slots_unchanged :: "ServingState \<Rightarrow> ServingState \<Rightarrow> u16 list \<Rightarrow> bool" where
  "mutation_slots_unchanged admitted current [] = True"
| "mutation_slots_unchanged admitted current (slot # slots) =
     (case (GroupForSlot admitted slot, GroupForSlot current slot) of
        (Some before, Some now) \<Rightarrow>
          if gv_group_id before \<noteq> gv_group_id now \<or> gv_mutations_paused before \<noteq> gv_mutations_paused now
          then False
          else mutation_slots_unchanged admitted current slots
      | _ \<Rightarrow> False)"

definition MutationAdmissionUnchanged :: "ServingState \<Rightarrow> ServingState option \<Rightarrow> u16 list \<Rightarrow> bool" where
  "MutationAdmissionUnchanged admitted current slots =
     (case current of
        None \<Rightarrow> slots = []
      | Some c \<Rightarrow> admitted = c \<or> mutation_slots_unchanged admitted c slots)"

section \<open>Leases\<close>

type_synonym MonotonicTime = int

record SessionIdentity =
  si_session_id :: ControlId128
  si_generation :: u64
  si_data_boot_id :: NodeId

definition complete :: "SessionIdentity \<Rightarrow> bool" where
  "complete s = (si_session_id s \<noteq> None \<and> si_generation s \<noteq> 0 \<and> si_data_boot_id s \<noteq> None)"

record AuthorityAnchor =
  aa_group_id :: string
  aa_assignment_id :: ControlId128
  aa_group_term :: u64

record Lease =
  ls_session :: SessionIdentity
  ls_anchor :: AuthorityAnchor
  ls_deadline :: MonotonicTime
  ls_receipt :: nat

record AuthorityState =
  as_session :: "SessionIdentity option"
  as_leases :: "(string, Lease) mapping"
  as_generation :: u64

text \<open>
  \<open>ag_receipts\<close> is the next unused expiration receipt, \<open>ag_recorded\<close> the receipts whose flag
  is set, \<open>ag_expirations\<close> the lease-expiration metric.
\<close>

record AuthorityGuard =
  ag_writer :: AuthorityState
  ag_published :: AuthorityState
  ag_version :: u64
  ag_receipts :: nat
  ag_recorded :: "nat set"
  ag_expirations :: u64

definition new_authority :: AuthorityState where
  "new_authority = \<lparr>as_session = None, as_leases = Mapping.empty, as_generation = 1\<rparr>"

definition new_guard :: AuthorityGuard where
  "new_guard = \<lparr>ag_writer = new_authority, ag_published = new_authority, ag_version = 0,
     ag_receipts = 0, ag_recorded = {}, ag_expirations = 0\<rparr>"

definition PublishAuthorityLocked :: "AuthorityGuard \<Rightarrow> AuthorityGuard" where
  "PublishAuthorityLocked ag = ag\<lparr>ag_published := ag_writer ag, ag_version := ag_version ag + 1\<rparr>"

text \<open>A thread's cached copy of the published authority with the version it was read at.\<close>

definition CurrentAuthority ::
    "(u64 \<times> AuthorityState) option \<Rightarrow> AuthorityGuard \<Rightarrow> (u64 \<times> AuthorityState) option \<times> AuthorityState" where
  "CurrentAuthority cached ag =
     (case cached of
        Some (version, state) \<Rightarrow>
          if version = ag_version ag then (cached, state)
          else (Some (ag_version ag, ag_published ag), ag_published ag)
      | None \<Rightarrow> (Some (ag_version ag, ag_published ag), ag_published ag))"

definition LocalPrimaryAnchor :: "ServingState \<Rightarrow> string \<Rightarrow> AuthorityAnchor option" where
  "LocalPrimaryAnchor st group_id =
     (case FindGroup st group_id of
        None \<Rightarrow> None
      | Some g \<Rightarrow>
          if ss_self_node_index st = kNoNodeIndex \<or> gv_primary_node_index g \<noteq> ss_self_node_index st \<or>
             \<not> gv_granted g \<or> \<not> gv_population_ready g \<or> \<not> gv_storage_ready g
          then None
          else Some \<lparr>aa_group_id = gv_group_id g, aa_assignment_id = gv_assignment_id g,
                     aa_group_term = gv_group_term g\<rparr>)"

text \<open>Claiming a receipt: an atomic exchange of its flag that counts the expiry at most once.\<close>

definition record_expiration :: "nat \<Rightarrow> AuthorityGuard \<Rightarrow> AuthorityGuard" where
  "record_expiration receipt ag =
     (if receipt \<in> ag_recorded ag then ag
      else ag\<lparr>ag_recorded := insert receipt (ag_recorded ag), ag_expirations := ag_expirations ag + 1\<rparr>)"

fun lease_covers_loop ::
    "SessionIdentity \<Rightarrow> (string, Lease) mapping \<Rightarrow> ServingState \<Rightarrow> string \<Rightarrow> u16 list \<Rightarrow> MonotonicTime \<Rightarrow>
     AuthorityGuard \<Rightarrow> bool \<times> AuthorityGuard" where
  "lease_covers_loop session leases st checked [] now ag = (True, ag)"
| "lease_covers_loop session leases st checked (slot # slots) now ag =
     (case GroupForSlot st slot of
        None \<Rightarrow> lease_covers_loop session leases st checked slots now ag
      | Some g \<Rightarrow>
          if gv_group_id g = checked then lease_covers_loop session leases st checked slots now ag
          else if gv_primary_node_index g \<noteq> ss_self_node_index st
          then lease_covers_loop session leases st (gv_group_id g) slots now ag
          else (case Mapping.lookup leases (gv_group_id g) of
                  None \<Rightarrow> (False, ag)
                | Some lease \<Rightarrow>
                    if ls_session lease \<noteq> session then (False, ag)
                    else if ls_deadline lease \<le> now then (False, record_expiration (ls_receipt lease) ag)
                    else if LocalPrimaryAnchor st (gv_group_id g) \<noteq> Some (ls_anchor lease) then (False, ag)
                    else lease_covers_loop session leases st (gv_group_id g) slots now ag))"

definition LeaseCovers ::
    "AuthorityState \<Rightarrow> ServingState \<Rightarrow> u16 list \<Rightarrow> MonotonicTime \<Rightarrow> AuthorityGuard \<Rightarrow> bool \<times> AuthorityGuard" where
  "LeaseCovers authority st slots now ag =
     (case as_session authority of
        None \<Rightarrow> (False, ag)
      | Some session \<Rightarrow> lease_covers_loop session (as_leases authority) st [] slots now ag)"

section \<open>Admissions\<close>

record AuthorityAdmission =
  ad_decision :: Decision
  ad_state :: "ServingState option"
  ad_slots :: "u16 list"
  ad_gate_generation :: u64
  ad_lease_checked :: bool
  ad_mutation_started :: bool
  ad_final_recheck_failed :: bool

definition new_admission :: AuthorityAdmission where
  "new_admission = \<lparr>ad_decision = new_decision, ad_state = None, ad_slots = [], ad_gate_generation = 0,
     ad_lease_checked = False, ad_mutation_started = False, ad_final_recheck_failed = False\<rparr>"

text \<open>
  Moving an admission: the new record and what is left in the source, whose moved-from slot
  vector holds unspecified slots \<open>left\<close>.
\<close>

definition move_admission :: "u16 list \<Rightarrow> AuthorityAdmission \<Rightarrow> AuthorityAdmission \<times> AuthorityAdmission" where
  "move_admission left other = (other, other\<lparr>ad_decision := new_decision, ad_state := None, ad_slots := left\<rparr>)"

definition CaptureAndAdmit ::
    "TopologyCache \<Rightarrow> RequestView \<Rightarrow> MonotonicTime \<Rightarrow> AuthorityGuard \<Rightarrow> AuthorityAdmission \<times> AuthorityGuard" where
  "CaptureAndAdmit topology r now ag =
     (let state = tc_current topology;
          decision = Admit state r;
          admission = new_admission\<lparr>ad_state := state, ad_slots := rv_slots r, ad_decision := decision\<rparr>
      in case (state, rv_slots r) of
           (Some st, slot # _) \<Rightarrow>
             if dc_kind decision \<noteq> kServe then (admission, ag)
             else (case GroupForSlot st slot of
                     None \<Rightarrow> (admission, ag)
                   | Some g \<Rightarrow>
                       if gv_primary_node_index g \<noteq> ss_self_node_index st then (admission, ag)
                       else let authority = ag_published ag;
                                admission = admission\<lparr>ad_gate_generation := as_generation authority,
                                                      ad_lease_checked := True\<rparr>;
                                (covered, ag) = LeaseCovers authority st (rv_slots r) now ag
                            in (if covered then admission
                                else admission\<lparr>ad_decision := decision\<lparr>dc_kind := kClusterDownUnbound\<rparr>\<rparr>, ag))
         | _ \<Rightarrow> (admission, ag))"

datatype RecheckResult = kOk | kReject | kUncertain

definition Recheck ::
    "TopologyCache \<Rightarrow> AuthorityAdmission \<Rightarrow> MonotonicTime \<Rightarrow> AuthorityGuard \<Rightarrow> RecheckResult \<times> AuthorityGuard" where
  "Recheck topology admission now ag =
     (if dc_kind (ad_decision admission) \<noteq> kServe \<and> dc_kind (ad_decision admission) \<noteq> kServeStaleRead
      then (kReject, ag)
      else case ad_state admission of
        None \<Rightarrow> (if ad_slots admission = [] then kOk else kReject, ag)
      | Some st \<Rightarrow>
          let authority = ag_published ag;
              (covered, ag) =
                (if \<not> ad_lease_checked admission then (True, ag)
                 else if ad_gate_generation admission \<noteq> as_generation authority then (False, ag)
                 else LeaseCovers authority st (ad_slots admission) now ag)
          in if \<not> covered then (kReject, ag)
             else (if AuthorityUnchanged st (tc_current topology) (ad_slots admission) then kOk else kReject, ag))"

definition RecheckAtMutation ::
    "TopologyCache \<Rightarrow> AuthorityAdmission \<Rightarrow> MonotonicTime \<Rightarrow> AuthorityGuard \<Rightarrow>
     RecheckResult \<times> AuthorityAdmission \<times> AuthorityGuard" where
  "RecheckAtMutation topology admission now ag =
     (let (result, ag) = Recheck topology admission now ag in
      (result,
       if result = kOk then admission\<lparr>ad_mutation_started := True\<rparr>
       else admission\<lparr>ad_final_recheck_failed := True\<rparr>,
       ag))"

text \<open>
  \<open>RegisterAndRecheck\<close> reads the topology three times: \<open>before\<close> is the cache when the registration
  begins, \<open>after\<close> the one whose sequence number is compared and \<open>later\<close> the one \<open>Recheck\<close> reads, so
  that publications may fall in between. A guard is the cell it entered and the stripe; the guards
  it is handed are released first. \<^const>\<open>None\<close> is the unchecked slot access of
  \<^const>\<open>InFlightCellForSlot\<close> or the failed assertion of \<^const>\<open>Enter\<close>.
\<close>

type_synonym guards = "(nat \<times> nat) list"

fun register_cells ::
    "ServingState \<Rightarrow> nat \<Rightarrow> u16 list \<Rightarrow> guards \<Rightarrow> cells \<Rightarrow> (guards \<times> cells) option" where
  "register_cells st stripe [] gs cs = Some (gs, cs)"
| "register_cells st stripe (slot # slots) gs cs =
     (case InFlightCellForSlot st slot of
        None \<Rightarrow> None
      | Some None \<Rightarrow> register_cells st stripe slots gs cs
      | Some (Some cell) \<Rightarrow>
          if list_ex (\<lambda>guard. fst guard = cell) gs then register_cells st stripe slots gs cs
          else (case Enter stripe (cs cell) of
                  None \<Rightarrow> None
                | Some c \<Rightarrow> register_cells st stripe slots (gs @ [(cell, stripe)]) (cs(cell := c))))"

fun clear_guards :: "guards \<Rightarrow> cells \<Rightarrow> cells option" where
  "clear_guards [] cs = Some cs"
| "clear_guards ((cell, stripe) # gs) cs =
     (case Exit stripe (cs cell) of None \<Rightarrow> None | Some c \<Rightarrow> clear_guards gs (cs(cell := c)))"

definition RegisterAndRecheck ::
    "TopologyCache \<Rightarrow> TopologyCache \<Rightarrow> TopologyCache \<Rightarrow> AuthorityAdmission \<Rightarrow> nat \<Rightarrow> MonotonicTime \<Rightarrow> guards \<Rightarrow>
     AuthorityGuard \<Rightarrow> cells \<Rightarrow> (RecheckResult \<times> guards \<times> AuthorityGuard \<times> cells) option" where
  "RegisterAndRecheck before after later admission stripe now guards ag cs =
     (case clear_guards guards cs of
        None \<Rightarrow> None
      | Some cs \<Rightarrow>
         (case ad_state admission of
            None \<Rightarrow> Some (kReject, [], ag, cs)
          | Some admitted \<Rightarrow>
             (case register_cells admitted stripe (ad_slots admission) [] cs of
                None \<Rightarrow> None
              | Some (gs, cs) \<Rightarrow>
                  if tc_publication_sequence after = tc_publication_sequence before \<and>
                     MutationAdmissionUnchanged admitted (tc_current before) (ad_slots admission)
                  then let (result, ag) = Recheck later admission now ag in
                    if result = kOk then Some (kOk, gs, ag, cs)
                    else map_option (\<lambda>cs. (kReject, [], ag, cs)) (clear_guards gs cs)
                  else map_option (\<lambda>cs. (kReject, [], ag, cs)) (clear_guards gs cs))))"

section \<open>Writers\<close>

definition RenewLease ::
    "SessionIdentity \<Rightarrow> AuthorityAnchor \<Rightarrow> MonotonicTime \<Rightarrow> MonotonicTime \<Rightarrow> AuthorityGuard \<Rightarrow>
     unit status_or \<times> AuthorityGuard" where
  "RenewLease session anchor deadline now ag =
     (if \<not> complete session then (Inl InvalidArgument, ag)
      else if deadline \<le> now then (Inl DeadlineExceeded, ag)
      else
        let w = ag_writer ag;
            w = (if as_session w \<noteq> Some session
                 then w\<lparr>as_leases := Mapping.empty, as_session := Some session, as_generation := as_generation w + 1\<rparr>
                 else w);
            installed = \<lparr>ls_session = session, ls_anchor = anchor, ls_deadline = deadline, ls_receipt = ag_receipts ag\<rparr>;
            install = (\<lambda>lease w. (Inr (), PublishAuthorityLocked (ag\<lparr>ag_receipts := ag_receipts ag + 1,
                ag_writer := w\<lparr>as_leases := Mapping.update (aa_group_id anchor) lease (as_leases w)\<rparr>\<rparr>)))
        in case Mapping.lookup (as_leases w) (aa_group_id anchor) of
             Some existing \<Rightarrow>
               if ls_session existing = session \<and> ls_anchor existing = anchor then
                 if ls_deadline existing \<le> now then (Inl FailedPrecondition, ag\<lparr>ag_writer := w\<rparr>)
                 else install (existing\<lparr>ls_deadline := deadline, ls_receipt := ag_receipts ag\<rparr>) w
               else install installed (w\<lparr>as_generation := as_generation w + 1\<rparr>)
           | None \<Rightarrow> install installed (w\<lparr>as_generation := as_generation w + 1\<rparr>))"

definition HasExactLease ::
    "SessionIdentity \<Rightarrow> AuthorityAnchor \<Rightarrow> MonotonicTime \<Rightarrow> MonotonicTime \<Rightarrow> AuthorityGuard \<Rightarrow> bool" where
  "HasExactLease session anchor deadline now ag =
     (let authority = ag_published ag in
      if as_session authority \<noteq> Some session then False
      else case Mapping.lookup (as_leases authority) (aa_group_id anchor) of
             None \<Rightarrow> False
           | Some lease \<Rightarrow> ls_session lease = session \<and> ls_anchor lease = anchor \<and>
               ls_deadline lease = deadline \<and> now < deadline)"

text \<open>Removing leases: the new lease table and session, a new generation, a publication.\<close>

definition revoke :: "SessionIdentity option \<Rightarrow> (string, Lease) mapping \<Rightarrow> AuthorityGuard \<Rightarrow> AuthorityGuard" where
  "revoke session leases ag =
     PublishAuthorityLocked (ag\<lparr>ag_writer := \<lparr>as_session = session, as_leases = leases,
       as_generation = as_generation (ag_writer ag) + 1\<rparr>\<rparr>)"

definition ExpireLease ::
    "SessionIdentity \<Rightarrow> AuthorityAnchor \<Rightarrow> MonotonicTime \<Rightarrow> MonotonicTime \<Rightarrow> AuthorityGuard \<Rightarrow> bool \<times> AuthorityGuard" where
  "ExpireLease session anchor deadline now ag =
     (if now < deadline then (False, ag)
      else if as_session (ag_writer ag) \<noteq> Some session then (False, ag)
      else case Mapping.lookup (as_leases (ag_writer ag)) (aa_group_id anchor) of
             None \<Rightarrow> (False, ag)
           | Some lease \<Rightarrow>
               if ls_session lease \<noteq> session \<or> ls_anchor lease \<noteq> anchor \<or> ls_deadline lease \<noteq> deadline
               then (False, ag)
               else (True, record_expiration (ls_receipt lease)
                      (revoke (Some session) (Mapping.delete (aa_group_id anchor) (as_leases (ag_writer ag))) ag)))"

definition InvalidateSession :: "SessionIdentity \<Rightarrow> AuthorityGuard \<Rightarrow> AuthorityGuard" where
  "InvalidateSession session ag =
     (if as_session (ag_writer ag) \<noteq> Some session then ag else revoke None Mapping.empty ag)"

definition InvalidateAnchorsChanged :: "ServingState \<Rightarrow> AuthorityGuard \<Rightarrow> AuthorityGuard" where
  "InvalidateAnchorsChanged after ag =
     (let leases = as_leases (ag_writer ag);
          kept = Mapping.filter (\<lambda>i lease. LocalPrimaryAnchor after i = Some (ls_anchor lease)) leases
      in if Mapping.keys kept = Mapping.keys leases then ag
         else revoke (as_session (ag_writer ag)) kept ag)"

definition Fence :: "AuthorityAnchor \<Rightarrow> AuthorityGuard \<Rightarrow> AuthorityGuard" where
  "Fence anchor ag =
     (case Mapping.lookup (as_leases (ag_writer ag)) (aa_group_id anchor) of
        None \<Rightarrow> ag
      | Some _ \<Rightarrow> revoke (as_session (ag_writer ag))
                   (Mapping.delete (aa_group_id anchor) (as_leases (ag_writer ag))) ag)"

definition InvalidateLeases :: "AuthorityGuard \<Rightarrow> AuthorityGuard" where
  "InvalidateLeases ag =
     (if Mapping.is_empty (as_leases (ag_writer ag)) then ag
      else revoke (as_session (ag_writer ag)) Mapping.empty ag)"

definition InvalidateAll :: "AuthorityGuard \<Rightarrow> AuthorityGuard" where
  "InvalidateAll ag = revoke None Mapping.empty ag"

end
