(* ===== verification/Lease_Safety.thy ===== *)
theory Lease_Safety
  imports Authority
begin

text \<open>
  What the admission gate and the authority guard guarantee: which requests are served where,
  that a served request of a local primary holds an exact unexpired lease, that a re-check
  succeeds only while that lease has been held without a gap, and that registration counts
  in-flight requests exactly.
\<close>

section \<open>Routing\<close>

lemma InvolvedGroupsReady_iff:
  "InvolvedGroupsReady st slots \<longleftrightarrow> (\<forall>slot \<in> set slots. \<forall>g. GroupForSlot st slot = Some g \<longrightarrow> GroupReady g)"
  by (induction slots) (auto split: option.splits)

lemma primary_resolves:
  assumes "state_wf st" "GroupForSlot st slot = Some g" "length (ss_nodes st) < 2 ^ 32"
  shows "\<exists>p. NodeAt st (gv_primary_node_index g) = Some p \<and> is_primary p"
proof -
  have "g \<in> set (ss_groups st)" using GroupForSlot_FindGroup [OF assms(1,2)] by simp
  then have "group_nodes_ok (ss_nodes st) g" using assms(1) by (simp add: state_wf_def)
  moreover have "unat kNoNodeIndex = 2 ^ 32 - 1"
    by (simp add: kNoNodeIndex_def unsigned_minus_1_eq_mask mask_eq_exp_minus_1)
  ultimately show ?thesis using assms(3) by (auto simp: NodeAt_def group_nodes_ok_def)
qed

text \<open>
  (C11) The routing table of the admission gate. For a keyed request whose groups are ready, on a
  snapshot as \<open>Build\<close> makes them: it is served locally exactly when all keys are in one bound
  slot, this node is the granted primary of the owning group and the request is not a write to a
  paused group; it is a stale read exactly for a READONLY read on a replica of the owning group;
  and it is redirected exactly when another node is the primary and no stale read applies, to
  the advertised address of that primary.
\<close>

theorem admit_routes:
  assumes "state_wf st" "length (ss_nodes st) < 2 ^ 32" "rv_slots r = slot # others"
    and "InvolvedGroupsReady st (rv_slots r)"
  shows "(dc_kind (Admit (Some st) r) = kServe \<longleftrightarrow>
            (\<exists>g. GroupForSlot st slot = Some g \<and> set others \<subseteq> {slot} \<and>
               gv_primary_node_index g = ss_self_node_index st \<and> gv_granted g \<and>
               \<not> (rv_is_write r \<and> gv_mutations_paused g))) \<and>
         (dc_kind (Admit (Some st) r) = kServeStaleRead \<longleftrightarrow>
            (\<exists>g. GroupForSlot st slot = Some g \<and> set others \<subseteq> {slot} \<and>
               gv_primary_node_index g \<noteq> ss_self_node_index st \<and> ss_self_node_index st \<noteq> kNoNodeIndex \<and>
               ss_self_node_index st \<in> set (gv_replica_node_indices g) \<and>
               \<not> rv_is_write r \<and> rv_connection_readonly r)) \<and>
         (dc_kind (Admit (Some st) r) = kMoved \<longleftrightarrow>
            (\<exists>g. GroupForSlot st slot = Some g \<and> set others \<subseteq> {slot} \<and>
               gv_primary_node_index g \<noteq> ss_self_node_index st \<and>
               dc_kind (Admit (Some st) r) \<noteq> kServeStaleRead)) \<and>
         (dc_kind (Admit (Some st) r) = kMoved \<longrightarrow>
            (\<exists>p. PrimaryForSlot st slot = Some p \<and> is_primary p \<and>
               Admit (Some st) r = \<lparr>dc_kind = kMoved, dc_moved_slot = slot, dc_moved_port = nd_port p,
                 dc_moved_tls_port = nd_tls_port p, dc_moved_host = nd_host p\<rparr>))"
proof (cases "GroupForSlot st slot")
  case None
  then show ?thesis using assms by (simp add: Admit_def new_decision_def)
next
  case (Some g)
  obtain p where p: "NodeAt st (gv_primary_node_index g) = Some p" "is_primary p"
    using primary_resolves [OF assms(1) Some assms(2)] by blast
  have others: "list_ex (\<lambda>other. other \<noteq> slot) others \<longleftrightarrow> \<not> set others \<subseteq> {slot}"
    by (auto simp: list_ex_iff)
  have "Admit (Some st) r =
     (if set others \<subseteq> {slot} then admit_single st r slot g else new_decision\<lparr>dc_kind := kCrossSlot\<rparr>)"
    using assms(3,4) Some by (simp add: Admit_def others del: InvolvedGroupsReady.simps)
  then show ?thesis
    using Some p by (auto simp: admit_single_def new_decision_def Let_def PrimaryForSlot_def)
qed

section \<open>What a lease check says\<close>

definition lease_ok :: "SessionIdentity \<Rightarrow> (string, Lease) mapping \<Rightarrow> ServingState \<Rightarrow> MonotonicTime \<Rightarrow> GroupView \<Rightarrow> bool" where
  "lease_ok session leases st now g \<longleftrightarrow>
     (gv_primary_node_index g = ss_self_node_index st \<longrightarrow>
      (\<exists>l. Mapping.lookup leases (gv_group_id g) = Some l \<and> ls_session l = session \<and> now < ls_deadline l \<and>
         LocalPrimaryAnchor st (gv_group_id g) = Some (ls_anchor l)))"

lemma lease_covers_loop_iff:
  assumes "state_wf st" "\<And>g. FindGroup st checked = Some g \<Longrightarrow> lease_ok session leases st now g"
  shows "fst (lease_covers_loop session leases st checked slots now ag) \<longleftrightarrow>
    (\<forall>slot \<in> set slots. \<forall>g. GroupForSlot st slot = Some g \<longrightarrow> lease_ok session leases st now g)"
  using assms(2)
proof (induction slots arbitrary: checked ag)
  case (Cons slot slots)
  show ?case
  proof (cases "GroupForSlot st slot")
    case None
    then show ?thesis using Cons by simp
  next
    case (Some g)
    have fg: "FindGroup st (gv_group_id g) = Some g"
      using GroupForSlot_FindGroup [OF assms(1) Some] by simp
    show ?thesis
    proof (cases "lease_ok session leases st now g")
      case True
      then have ok: "\<And>g'. FindGroup st (gv_group_id g) = Some g' \<Longrightarrow> lease_ok session leases st now g'"
        using fg by simp
      show ?thesis
        using True Some Cons.IH [OF ok] Cons.IH [OF Cons.prems] by (auto simp: lease_ok_def)
    next
      case False
      moreover from this have "gv_group_id g \<noteq> checked" using Cons.prems fg by auto
      ultimately show ?thesis using Some by (auto simp: lease_ok_def split: option.splits)
    qed
  qed
qed simp

lemma LeaseCovers_iff:
  assumes "state_wf st"
  shows "fst (LeaseCovers authority st slots now ag) \<longleftrightarrow>
    (\<exists>session. as_session authority = Some session \<and>
      (\<forall>slot \<in> set slots. \<forall>g. GroupForSlot st slot = Some g \<longrightarrow> lease_ok session (as_leases authority) st now g))"
proof -
  have "FindGroup st [] = None"
    using assms by (auto simp: FindGroup_def find_group_index_None state_wf_def)
  then show ?thesis
    using lease_covers_loop_iff [OF assms, of "[]"] by (simp add: LeaseCovers_def split: option.splits)
qed

lemma LeaseCovers_owned:
  assumes "state_wf st" "fst (LeaseCovers authority st slots now ag)" "slot \<in> set slots"
    and "GroupForSlot st slot = Some g" "gv_primary_node_index g = ss_self_node_index st"
  obtains l where "as_session authority = Some (ls_session l)"
    "Mapping.lookup (as_leases authority) (gv_group_id g) = Some l" "now < ls_deadline l"
    "LocalPrimaryAnchor st (gv_group_id g) = Some (ls_anchor l)"
proof -
  obtain session where s: "as_session authority = Some session" "lease_ok session (as_leases authority) st now g"
    using assms(2-4) unfolding LeaseCovers_iff [OF assms(1)] by blast
  show ?thesis using s(2) that s(1) assms(5) unfolding lease_ok_def by blast
qed

text \<open>Lease checks touch the receipts and the metric only.\<close>

definition same_authority :: "AuthorityGuard \<Rightarrow> AuthorityGuard \<Rightarrow> bool" where
  "same_authority ag ag' \<longleftrightarrow> ag_writer ag' = ag_writer ag \<and> ag_published ag' = ag_published ag"

lemma record_expiration_same: "same_authority ag (record_expiration n ag)"
  by (simp add: record_expiration_def same_authority_def)

lemma lease_covers_loop_same: "same_authority ag (snd (lease_covers_loop session leases st checked slots now ag))"
  by (induction slots arbitrary: checked ag)
    (auto simp: record_expiration_same split: option.splits, simp_all add: same_authority_def)

lemma LeaseCovers_same: "same_authority ag (snd (LeaseCovers authority st slots now ag))"
  using lease_covers_loop_same by (auto simp: LeaseCovers_def same_authority_def split: option.splits)

lemma CaptureAndAdmit_same: "same_authority ag (snd (CaptureAndAdmit topology r now ag))"
  using LeaseCovers_same [of ag]
  by (auto simp: CaptureAndAdmit_def Let_def same_authority_def split: option.splits list.splits prod.splits)
    (metis snd_conv)+

lemma Recheck_same: "same_authority ag (snd (Recheck topology adm now ag))"
  using LeaseCovers_same [of ag]
  by (auto simp: Recheck_def Let_def same_authority_def split: option.splits list.splits prod.splits if_splits)
    (metis snd_conv)+

section \<open>Sequences of guard operations\<close>

datatype authority_op =
    Renew SessionIdentity AuthorityAnchor MonotonicTime
  | Expire SessionIdentity AuthorityAnchor MonotonicTime
  | Invalidate_Session SessionIdentity
  | Anchors_Changed ServingState
  | Fence_Group AuthorityAnchor
  | Invalidate_Leases
  | Invalidate_All
  | Request TopologyCache RequestView
  | Request_Recheck TopologyCache AuthorityAdmission

fun apply_op :: "MonotonicTime \<times> authority_op \<Rightarrow> AuthorityGuard \<Rightarrow> AuthorityGuard" where
  "apply_op (now, Renew s a d) ag = snd (RenewLease s a d now ag)"
| "apply_op (now, Expire s a d) ag = snd (ExpireLease s a d now ag)"
| "apply_op (now, Invalidate_Session s) ag = InvalidateSession s ag"
| "apply_op (now, Anchors_Changed after) ag = InvalidateAnchorsChanged after ag"
| "apply_op (now, Fence_Group a) ag = Fence a ag"
| "apply_op (now, Invalidate_Leases) ag = InvalidateLeases ag"
| "apply_op (now, Invalidate_All) ag = InvalidateAll ag"
| "apply_op (now, Request topology r) ag = snd (CaptureAndAdmit topology r now ag)"
| "apply_op (now, Request_Recheck topology adm) ag = snd (Recheck topology adm now ag)"

definition run_ops :: "(MonotonicTime \<times> authority_op) list \<Rightarrow> AuthorityGuard \<Rightarrow> AuthorityGuard" where
  "run_ops ops ag = fold apply_op ops ag"

lemma run_ops_simps [simp]:
  "run_ops [] ag = ag" "run_ops (x # xs) ag = run_ops xs (apply_op x ag)"
  "run_ops (xs @ ys) ag = run_ops ys (run_ops xs ag)"
  by (simp_all add: run_ops_def)

definition guard_ok :: "AuthorityGuard \<Rightarrow> bool" where
  "guard_ok ag \<longleftrightarrow> ag_published ag = ag_writer ag"

definition lease_of :: "AuthorityGuard \<Rightarrow> string \<Rightarrow> Lease option" where
  "lease_of ag i = Mapping.lookup (as_leases (ag_published ag)) i"

definition generation_of :: "AuthorityGuard \<Rightarrow> nat" where
  "generation_of ag = unat (as_generation (ag_published ag))"

text \<open>
  \<open>kept now l l'\<close>: the lease \<open>l\<close> was left alone or only its deadline was moved, and that
  before it had passed.
\<close>

definition kept :: "MonotonicTime \<Rightarrow> Lease option \<Rightarrow> Lease option \<Rightarrow> bool" where
  "kept now l l' \<longleftrightarrow> l' = l \<or>
     (\<exists>k k'. l = Some k \<and> l' = Some k' \<and> ls_session k' = ls_session k \<and> ls_anchor k' = ls_anchor k \<and>
        now < ls_deadline k)"

definition quiet_step :: "MonotonicTime \<Rightarrow> AuthorityGuard \<Rightarrow> AuthorityGuard \<Rightarrow> bool" where
  "quiet_step now ag ag' \<longleftrightarrow>
     as_session (ag_published ag') = as_session (ag_published ag) \<and> generation_of ag' = generation_of ag \<and>
     (\<forall>i. kept now (lease_of ag i) (lease_of ag' i))"

text \<open>Every operation either is quiet or moves to a later generation.\<close>

definition guarded_step :: "MonotonicTime \<Rightarrow> AuthorityGuard \<Rightarrow> AuthorityGuard \<Rightarrow> bool" where
  "guarded_step now ag ag' \<longleftrightarrow>
     guard_ok ag' \<and>
     (quiet_step now ag ag' \<or>
      generation_of ag < generation_of ag' \<and> generation_of ag' \<le> generation_of ag + 2)"

lemma same_authority_guarded:
  "guard_ok ag \<Longrightarrow> same_authority ag ag' \<Longrightarrow> guarded_step now ag ag'"
  by (simp add: guarded_step_def quiet_step_def guard_ok_def same_authority_def kept_def lease_of_def generation_of_def)

lemma guarded_step_same:
  "guarded_step now ag ag' \<Longrightarrow> same_authority ag' ag'' \<Longrightarrow> guarded_step now ag ag''"
  by (auto simp: guarded_step_def quiet_step_def guard_ok_def same_authority_def generation_of_def lease_of_def)

lemma revoke_guarded:
  assumes "guard_ok ag" "generation_of ag + 1 < 2 ^ 64"
  shows "guarded_step now ag (revoke session leases ag)"
  using assms unat_plus_one [of "as_generation (ag_writer ag)"]
  by (simp add: guarded_step_def guard_ok_def revoke_def PublishAuthorityLocked_def generation_of_def)

lemma RenewLease_guarded:
  assumes "guard_ok ag" "generation_of ag + 2 < 2 ^ 64"
  shows "guarded_step now ag (snd (RenewLease s a d now ag))"
proof -
  let ?w = "ag_writer ag"
  have w: "ag_published ag = ?w" using assms(1) by (simp add: guard_ok_def)
  have g1: "unat (as_generation ?w + 1) = unat (as_generation ?w) + 1"
    and g2: "unat (as_generation ?w + 1 + 1) = unat (as_generation ?w) + 2"
    using assms(2) w by (simp_all add: generation_of_def unat_word_ariths)
  show ?thesis
  proof (cases "complete s \<and> now < d")
    case False
    then show ?thesis using assms(1)
      by (auto simp: RenewLease_def not_less intro!: same_authority_guarded) (simp_all add: same_authority_def)
  next
    case True
    then have t: "complete s" "\<not> d \<le> now" by auto
    show ?thesis
    proof (cases "as_session ?w = Some s")
      case new: False
      then show ?thesis
        using t g2 w by (simp add: RenewLease_def Let_def PublishAuthorityLocked_def guarded_step_def
            guard_ok_def generation_of_def lookup_empty)
    next
      case same: True
      show ?thesis
      proof (cases "\<exists>l. Mapping.lookup (as_leases ?w) (aa_group_id a) = Some l \<and> ls_session l = s \<and> ls_anchor l = a")
        case True
        then obtain l where l: "Mapping.lookup (as_leases ?w) (aa_group_id a) = Some l" "ls_session l = s" "ls_anchor l = a"
          by blast
        show ?thesis
          using t same l w by (auto simp: RenewLease_def Let_def PublishAuthorityLocked_def guarded_step_def
              guard_ok_def generation_of_def quiet_step_def kept_def lease_of_def lookup_update')
      next
        case False
        then show ?thesis
          using t same g1 w by (auto simp: RenewLease_def Let_def PublishAuthorityLocked_def guarded_step_def
              guard_ok_def generation_of_def split: option.splits)
      qed
    qed
  qed
qed

lemma apply_op_guarded:
  assumes "guard_ok ag" "generation_of ag + 2 < 2 ^ 64"
  shows "guarded_step now ag (apply_op (now, op) ag)"
proof -
  have refl: "guarded_step now ag ag" using assms(1) by (rule same_authority_guarded) (simp add: same_authority_def)
  have rev: "guarded_step now ag (revoke session leases ag)" for session leases
    using revoke_guarded assms by simp
  have rec: "guarded_step now ag (record_expiration n (revoke session leases ag))" for n session leases
    by (rule guarded_step_same [OF rev record_expiration_same])
  show ?thesis
  proof (cases op)
    case Renew
    then show ?thesis using RenewLease_guarded [OF assms] by simp
  next
    case Expire
    then show ?thesis using refl rec by (simp add: ExpireLease_def split: option.split)
  next
    case Invalidate_Session
    then show ?thesis using refl rev by (simp add: InvalidateSession_def)
  next
    case Anchors_Changed
    then show ?thesis using refl rev by (simp add: InvalidateAnchorsChanged_def Let_def)
  next
    case Fence_Group
    then show ?thesis using refl rev by (simp add: Fence_def split: option.split)
  next
    case Invalidate_Leases
    then show ?thesis using refl rev by (simp add: InvalidateLeases_def)
  next
    case Invalidate_All
    then show ?thesis using rev by (simp add: InvalidateAll_def)
  next
    case Request
    then show ?thesis using same_authority_guarded [OF assms(1) CaptureAndAdmit_same] by simp
  next
    case Request_Recheck
    then show ?thesis using same_authority_guarded [OF assms(1) Recheck_same] by simp
  qed
qed

lemma run_ops_guarded:
  assumes "guard_ok ag" "generation_of ag + 2 * length ops < 2 ^ 64"
  shows "guard_ok (run_ops ops ag) \<and> generation_of ag \<le> generation_of (run_ops ops ag) \<and>
    generation_of (run_ops ops ag) \<le> generation_of ag + 2 * length ops"
  using assms
proof (induction ops arbitrary: ag)
  case (Cons x ops)
  obtain now op where x: "x = (now, op)" by (cases x)
  have "guarded_step now ag (apply_op x ag)" using apply_op_guarded Cons.prems by (simp add: x)
  then have g: "guard_ok (apply_op x ag)" "generation_of ag \<le> generation_of (apply_op x ag)"
    "generation_of (apply_op x ag) \<le> generation_of ag + 2"
    by (auto simp: guarded_step_def quiet_step_def)
  then show ?case using Cons.IH [OF g(1)] Cons.prems by simp
qed simp

lemma new_guard_ok: "guard_ok new_guard" "generation_of new_guard = 1"
  by (simp_all add: guard_ok_def new_guard_def generation_of_def new_authority_def)

section \<open>A lease is held without a gap\<close>

text \<open>
  \<open>held_throughout\<close>: after any number \<open>k\<close> of the operations \<open>ops\<close> the lease of group \<open>i\<close> is the
  one of session \<open>s\<close> with anchor \<open>a\<close> and its deadline lies after the time of the next operation,
  or after \<open>t\<close> for the last one.
\<close>

definition held_throughout ::
    "AuthorityGuard \<Rightarrow> (MonotonicTime \<times> authority_op) list \<Rightarrow> MonotonicTime \<Rightarrow> string \<Rightarrow> SessionIdentity \<Rightarrow>
     AuthorityAnchor \<Rightarrow> bool" where
  "held_throughout ag ops t i s a \<longleftrightarrow>
     (\<forall>k \<le> length ops. \<exists>l. lease_of (run_ops (take k ops) ag) i = Some l \<and> ls_session l = s \<and>
        ls_anchor l = a \<and> (map fst ops @ [t]) ! k < ls_deadline l)"

lemma held_throughout_Cons:
  assumes "lease_of ag i = Some l" "ls_session l = s" "ls_anchor l = a" "now < ls_deadline l"
    and "held_throughout (apply_op (now, op) ag) ops t i s a"
  shows "held_throughout ag ((now, op) # ops) t i s a"
  unfolding held_throughout_def
proof (intro allI impI)
  fix k assume "k \<le> length ((now, op) # ops)"
  then show "\<exists>l. lease_of (run_ops (take k ((now, op) # ops)) ag) i = Some l \<and> ls_session l = s \<and>
      ls_anchor l = a \<and> (map fst ((now, op) # ops) @ [t]) ! k < ls_deadline l"
    using assms by (cases k) (auto simp: held_throughout_def)
qed

lemma held_backwards:
  assumes "guard_ok ag" "generation_of ag + 2 * length ops < 2 ^ 64" "sorted (map fst ops @ [t])"
    and "generation_of (run_ops ops ag) = generation_of ag"
    and "lease_of (run_ops ops ag) i = Some l" "t < ls_deadline l"
  shows "held_throughout ag ops t i (ls_session l) (ls_anchor l)"
  using assms
proof (induction ops arbitrary: ag)
  case Nil
  then show ?case by (simp add: held_throughout_def)
next
  case (Cons x ops)
  obtain now op where x: "x = (now, op)" by (cases x)
  let ?ag = "apply_op x ag"
  have step: "guarded_step now ag ?ag" using apply_op_guarded Cons.prems by (simp add: x)
  then have ok: "guard_ok ?ag" "generation_of ag \<le> generation_of ?ag" "generation_of ?ag \<le> generation_of ag + 2"
    by (auto simp: guarded_step_def quiet_step_def)
  then have "generation_of ?ag \<le> generation_of (run_ops ops ?ag)"
    using run_ops_guarded [OF ok(1), of ops] Cons.prems(2) by simp
  then have q: "quiet_step now ag ?ag" and gen: "generation_of ?ag = generation_of ag"
    using step Cons.prems(4) ok by (auto simp: guarded_step_def)
  have held: "held_throughout ?ag ops t i (ls_session l) (ls_anchor l)"
    using Cons.IH [OF ok(1)] Cons.prems gen by simp
  obtain l' where l': "lease_of ?ag i = Some l'" "ls_session l' = ls_session l" "ls_anchor l' = ls_anchor l"
      "(map fst ops @ [t]) ! 0 < ls_deadline l'"
    using held by (auto simp: held_throughout_def dest!: spec [of _ 0])
  have "now \<le> (map fst ops @ [t]) ! 0"
    using Cons.prems(3) by (simp add: x nth_append)
  then have "\<exists>k. lease_of ag i = Some k \<and> ls_session k = ls_session l \<and> ls_anchor k = ls_anchor l \<and> now < ls_deadline k"
    using q l' unfolding quiet_step_def kept_def by (metis order_le_less_trans option.inject)
  then obtain k where "lease_of ag i = Some k" "ls_session k = ls_session l" "ls_anchor k = ls_anchor l" "now < ls_deadline k"
    by blast
  then show ?case unfolding x using held_throughout_Cons held by (simp add: x)
qed

section \<open>Admissions and their re-checks\<close>

definition served_by_owner :: "ServingState \<Rightarrow> AuthorityAdmission \<Rightarrow> u16 \<Rightarrow> GroupView \<Rightarrow> bool" where
  "served_by_owner st adm slot g \<longleftrightarrow>
     dc_kind (ad_decision adm) = kServe \<and> slot \<in> set (ad_slots adm) \<and> GroupForSlot st slot = Some g \<and>
     gv_primary_node_index g = ss_self_node_index st"

lemma CaptureAndAdmit_covered:
  assumes "tc_current topology = Some st" "fst (CaptureAndAdmit topology r now ag) = adm"
    and "dc_kind (ad_decision adm) = kServe" "ad_lease_checked adm"
  shows "ad_state adm = Some st \<and> ad_slots adm = rv_slots r \<and>
    ad_gate_generation adm = as_generation (ag_published ag) \<and>
    fst (LeaseCovers (ag_published ag) st (rv_slots r) now ag)"
  using assms
  by (auto simp: CaptureAndAdmit_def Let_def new_admission_def split: option.splits list.splits prod.splits if_splits)

lemma CaptureAndAdmit_checks_owner:
  assumes "tc_current topology = Some st" "rv_slots r = slot # others" "GroupForSlot st slot = Some g"
    and "gv_primary_node_index g = ss_self_node_index st"
    and "dc_kind (ad_decision (fst (CaptureAndAdmit topology r now ag))) = kServe"
  shows "ad_lease_checked (fst (CaptureAndAdmit topology r now ag))"
  using assms
  by (auto simp: CaptureAndAdmit_def Let_def new_admission_def split: prod.splits if_splits)

lemma LocalPrimaryAnchor_Some:
  assumes "state_wf st" "GroupForSlot st slot = Some g" "LocalPrimaryAnchor st (gv_group_id g) = Some a"
  shows "a = \<lparr>aa_group_id = gv_group_id g, aa_assignment_id = gv_assignment_id g, aa_group_term = gv_group_term g\<rparr> \<and>
    gv_granted g \<and> GroupReady g \<and> ss_self_node_index st \<noteq> kNoNodeIndex"
  using GroupForSlot_FindGroup [OF assms(1,2)] assms(3)
  by (auto simp: LocalPrimaryAnchor_def GroupReady_def split: if_splits)

text \<open>
  (C8) Topology alone never grants authority. Whenever \<open>CaptureAndAdmit\<close> serves a request whose
  first key belongs to a group this node is the primary of (even through the loading allowlist),
  the group is granted and ready and the published authority holds, for the current session, a
  lease for exactly this group, assignment and term that expires after the admission.
\<close>

theorem capture_holds_lease:
  assumes "tc_current topology = Some st" "state_wf st" "rv_slots r = slot # others"
    and "GroupForSlot st slot = Some g" "gv_primary_node_index g = ss_self_node_index st"
    and "dc_kind (ad_decision (fst (CaptureAndAdmit topology r now ag))) = kServe"
  shows "gv_granted g \<and> GroupReady g \<and>
    (\<exists>l. lease_of ag (gv_group_id g) = Some l \<and> as_session (ag_published ag) = Some (ls_session l) \<and>
       now < ls_deadline l \<and>
       ls_anchor l = \<lparr>aa_group_id = gv_group_id g, aa_assignment_id = gv_assignment_id g,
                      aa_group_term = gv_group_term g\<rparr>)"
proof -
  have cov: "fst (LeaseCovers (ag_published ag) st (rv_slots r) now ag)"
    using CaptureAndAdmit_covered [OF assms(1) refl assms(6)] CaptureAndAdmit_checks_owner [OF assms(1,3-6)] by simp
  obtain l where "as_session (ag_published ag) = Some (ls_session l)"
      "Mapping.lookup (as_leases (ag_published ag)) (gv_group_id g) = Some l"
      "now < ls_deadline l" "LocalPrimaryAnchor st (gv_group_id g) = Some (ls_anchor l)"
    using LeaseCovers_owned [OF assms(2) cov _ assms(4,5)] assms(3) by auto
  then show ?thesis
    using LocalPrimaryAnchor_Some [OF assms(2,4)] by (auto simp: lease_of_def)
qed

lemma Recheck_cases: "fst (Recheck topology adm now ag) = kOk \<or> fst (Recheck topology adm now ag) = kReject"
  by (auto simp: Recheck_def Let_def split: option.splits prod.splits if_splits)

lemma Recheck_covered:
  assumes "fst (Recheck topology adm now ag) = kOk" "ad_state adm = Some st" "ad_lease_checked adm"
  shows "ad_gate_generation adm = as_generation (ag_published ag) \<and>
    fst (LeaseCovers (ag_published ag) st (ad_slots adm) now ag) \<and>
    AuthorityUnchanged st (tc_current topology) (ad_slots adm)"
  using assms by (auto simp: Recheck_def Let_def split: prod.splits if_splits)

definition owner_anchor :: "GroupView \<Rightarrow> AuthorityAnchor" where
  "owner_anchor g = \<lparr>aa_group_id = gv_group_id g, aa_assignment_id = gv_assignment_id g, aa_group_term = gv_group_term g\<rparr>"

lemma recheck_held:
  assumes "tc_current topology = Some st" "state_wf st"
    and "CaptureAndAdmit topology r t0 (run_ops hist new_guard) = (adm, ag)"
    and "ad_lease_checked adm" "served_by_owner st adm slot g"
    and "sorted (map fst ops @ [t1])" "1 + 2 * (length hist + length ops) < 2 ^ 64"
    and "fst (Recheck topology' adm t1 (run_ops ops ag)) = kOk"
  shows "\<exists>s. held_throughout ag ops t1 (gv_group_id g) s (owner_anchor g)"
proof -
  let ?ag0 = "run_ops hist new_guard" and ?ag1 = "run_ops ops ag"
  have h: "guard_ok ?ag0" "generation_of ?ag0 \<le> 1 + 2 * length hist"
    using run_ops_guarded [of new_guard hist] assms(7) new_guard_ok by auto
  have same: "same_authority ?ag0 ag"
    using CaptureAndAdmit_same [of ?ag0 topology r t0] assms(3) by simp
  then have g: "guard_ok ag" "generation_of ag = generation_of ?ag0"
    using h by (auto simp: same_authority_def guard_ok_def generation_of_def)
  have cap: "ad_state adm = Some st" "ad_slots adm = rv_slots r"
      "ad_gate_generation adm = as_generation (ag_published ?ag0)"
    using CaptureAndAdmit_covered [OF assms(1), of r t0 ?ag0 adm] assms(3-5) by (auto simp: served_by_owner_def)
  have rc: "ad_gate_generation adm = as_generation (ag_published ?ag1)"
      "fst (LeaseCovers (ag_published ?ag1) st (ad_slots adm) t1 ?ag1)"
    using Recheck_covered [OF assms(8) cap(1) assms(4)] by auto
  have gs: "GroupForSlot st slot = Some g" using assms(5) by (simp add: served_by_owner_def)
  obtain l where l: "lease_of ?ag1 (gv_group_id g) = Some l" "t1 < ls_deadline l"
      "LocalPrimaryAnchor st (gv_group_id g) = Some (ls_anchor l)"
    using LeaseCovers_owned [OF assms(2) rc(2) _ gs] assms(5) by (auto simp: served_by_owner_def lease_of_def)
  have gen: "generation_of ?ag1 = generation_of ag"
    using rc(1) cap(3) same by (simp add: generation_of_def same_authority_def)
  have "held_throughout ag ops t1 (gv_group_id g) (ls_session l) (ls_anchor l)"
    using held_backwards [OF g(1) _ assms(6) gen l(1,2)] g(2) h(2) assms(7) by simp
  moreover have "ls_anchor l = owner_anchor g"
    using LocalPrimaryAnchor_Some [OF assms(2) gs l(3)] by (simp add: owner_anchor_def)
  ultimately show ?thesis by auto
qed

text \<open>
  (C7) A re-check succeeds only over an unbroken lease. Take any history of renewals,
  expirations, fences, invalidations and other requests before and after an admission that
  checked a lease, at non-decreasing times. If the re-check of the admission at \<open>t1\<close> succeeds,
  then at every moment in between the published lease of the group was the lease of the same
  session for the group's assignment and term, and had not run out: a lease that lapsed, was
  revoked or was granted anew never validates work admitted before. (64-bit generations do not
  wrap within the history.)
\<close>

theorem recheck_unbroken_lease:
  assumes "tc_current topology = Some st" "state_wf st"
    and "CaptureAndAdmit topology r t0 (run_ops hist new_guard) = (adm, ag)"
    and "ad_lease_checked adm" "served_by_owner st adm slot g"
    and "sorted (map fst ops @ [t1])" "1 + 2 * (length hist + length ops) < 2 ^ 64"
    and "fst (Recheck topology' adm t1 (run_ops ops ag)) = kOk"
  shows "\<exists>s. held_throughout ag ops t1 (gv_group_id g) s (owner_anchor g)"
  using recheck_held [OF assms] .

text \<open>The operations that take the authority of an anchor away.\<close>

fun revokes :: "AuthorityAnchor \<Rightarrow> authority_op \<Rightarrow> bool" where
  "revokes a (Fence_Group b) = (aa_group_id b = aa_group_id a)"
| "revokes a Invalidate_Leases = True"
| "revokes a Invalidate_All = True"
| "revokes a (Anchors_Changed after) = (LocalPrimaryAnchor after (aa_group_id a) \<noteq> Some a)"
| "revokes a _ = False"

lemma lookup_Some_keys: "Mapping.lookup m k = Some v \<Longrightarrow> k \<in> Mapping.keys m"
  by (simp add: keys_is_none_rep)

lemma revokes_removes:
  assumes "guard_ok ag" "revokes a op" "lease_of (apply_op (now, op) ag) (aa_group_id a) = Some l"
  shows "ls_anchor l \<noteq> a"
proof (cases op)
  case (Anchors_Changed after)
  let ?m = "as_leases (ag_writer ag)"
  let ?P = "\<lambda>i lease. LocalPrimaryAnchor after i = Some (ls_anchor lease)"
  have "Mapping.lookup (Mapping.filter ?P ?m) (aa_group_id a) = Some l"
  proof (cases "Mapping.keys (Mapping.filter ?P ?m) = Mapping.keys ?m")
    case True
    then have "lease_of ag (aa_group_id a) = Some l"
      using assms(3) by (simp add: Anchors_Changed InvalidateAnchorsChanged_def)
    then have l: "Mapping.lookup ?m (aa_group_id a) = Some l" using assms(1) by (simp add: lease_of_def guard_ok_def)
    then have "aa_group_id a \<in> Mapping.keys (Mapping.filter ?P ?m)" using True by (simp add: keys_is_none_rep)
    then show ?thesis using l by (auto simp: keys_is_none_rep lookup_filter split: if_splits)
  next
    case False
    then show ?thesis
      using assms(3) by (simp add: Anchors_Changed InvalidateAnchorsChanged_def Let_def revoke_def
          PublishAuthorityLocked_def lease_of_def)
  qed
  then have "LocalPrimaryAnchor after (aa_group_id a) = Some (ls_anchor l)"
    by (auto simp: lookup_filter split: option.splits if_splits)
  then show ?thesis using assms(2) Anchors_Changed by auto
next
  case Invalidate_Leases
  then show ?thesis
    using assms by (auto simp: InvalidateLeases_def lease_of_def guard_ok_def revoke_def PublishAuthorityLocked_def
        lookup_empty Mapping.is_empty_def dest: lookup_Some_keys split: if_splits)
qed (use assms in \<open>auto simp: Fence_def InvalidateAll_def revoke_def PublishAuthorityLocked_def lease_of_def
    guard_ok_def lookup_empty lookup_delete_if split: option.splits\<close>)

text \<open>
  (C9) Revocation is final for admitted work. Once a fence of the group, an invalidation of all
  leases or of everything, or a topology change that moves the group's anchor has been executed,
  the re-check of an admission captured before answers \<open>kReject\<close>, whatever operations (new
  grants included) come before or after the revocation.
\<close>

theorem revocation_is_final:
  assumes "tc_current topology = Some st" "state_wf st"
    and "CaptureAndAdmit topology r t0 (run_ops hist new_guard) = (adm, ag)"
    and "ad_lease_checked adm" "served_by_owner st adm slot g"
    and "revokes (owner_anchor g) op" "ops = early @ (t, op) # late"
    and "sorted (map fst ops @ [t1])" "1 + 2 * (length hist + length ops) < 2 ^ 64"
  shows "fst (Recheck topology' adm t1 (run_ops ops ag)) = kReject"
proof (rule ccontr)
  assume "fst (Recheck topology' adm t1 (run_ops ops ag)) \<noteq> kReject"
  then have "fst (Recheck topology' adm t1 (run_ops ops ag)) = kOk" using Recheck_cases by metis
  then obtain s where "held_throughout ag ops t1 (gv_group_id g) s (owner_anchor g)"
    using recheck_held [OF assms(1-5,8,9)] by blast
  then obtain l where l: "lease_of (run_ops (take (Suc (length early)) ops) ag) (gv_group_id g) = Some l"
      "ls_anchor l = owner_anchor g"
    using assms(7) by (auto simp: held_throughout_def dest!: spec [of _ "Suc (length early)"])
  let ?ag0 = "run_ops hist new_guard"
  have "guard_ok ?ag0 \<and> generation_of ?ag0 \<le> 1 + 2 * length hist"
    using run_ops_guarded [of new_guard hist] assms(9) new_guard_ok by auto
  then have "guard_ok ag" "generation_of ag \<le> 1 + 2 * length hist"
    using CaptureAndAdmit_same [of ?ag0 topology r t0] assms(3)
    by (auto simp: same_authority_def guard_ok_def generation_of_def)
  then have "guard_ok (run_ops early ag)" using run_ops_guarded [of ag early] assms(7,9) by simp
  moreover have "lease_of (apply_op (t, op) (run_ops early ag)) (aa_group_id (owner_anchor g)) = Some l"
    using l(1) assms(7) by (simp add: owner_anchor_def)
  ultimately show False using revokes_removes [OF _ assms(6)] l(2) by blast
qed

section \<open>Registration\<close>

lemma Exit_Enter: "Enter stripe c = Some c' \<Longrightarrow> Exit stripe c' = Some c"
  by (auto simp: Enter_def Exit_def split: if_splits)

text \<open>\<open>entered gs cs cs'\<close>: the guards are for distinct cells and each entered its cell once.\<close>

definition entered :: "guards \<Rightarrow> cells \<Rightarrow> cells \<Rightarrow> bool" where
  "entered gs cs cs' \<longleftrightarrow> distinct (map fst gs) \<and>
     (\<forall>h. h \<notin> fst ` set gs \<longrightarrow> cs' h = cs h) \<and>
     (\<forall>h stripe. (h, stripe) \<in> set gs \<longrightarrow> Enter stripe (cs h) = Some (cs' h))"

lemma clear_entered: "entered gs cs cs' \<Longrightarrow> clear_guards gs cs' = Some cs"
proof (induction gs arbitrary: cs')
  case (Cons g gs)
  obtain h stripe where g: "g = (h, stripe)" by (cases g)
  have "Exit stripe (cs' h) = Some (cs h)"
    using Cons.prems by (intro Exit_Enter) (simp add: entered_def g)
  moreover have "entered gs cs (cs'(h := cs h))"
    using Cons.prems by (force simp: entered_def g)
  ultimately show ?case using Cons.IH by (simp add: g)
qed (auto simp: entered_def)

lemma register_cells_entered:
  assumes "register_cells st stripe slots gs0 cs0 = Some (gs, cs')" "entered gs0 cs cs0"
    and "\<forall>x \<in> set gs0. snd x = stripe"
  shows "entered gs cs cs' \<and> (\<forall>x \<in> set gs. snd x = stripe) \<and>
    fst ` set gs = fst ` set gs0 \<union> {c. \<exists>slot \<in> set slots. InFlightCellForSlot st slot = Some (Some c)}"
  using assms
proof (induction slots arbitrary: gs0 cs0)
  case (Cons slot slots)
  from Cons.prems(1) obtain v where v: "InFlightCellForSlot st slot = Some v"
    by (auto split: option.splits)
  show ?case
  proof (cases v)
    case None
    then show ?thesis using Cons v by auto
  next
    case (Some c)
    show ?thesis
    proof (cases "c \<in> fst ` set gs0")
      case True
      then have "list_ex (\<lambda>guard. fst guard = c) gs0" by (auto simp: list_ex_iff)
      then have "register_cells st stripe slots gs0 cs0 = Some (gs, cs')" using Cons.prems v Some by simp
      from Cons.IH [OF this Cons.prems(2,3)] show ?thesis using v Some True by auto
    next
      case False
      then have "\<not> list_ex (\<lambda>guard. fst guard = c) gs0" by (auto simp: list_ex_iff)
      then obtain k where k: "Enter stripe (cs0 c) = Some k"
          "register_cells st stripe slots (gs0 @ [(c, stripe)]) (cs0(c := k)) = Some (gs, cs')"
        using Cons.prems v Some by (auto split: option.splits)
      have "cs0 c = cs c" using Cons.prems(2) False by (simp add: entered_def)
      then have "entered (gs0 @ [(c, stripe)]) cs (cs0(c := k))"
        using Cons.prems(2) False k(1) by (force simp: entered_def)
      from Cons.IH [OF k(2) this] show ?thesis using Cons.prems(3) v Some by auto
    qed
  qed
qed simp

lemma register_from_empty:
  assumes "register_cells st stripe slots [] cs = Some (gs, cs')"
  shows "entered gs cs cs' \<and> (\<forall>x \<in> set gs. snd x = stripe) \<and>
    fst ` set gs = {c. \<exists>slot \<in> set slots. InFlightCellForSlot st slot = Some (Some c)}"
  using register_cells_entered [OF assms, of cs] by (simp add: entered_def)

text \<open>
  (C10) Registration counts exactly. \<open>RegisterAndRecheck\<close> first releases the guards it is handed.
  When it does not answer \<open>kOk\<close> it then holds no guard and leaves every in-flight counter as that
  release left it. When it does, it has entered, once each and on the worker's stripe, precisely
  the cells of the groups of the admitted slots, no publication completed while it registered, the
  groups and their pause flags were those of the admission and the lease re-check succeeded;
  releasing the guards restores the counters.
\<close>

theorem register_counts_exactly:
  assumes "RegisterAndRecheck before after later adm stripe now gs0 ag cs0 = Some (result, gs, ag', cs')"
  shows "\<exists>cs. clear_guards gs0 cs0 = Some cs \<and> result \<in> {kOk, kReject} \<and>
    (result = kReject \<longrightarrow> gs = [] \<and> cs' = cs) \<and>
    (result = kOk \<longrightarrow>
       (\<exists>st. ad_state adm = Some st \<and>
          fst ` set gs = {c. \<exists>slot \<in> set (ad_slots adm). InFlightCellForSlot st slot = Some (Some c)} \<and>
          entered gs cs cs' \<and> (\<forall>x \<in> set gs. snd x = stripe) \<and> clear_guards gs cs' = Some cs \<and>
          tc_publication_sequence after = tc_publication_sequence before \<and>
          MutationAdmissionUnchanged st (tc_current before) (ad_slots adm) \<and>
          fst (Recheck later adm now ag) = kOk))"
proof -
  obtain cs where clear: "clear_guards gs0 cs0 = Some cs" using assms by (auto simp: RegisterAndRecheck_def split: option.splits)
  note reg = RegisterAndRecheck_def clear option.case
  have "result \<in> {kOk, kReject} \<and> (result = kReject \<longrightarrow> gs = [] \<and> cs' = cs) \<and>
    (result = kOk \<longrightarrow>
       (\<exists>st. ad_state adm = Some st \<and>
          fst ` set gs = {c. \<exists>slot \<in> set (ad_slots adm). InFlightCellForSlot st slot = Some (Some c)} \<and>
          entered gs cs cs' \<and> (\<forall>x \<in> set gs. snd x = stripe) \<and> clear_guards gs cs' = Some cs \<and>
          tc_publication_sequence after = tc_publication_sequence before \<and>
          MutationAdmissionUnchanged st (tc_current before) (ad_slots adm) \<and>
          fst (Recheck later adm now ag) = kOk))"
  proof (cases "ad_state adm")
    case None
    then show ?thesis using assms by (simp add: reg)
  next
    case (Some st)
    obtain gs1 cs1 where r: "register_cells st stripe (ad_slots adm) [] cs = Some (gs1, cs1)"
      using assms Some by (auto simp: reg split: option.splits)
    note e = register_from_empty [OF r]
    have c: "clear_guards gs1 cs1 = Some cs" using e clear_entered by blast
    show ?thesis
    proof (cases "tc_publication_sequence after = tc_publication_sequence before \<and>
        MutationAdmissionUnchanged st (tc_current before) (ad_slots adm)")
      case True
      then show ?thesis
        using assms Some r c e Recheck_cases [of later adm now ag]
        by (auto simp: reg Let_def split: prod.splits if_splits)
    next
      case False
      then have "RegisterAndRecheck before after later adm stripe now gs0 ag cs0 = Some (kReject, [], ag, cs)"
        using Some r c by (auto simp: reg)
      then show ?thesis using assms by simp
    qed
  qed
  then show ?thesis using clear by blast
qed

section \<open>A served request\<close>

definition demo_session :: SessionIdentity where
  "demo_session = \<lparr>si_session_id = Some (replicate 16 9), si_generation = 4, si_data_boot_id = Some (replicate 20 8)\<rparr>"

definition demo_topology :: TopologyCache where
  "demo_topology = \<lparr>tc_current = Some (demo_state 1), tc_version = 1, tc_publication_sequence = 2\<rparr>"

definition demo_request :: RequestView where
  "demo_request = \<lparr>rv_slots = [7, 7], rv_is_write = True, rv_connection_readonly = False, rv_loading_allowed = False\<rparr>"

definition demo_grant :: "MonotonicTime \<Rightarrow> authority_op" where
  "demo_grant d = Renew demo_session (owner_anchor (demo_group 1)) d"

definition demo_admission :: AuthorityAdmission where
  "demo_admission = fst (CaptureAndAdmit demo_topology demo_request 10 (run_ops [(0, demo_grant 100)] new_guard))"

lemma demo_wf: "state_wf (demo_state t)"
  using Build_wf [OF demo_built(1)] .

lemma demo_slot: "GroupForSlot (demo_state t) 7 = Some (demo_group t)"
proof -
  have "unat (7 :: u16) \<in> set (group_slots (demo_group t))"
    unfolding group_slots_iff by (simp add: demo_group_def)
  then show ?thesis
    unfolding demo_state_def built_group_for_slot [OF demo_builder_ok(1)] by (simp add: demo_groups)
qed

lemma demo_anchor: "LocalPrimaryAnchor (demo_state t) ''g'' = Some (owner_anchor (demo_group t))"
  by (simp add: LocalPrimaryAnchor_def FindGroup_def demo_state_def make_state_def demo_cluster_defs
      owner_anchor_def kNoNodeIndex_def)

lemma demo_self: "ss_self_node_index (demo_state t) = 0" "length (ss_nodes (demo_state t)) = 2"
  by (simp_all add: demo_state_def make_state_def demo_cluster_defs)

lemma demo_group_sel [simp]:
  "gv_group_id (demo_group t) = ''g''" "gv_primary_node_index (demo_group t) = 0" "gv_granted (demo_group t)"
  "GroupReady (demo_group t)" "\<not> gv_mutations_paused (demo_group t)" "aa_group_id (owner_anchor (demo_group t)) = ''g''"
  by (simp_all add: demo_group_def GroupReady_def owner_anchor_def)

definition demo_authority :: "MonotonicTime \<Rightarrow> nat \<Rightarrow> AuthorityState" where
  "demo_authority d n =
     \<lparr>as_session = Some demo_session,
      as_leases = Mapping.update ''g'' \<lparr>ls_session = demo_session, ls_anchor = owner_anchor (demo_group 1),
        ls_deadline = d, ls_receipt = n\<rparr> Mapping.empty,
      as_generation = 3\<rparr>"

lemma demo_granted:
  "run_ops [(0, demo_grant 100)] new_guard =
     new_guard\<lparr>ag_writer := demo_authority 100 0, ag_published := demo_authority 100 0, ag_version := 1, ag_receipts := 1\<rparr>"
  by (simp add: demo_grant_def RenewLease_def new_guard_def new_authority_def complete_def demo_session_def
      PublishAuthorityLocked_def lookup_empty demo_authority_def Let_def)

lemma demo_covers:
  "LeaseCovers (demo_authority d n) (demo_state 1) [7, 7] now ag =
   (now < d, if now < d then ag else record_expiration n ag)"
  by (simp add: LeaseCovers_def demo_slot demo_self demo_anchor lookup_update demo_authority_def)

lemma demo_captured:
  "CaptureAndAdmit demo_topology demo_request 10 (run_ops [(0, demo_grant 100)] new_guard) =
    (demo_admission, run_ops [(0, demo_grant 100)] new_guard) \<and>
   ad_lease_checked demo_admission \<and> ad_state demo_admission = Some (demo_state 1) \<and>
   ad_slots demo_admission = [7, 7] \<and> ad_gate_generation demo_admission = 3 \<and>
   dc_kind (ad_decision demo_admission) = kServe"
  unfolding demo_admission_def demo_granted
  by (simp add: CaptureAndAdmit_def Let_def demo_topology_def demo_request_def Admit_def demo_slot demo_self
      admit_single_def new_decision_def demo_covers new_admission_def demo_authority_def [of 100 0, THEN arg_cong, of as_generation])

lemma demo_renewed:
  "run_ops [(20, demo_grant 200)] (run_ops [(0, demo_grant 100)] new_guard) =
     new_guard\<lparr>ag_writer := demo_authority 200 1, ag_published := demo_authority 200 1, ag_version := 2, ag_receipts := 2\<rparr>"
  unfolding demo_granted
  by (simp add: demo_grant_def RenewLease_def new_guard_def complete_def demo_session_def
      PublishAuthorityLocked_def lookup_update demo_authority_def Let_def mapping_eqI lookup_update' lookup_empty)

theorem admit_routes_witness:
  "dc_kind (Admit (Some (demo_state 1)) demo_request) = kServe"
proof -
  have "InvolvedGroupsReady (demo_state 1) (rv_slots demo_request)"
    by (simp add: demo_request_def demo_slot)
  then show ?thesis
    using admit_routes [OF demo_wf [of 1] _ _, of demo_request 7 "[7]"]
    by (simp add: demo_request_def demo_slot demo_self)
qed

theorem capture_holds_lease_witness:
  "\<exists>l. lease_of (run_ops [(0, demo_grant 100)] new_guard) ''g'' = Some l \<and> 10 < ls_deadline l \<and>
     ls_anchor l = owner_anchor (demo_group 1)"
  using capture_holds_lease [of demo_topology "demo_state 1" demo_request 7 "[7]" "demo_group 1" 10
      "run_ops [(0, demo_grant 100)] new_guard"] demo_captured demo_wf demo_slot demo_self
  by (auto simp: demo_topology_def demo_request_def owner_anchor_def)

lemma demo_served: "served_by_owner (demo_state 1) demo_admission 7 (demo_group 1)"
  using demo_captured by (simp add: served_by_owner_def demo_slot demo_self)

lemma demo_recheck:
  "fst (Recheck demo_topology demo_admission 150 (run_ops [(20, demo_grant 200)] (run_ops [(0, demo_grant 100)] new_guard))) = kOk"
  unfolding demo_renewed using demo_captured
  by (simp add: Recheck_def Let_def demo_covers AuthorityUnchanged_def demo_topology_def)
    (simp add: demo_authority_def)

theorem recheck_unbroken_lease_witness:
  "\<exists>s. held_throughout (run_ops [(0, demo_grant 100)] new_guard) [(20, demo_grant 200)] 150 ''g'' s
     (owner_anchor (demo_group 1))"
  using recheck_unbroken_lease [of demo_topology "demo_state 1" demo_request 10 "[(0, demo_grant 100)]" demo_admission
      "run_ops [(0, demo_grant 100)] new_guard" 7 "demo_group 1" "[(20, demo_grant 200)]" 150 demo_topology]
    demo_captured demo_served demo_recheck demo_wf
  by (simp add: demo_topology_def)

theorem revocation_is_final_witness:
  "fst (Recheck demo_topology demo_admission 50
     (run_ops [(20, Fence_Group (owner_anchor (demo_group 1))), (30, demo_grant 200)]
        (run_ops [(0, demo_grant 100)] new_guard))) = kReject"
  using revocation_is_final [of demo_topology "demo_state 1" demo_request 10 "[(0, demo_grant 100)]" demo_admission
      "run_ops [(0, demo_grant 100)] new_guard" 7 "demo_group 1" "Fence_Group (owner_anchor (demo_group 1))"
      "[(20, Fence_Group (owner_anchor (demo_group 1))), (30, demo_grant 200)]" "[]" 20 "[(30, demo_grant 200)]" 50
      demo_topology]
    demo_captured demo_served demo_wf
  by (simp add: demo_topology_def)

lemma demo_cell: "InFlightCellForSlot (demo_state 1) 7 = Some (Some 1)"
proof -
  have s: "unat (7 :: u16) \<in> set (group_slots (demo_group 1))"
    unfolding group_slots_iff by (simp add: demo_group_def)
  have "fst (built_map (demo_builder 1)) ! unat (7 :: u16) = word_of_nat 0"
    using built_map_slot [OF demo_builder_ok(1) [of 1], of "unat (7 :: u16)" "word_of_nat 0"] s
    by (simp add: kSlotCount_def demo_groups kNoGroupIndex_def)
  then show ?thesis
    by (simp add: InFlightCellForSlot_def demo_state_def make_state_def kSlotCount_def kNoGroupIndex_def demo_groups)
qed

theorem register_counts_exactly_witness:
  "RegisterAndRecheck demo_topology demo_topology demo_topology demo_admission 1 50 [] (run_ops [(0, demo_grant 100)] new_guard)
      (\<lambda>_. [0, 0]) =
     Some (kOk, [(1, 1)], run_ops [(0, demo_grant 100)] new_guard, (\<lambda>_. [0, 0])(1 := [0, 1])) \<and>
   clear_guards [(1, 1)] ((\<lambda>_. [0, 0])(1 := [0, 1])) = Some (\<lambda>_. [0, 0])"
proof -
  define ag where "ag = run_ops [(0, demo_grant 100)] new_guard"
  have t: "tc_current demo_topology = Some (demo_state 1)" by (simp add: demo_topology_def)
  have r: "Recheck demo_topology demo_admission 50 ag = (kOk, ag)"
    unfolding ag_def demo_granted using demo_captured
    by (simp add: Recheck_def Let_def demo_covers AuthorityUnchanged_def demo_topology_def)
      (simp add: demo_authority_def)
  have "RegisterAndRecheck demo_topology demo_topology demo_topology demo_admission 1 50 [] ag (\<lambda>_. [0, 0]) =
     Some (kOk, [(1, 1)], ag, (\<lambda>_. [0, 0])(1 := [0, 1]))"
    using demo_captured by (simp add: RegisterAndRecheck_def r demo_cell Enter_def MutationAdmissionUnchanged_def t)
  moreover from register_counts_exactly [OF this]
  have "clear_guards [(1, 1)] ((\<lambda>_. [0, 0])(1 := [0, 1])) = Some (\<lambda>_. [0, 0])" by auto
  ultimately show ?thesis unfolding ag_def by blast
qed

end
