(* ===== verification/Bytes.thy ===== *)
theory Bytes
  imports Prelude
begin

text \<open>
  Byte buffers of the storage format: little-endian integers, loads and stores at an offset, the
  checksum seal that every durable header uses, and the codec interface. The multi-byte fields
  of durable structures are in the byte order of the host, which is little-endian here.
\<close>

unbundle bit_operations_syntax

section \<open>Little-endian integers\<close>

definition le_bytes :: "nat \<Rightarrow> 'a::len word \<Rightarrow> bytes" where
  "le_bytes n w = map (\<lambda>i. ucast (drop_bit (8 * i) w)) [0..<n]"

fun of_le :: "bytes \<Rightarrow> 'a::len word" where
  "of_le [] = 0"
| "of_le (b # bs) = ucast b OR push_bit 8 (of_le bs)"

lemma length_le_bytes [simp]: "length (le_bytes n w) = n"
  by (simp add: le_bytes_def)

lemma le_bytes_Suc: "le_bytes (Suc n) w = ucast w # le_bytes n (drop_bit 8 w)"
  by (simp add: le_bytes_def map_upt_Suc drop_bit_drop_bit add.commute del: upt_Suc)

lemma of_le_le_bytes: "of_le (le_bytes n w) = take_bit (8 * n) (w :: 'a::len word)"
proof (induction n arbitrary: w)
  case (Suc n)
  show ?case
    by (rule bit_word_eqI)
      (auto simp: le_bytes_Suc Suc bit_or_iff bit_push_bit_iff bit_take_bit_iff bit_drop_bit_eq
        bit_ucast_iff not_less dest: bit_imp_le_length)
qed (simp add: le_bytes_def)

lemma of_le_full [simp]: "8 * n = LENGTH('a) \<Longrightarrow> of_le (le_bytes n w) = (w :: 'a::len word)"
  by (simp add: of_le_le_bytes)

lemma le_bytes_of_le:
  assumes "8 * length bs \<le> LENGTH('a)"
  shows "le_bytes (length bs) (of_le bs :: 'a::len word) = bs"
  using assms
proof (induction bs)
  case (Cons b bs)
  let ?w = "of_le bs :: 'a word"
  have "(ucast (ucast b OR push_bit 8 ?w) :: u8) = b"
    by (rule bit_word_eqI) (use Cons.prems in \<open>auto simp: bit_or_iff bit_push_bit_iff bit_ucast_iff\<close>)
  moreover have t: "take_bit (8 * length bs) ?w = ?w"
    using of_le_le_bytes [of "length bs" ?w] Cons by simp
  have "drop_bit 8 (ucast b OR push_bit 8 ?w) = ?w"
  proof (rule bit_word_eqI)
    fix n
    have "bit ?w n \<Longrightarrow> n < 8 * length bs" using t by (metis bit_take_bit_iff)
    then show "bit (drop_bit 8 (ucast b OR push_bit 8 ?w)) n = bit ?w n"
      using Cons.prems by (auto simp: bit_or_iff bit_push_bit_iff bit_drop_bit_eq bit_ucast_iff
          dest: bit_imp_le_length)
  qed
  ultimately show ?case using Cons by (simp add: le_bytes_Suc)
qed (simp add: le_bytes_def)

section \<open>Loads and stores\<close>

definition load :: "bytes \<Rightarrow> nat \<Rightarrow> nat \<Rightarrow> bytes" where
  "load buf off n = take n (drop off buf)"

definition store :: "bytes \<Rightarrow> nat \<Rightarrow> bytes \<Rightarrow> bytes" where
  "store buf off v = take off buf @ v @ drop (off + length v) buf"

lemma length_load [simp]: "off + n \<le> length buf \<Longrightarrow> length (load buf off n) = n"
  by (simp add: load_def)

lemma length_store [simp]: "off + length v \<le> length buf \<Longrightarrow> length (store buf off v) = length buf"
  by (simp add: store_def)

lemma load_store_same:
  "off + length v \<le> length buf \<Longrightarrow> n = length v \<Longrightarrow> load (store buf off v) off n = v"
  by (simp add: load_def store_def)

lemma load_store_other:
  assumes "off + length v \<le> length buf" "off' + n \<le> off \<or> off + length v \<le> off'"
  shows "load (store buf off v) off' n = load buf off' n"
  using assms(2)
proof
  assume "off' + n \<le> off"
  then show ?thesis
    using assms(1) by (simp add: load_def store_def take_drop min_def)
next
  assume "off + length v \<le> off'"
  then show ?thesis
    using assms(1) by (simp add: load_def store_def)
qed

lemma store_store_same:
  "off + length v \<le> length buf \<Longrightarrow> length v' = length v \<Longrightarrow> store (store buf off v) off v' = store buf off v'"
  by (simp add: store_def)

lemma store_load: "off + n \<le> length buf \<Longrightarrow> store buf off (load buf off n) = buf"
  by (simp add: store_def load_def flip: drop_drop) (metis add.commute append_take_drop_id drop_drop)

lemma load_load: "i + n \<le> m \<Longrightarrow> load (load buf off m) i n = load buf (off + i) n"
  by (simp add: load_def drop_take min_def add.commute)

section \<open>The checksum seal\<close>

text \<open>
  A sealed buffer carries, at a fixed offset, the checksum of itself with a zero checksum.
\<close>

definition seal :: "(bytes \<Rightarrow> u32) \<Rightarrow> nat \<Rightarrow> bytes \<Rightarrow> bytes" where
  "seal crc off buf = store buf off (le_bytes 4 (crc (store buf off (le_bytes 4 (0 :: u32)))))"

definition sealed :: "(bytes \<Rightarrow> u32) \<Rightarrow> nat \<Rightarrow> bytes \<Rightarrow> bool" where
  "sealed crc off buf \<longleftrightarrow> crc (store buf off (le_bytes 4 (0 :: u32))) = of_le (load buf off 4)"

lemma sealed_seal: "off + 4 \<le> length buf \<Longrightarrow> sealed crc off (seal crc off buf)"
  by (simp add: sealed_def seal_def store_store_same load_store_same)

lemma length_seal [simp]: "off + 4 \<le> length buf \<Longrightarrow> length (seal crc off buf) = length buf"
  by (simp add: seal_def)

section \<open>Codecs\<close>

text \<open>
  The contract between an encoder and its decoder: what was encoded from a valid value is decoded
  to that value. What follows from it is proved once.
\<close>

locale codec =
  fixes encode :: "'a \<Rightarrow> bytes option" and decode :: "bytes \<Rightarrow> 'a option" and valid :: "'a \<Rightarrow> bool"
  assumes encode_total: "valid x \<Longrightarrow> encode x \<noteq> None"
    and decode_encode: "valid x \<Longrightarrow> encode x = Some bs \<Longrightarrow> decode bs = Some x"
begin

lemma encode_unambiguous:
  assumes "valid x" "valid y" "encode x = encode y"
  shows "x = y"
proof -
  obtain bs where bs: "encode x = Some bs" using encode_total [OF assms(1)] by (cases "encode x") simp_all
  then have "decode bs = Some x" by (rule decode_encode [OF assms(1)])
  moreover have "decode bs = Some y" using bs assms(3) by (intro decode_encode [OF assms(2)]) simp
  ultimately show ?thesis by simp
qed

lemma roundtrip: "valid x \<Longrightarrow> Option.bind (encode x) decode = Some x"
  using encode_total [of x] decode_encode [of x] by (cases "encode x") simp_all

end

end
