(* ===== verification/Key_Hash.thy ===== *)
theory Key_Hash
  imports Bytes
begin

text \<open>
  Key hashing of \<^verbatim>\<open>src/storage/format.cpp\<close>: SipHash-1-2 fingerprints, the Redis hash slot
  (hash tag, CRC-16) and the Redis CRC-64. Keys are byte strings.
\<close>

unbundle bit_operations_syntax

section \<open>SipHash-1-2\<close>

definition LoadLittleEndian :: "bytes \<Rightarrow> nat \<Rightarrow> u64" where
  "LoadLittleEndian input off = of_le (load input off 8)"

definition LoadLittleEndian32 :: "bytes \<Rightarrow> nat \<Rightarrow> u32" where
  "LoadLittleEndian32 input off =
     ucast (input ! off) OR push_bit 8 (ucast (input ! (off + 1))) OR
     push_bit 16 (ucast (input ! (off + 2))) OR push_bit 24 (ucast (input ! (off + 3)))"

definition LoadLittleEndian64 :: "bytes \<Rightarrow> nat \<Rightarrow> u64" where
  "LoadLittleEndian64 input off =
     fold (\<lambda>i value. value OR push_bit (i * 8) (ucast (input ! (off + i)))) [0..<8] 0"

definition StoreLittleEndian32 :: "bytes \<Rightarrow> nat \<Rightarrow> u32 \<Rightarrow> bytes" where
  "StoreLittleEndian32 output off value =
     fold (\<lambda>i out. out[off + i := ucast (drop_bit (i * 8) value)]) [0..<4] output"

definition StoreLittleEndian64 :: "bytes \<Rightarrow> nat \<Rightarrow> u64 \<Rightarrow> bytes" where
  "StoreLittleEndian64 output off value =
     fold (\<lambda>i out. out[off + i := ucast (drop_bit (i * 8) value)]) [0..<8] output"

type_synonym sip_state = "u64 \<times> u64 \<times> u64 \<times> u64"

fun SipRound :: "sip_state \<Rightarrow> sip_state" where
  "SipRound (v0, v1, v2, v3) =
     (let v0 = v0 + v1;
          v1 = word_rotl 13 v1;
          v1 = v1 XOR v0;
          v0 = word_rotl 32 v0;
          v2 = v2 + v3;
          v3 = word_rotl 16 v3;
          v3 = v3 XOR v2;
          v0 = v0 + v3;
          v3 = word_rotl 21 v3;
          v3 = v3 XOR v0;
          v2 = v2 + v1;
          v1 = word_rotl 17 v1;
          v1 = v1 XOR v2;
          v2 = word_rotl 32 v2
      in (v0, v1, v2, v3))"

fun sip_absorb :: "u64 \<Rightarrow> sip_state \<Rightarrow> sip_state" where
  "sip_absorb word (v0, v1, v2, v3) =
     (let (v0, v1, v2, v3) = SipRound (v0, v1, v2, v3 XOR word) in (v0 XOR word, v1, v2, v3))"

definition sip_tail :: "bytes \<Rightarrow> u64" where
  "sip_tail input =
     (let complete_bytes = length input - length input mod 8 in
      fold (\<lambda>index tail. tail OR push_bit (8 * (index - complete_bytes)) (ucast (input ! index)))
        [complete_bytes..<length input] (push_bit 56 (word_of_nat (length input))))"

fun sip_finish :: "sip_state \<Rightarrow> u64" where
  "sip_finish (v0, v1, v2, v3) =
     (let (v0, v1, v2, v3) = SipRound (SipRound (v0, v1, v2 XOR 0xff, v3)) in v0 XOR v1 XOR v2 XOR v3)"

definition SipHash12 :: "bytes \<Rightarrow> bytes \<Rightarrow> u64" where
  "SipHash12 input seed =
     (let k0 = LoadLittleEndian seed 0;
          k1 = LoadLittleEndian seed 8;
          v = (0x736f6d6570736575 XOR k0, 0x646f72616e646f6d XOR k1,
               0x6c7967656e657261 XOR k0, 0x7465646279746573 XOR k1);
          v = fold (\<lambda>i. sip_absorb (LoadLittleEndian input (8 * i))) [0..<length input div 8] v
      in sip_finish (sip_absorb (sip_tail input) v))"

type_synonym Digest = u64

text \<open>\<open>ComputeDigest\<close> with the process seed and with an explicit seed are the same function of the seed.\<close>

definition ComputeDigest :: "bytes \<Rightarrow> bytes \<Rightarrow> Digest" where
  "ComputeDigest key seed = SipHash12 key seed"

section \<open>Hash slots\<close>

definition crc16_shift :: "u16 \<Rightarrow> u16" where
  "crc16_shift crc = (if crc AND 0x8000 \<noteq> 0 then push_bit 1 crc XOR 0x1021 else push_bit 1 crc)"

definition MakeRedisCrc16Table :: "u16 list" where
  "MakeRedisCrc16Table = map (\<lambda>byte. (crc16_shift ^^ 8) (push_bit 8 (word_of_nat byte))) [0..<256]"

definition RedisCrc16 :: "bytes \<Rightarrow> u16" where
  "RedisCrc16 key =
     fold (\<lambda>byte crc.
       let index = (ucast (drop_bit 8 crc XOR ucast byte) :: u8)
       in push_bit 8 crc XOR (MakeRedisCrc16Table ! unat index)) key 0"

fun find_byte :: "u8 \<Rightarrow> bytes \<Rightarrow> nat option" where
  "find_byte c [] = None"
| "find_byte c (b # bs) = (if b = c then Some 0 else map_option Suc (find_byte c bs))"

definition find_from :: "u8 \<Rightarrow> nat \<Rightarrow> bytes \<Rightarrow> nat option" where
  "find_from c pos key = map_option (\<lambda>i. pos + i) (find_byte c (drop pos key))"

definition HashTag :: "bytes \<Rightarrow> bytes" where
  "HashTag key =
     (case find_from 0x7b 0 key of
        None \<Rightarrow> key
      | Some open \<Rightarrow>
          (case find_from 0x7d (open + 1) key of
             None \<Rightarrow> key
           | Some close \<Rightarrow>
               if close = open + 1 then key else take (close - open - 1) (drop (open + 1) key)))"

definition RedisSlot :: "bytes \<Rightarrow> u16" where
  "RedisSlot key = RedisCrc16 (HashTag key) AND 0x3fff"

definition StorageShardForKey :: "bytes \<Rightarrow> u32" where
  "StorageShardForKey key = ucast (RedisSlot key)"

section \<open>CRC-64\<close>

definition kPolynomial :: u64 where
  "kPolynomial = 0xad93d23594c935a9"

definition crc64_bit :: "bool \<Rightarrow> u64 \<Rightarrow> u64" where
  "crc64_bit b crc =
     (let high = ((crc AND push_bit 63 1 \<noteq> 0) \<noteq> b); crc = push_bit 1 crc
      in if high then crc XOR kPolynomial else crc)"

definition crc64_byte :: "u8 \<Rightarrow> u64 \<Rightarrow> u64" where
  "crc64_byte byte crc = fold (\<lambda>i. crc64_bit (byte AND push_bit i 1 \<noteq> 0)) [0..<8] crc"

fun reflect_loop :: "nat \<Rightarrow> u64 \<Rightarrow> u64 \<Rightarrow> u64" where
  "reflect_loop 0 crc reflected = reflected"
| "reflect_loop (Suc n) crc reflected =
     (let crc = drop_bit 1 crc in reflect_loop n crc (push_bit 1 reflected OR (crc AND 1)))"

definition Crc64 :: "bytes \<Rightarrow> u64" where
  "Crc64 bs = (let crc = fold crc64_byte bs 0 in reflect_loop 63 crc (crc AND 1))"

section \<open>The table is the bit-wise CRC\<close>

text \<open>The CRC of the Redis cluster specification, one bit at a time.\<close>

definition crc16_reference :: "bytes \<Rightarrow> u16" where
  "crc16_reference key = fold (\<lambda>byte crc. (crc16_shift ^^ 8) (crc XOR push_bit 8 (ucast byte))) key 0"

lemma crc16_shift_bit: "crc AND 0x8000 \<noteq> 0 \<longleftrightarrow> bit (crc :: u16) 15"
proof -
  have "(0x8000 :: u16) = 2 ^ 15" by simp
  then show ?thesis using and_exp_eq_0_iff_not_bit [of crc 15] by simp
qed

lemma push_bit_xor_word: "push_bit n (a XOR b) = push_bit n a XOR push_bit n (b :: 'a::len word)"
  by (rule bit_word_eqI) (auto simp: bit_push_bit_iff bit_xor_iff)

lemma drop_bit_xor_word: "drop_bit n (a XOR b) = drop_bit n a XOR drop_bit n (b :: 'a::len word)"
  by (rule bit_word_eqI) (auto simp: bit_drop_bit_eq bit_xor_iff)

lemma crc16_shift_xor: "crc16_shift (a XOR b) = crc16_shift a XOR crc16_shift b"
  unfolding crc16_shift_def crc16_shift_bit bit_xor_iff push_bit_xor_word
  by (auto simp: xor.assoc xor.left_commute xor.commute)

lemma crc16_shifts_xor: "(crc16_shift ^^ n) (a XOR b) = (crc16_shift ^^ n) a XOR (crc16_shift ^^ n) b"
  by (induction n) (simp_all add: crc16_shift_xor)

lemma crc16_shifts_low: "n \<le> 8 \<Longrightarrow> (crc16_shift ^^ n) (take_bit 8 x) = push_bit n (take_bit 8 (x :: u16))"
proof (induction n)
  case (Suc n)
  have "\<not> bit (push_bit n (take_bit 8 x)) 15"
    using Suc.prems by (auto simp: bit_push_bit_iff bit_take_bit_iff)
  then have "crc16_shift (push_bit n (take_bit 8 x)) = push_bit 1 (push_bit n (take_bit 8 x))"
    by (simp only: crc16_shift_def crc16_shift_bit if_False)
  then show ?case using Suc by (simp add: add.commute)
qed simp

lemma word_split_byte: "(x :: u16) = take_bit 8 x XOR push_bit 8 (drop_bit 8 x)"
  by (rule bit_word_eqI) (auto simp: bit_xor_iff bit_take_bit_iff bit_push_bit_iff bit_drop_bit_eq)

lemma crc16_byte_step:
  fixes crc :: u16 and byte :: u8
  shows "(crc16_shift ^^ 8) (crc XOR push_bit 8 (ucast byte)) =
    push_bit 8 crc XOR (MakeRedisCrc16Table ! unat (ucast (drop_bit 8 crc XOR ucast byte) :: u8))"
proof -
  let ?h = "drop_bit 8 crc XOR ucast byte :: u16"
  have hb: "bit ?h i \<Longrightarrow> i < 8" for i
    by (auto simp: bit_xor_iff bit_drop_bit_eq bit_ucast_iff dest: bit_imp_le_length)
  have h: "word_of_nat (unat (ucast ?h :: u8)) = ?h"
    by (rule bit_word_eqI) (auto simp: bit_ucast_iff dest: hb)
  have u: "unat (ucast ?h :: u8) < 256"
    using unsigned_less [of "ucast ?h :: u8"] by simp
  have table: "MakeRedisCrc16Table ! n = (crc16_shift ^^ 8) (push_bit 8 (word_of_nat n))" if "n < 256" for n
    using that by (simp add: MakeRedisCrc16Table_def)
  have "crc XOR push_bit 8 (ucast byte) = take_bit 8 crc XOR push_bit 8 ?h"
    by (subst word_split_byte [of crc]) (simp add: push_bit_xor_word xor.assoc)
  then have "(crc16_shift ^^ 8) (crc XOR push_bit 8 (ucast byte)) =
      push_bit 8 (take_bit 8 crc) XOR (crc16_shift ^^ 8) (push_bit 8 ?h)"
    by (simp only: crc16_shifts_xor crc16_shifts_low order.refl)
  moreover have "push_bit 8 (take_bit 8 crc) = push_bit 8 crc"
    by (rule bit_word_eqI) (auto simp: bit_push_bit_iff bit_take_bit_iff)
  moreover have "MakeRedisCrc16Table ! unat (ucast ?h :: u8) = (crc16_shift ^^ 8) (push_bit 8 ?h)"
    using table [OF u] unfolding h .
  ultimately show ?thesis by simp
qed

lemma RedisCrc16_reference: "RedisCrc16 key = crc16_reference key"
  unfolding RedisCrc16_def crc16_reference_def Let_def crc16_byte_step ..

section \<open>Hash tags\<close>

lemma find_byte_nth: "find_byte c bs = Some i \<longleftrightarrow> i < length bs \<and> bs ! i = c \<and> c \<notin> set (take i bs)"
proof (induction bs arbitrary: i)
  case (Cons b bs)
  then show ?case by (cases i) auto
qed simp

lemma find_byte_Some:
  "find_byte c bs = Some i \<longleftrightarrow> (\<exists>ys zs. bs = ys @ c # zs \<and> length ys = i \<and> c \<notin> set ys)"
proof
  assume "find_byte c bs = Some i"
  then have "i < length bs" "bs ! i = c" "c \<notin> set (take i bs)" by (auto simp: find_byte_nth)
  then show "\<exists>ys zs. bs = ys @ c # zs \<and> length ys = i \<and> c \<notin> set ys"
    using id_take_nth_drop [of i bs] by (intro exI [of _ "take i bs"] exI [of _ "drop (Suc i) bs"]) simp
qed (auto simp: find_byte_nth)

lemma find_byte_None: "find_byte c bs = None \<longleftrightarrow> c \<notin> set bs"
  by (induction bs) auto

lemma HashTag_inner:
  assumes "0x7b \<notin> set pre" "0x7d \<notin> set tag" "tag \<noteq> []"
  shows "HashTag (pre @ 0x7b # tag @ 0x7d # post) = tag"
proof -
  have "find_byte 0x7b (pre @ 0x7b # tag @ 0x7d # post) = Some (length pre)"
    using assms(1) find_byte_Some by blast
  moreover have "find_byte 0x7d (tag @ 0x7d # post) = Some (length tag)"
    using assms(2) find_byte_Some by blast
  ultimately show ?thesis using assms(3) by (simp add: HashTag_def find_from_def)
qed

lemma HashTag_whole:
  assumes "\<nexists>pre tag post. key = pre @ 0x7b # tag @ 0x7d # post \<and> 0x7b \<notin> set pre \<and> 0x7d \<notin> set tag \<and> tag \<noteq> []"
  shows "HashTag key = key"
proof (cases "find_byte 0x7b key")
  case (Some i)
  then obtain pre rest where k: "key = pre @ 0x7b # rest" "length pre = i" "0x7b \<notin> set pre"
    by (auto simp: find_byte_Some)
  show ?thesis
  proof (cases "find_byte 0x7d rest")
    case c: (Some j)
    then obtain tag post where "rest = tag @ 0x7d # post" "length tag = j" "0x7d \<notin> set tag"
      by (auto simp: find_byte_Some)
    then have "tag = []" using assms k by auto
    then show ?thesis using Some c k \<open>length tag = j\<close> by (simp add: HashTag_def find_from_def)
  qed (use Some k in \<open>simp add: HashTag_def find_from_def\<close>)
qed (simp add: HashTag_def find_from_def)

text \<open>
  (C35) Slot routing is the Redis rule. The slot is the bit-wise CRC-16 (the table look-up changes
  nothing) modulo 16384 of the part of the key between the first opening brace and the first
  closing brace after it, when there is one and it is not empty, and of the whole key otherwise.
  So keys with a common hash tag share a slot, and every slot is below 16384.
\<close>

theorem redis_slot_rule:
  "unat (RedisSlot key) < 16384 \<and>
   unat (RedisSlot key) = unat (crc16_reference (HashTag key)) mod 16384 \<and>
   (0x7b \<notin> set pre \<longrightarrow> 0x7d \<notin> set tag \<longrightarrow> tag \<noteq> [] \<longrightarrow> HashTag (pre @ 0x7b # tag @ 0x7d # post) = tag) \<and>
   ((\<nexists>pre tag post. key = pre @ 0x7b # tag @ 0x7d # post \<and> 0x7b \<notin> set pre \<and> 0x7d \<notin> set tag \<and> tag \<noteq> []) \<longrightarrow>
     HashTag key = key)"
proof -
  have "(0x3fff :: u16) = mask 14" by (simp add: mask_eq_exp_minus_1)
  then have "RedisSlot key = take_bit 14 (crc16_reference (HashTag key))"
    by (simp add: RedisSlot_def RedisCrc16_reference take_bit_eq_mask)
  then have "unat (RedisSlot key) = unat (crc16_reference (HashTag key)) mod 16384"
    by (simp add: take_bit_eq_mod unat_mod)
  then show ?thesis using HashTag_inner HashTag_whole by simp
qed

theorem redis_slot_rule_witness:
  "HashTag [0x75, 0x7b, 0x61, 0x7d, 0x31] = [0x61] \<and> HashTag [0x61] = [0x61] \<and>
   RedisSlot [0x75, 0x7b, 0x61, 0x7d, 0x31] = RedisSlot [0x61]"
proof -
  have t: "HashTag [0x75, 0x7b, 0x61, 0x7d, 0x31] = [0x61]"
    using redis_slot_rule [where pre = "[0x75]" and tag = "[0x61]" and post = "[0x31]"] by simp
  moreover have w: "HashTag [0x61] = [0x61]"
    using redis_slot_rule [where key = "[0x61]"] by (auto simp: Cons_eq_append_conv)
  ultimately show ?thesis by (simp add: RedisSlot_def)
qed

end
