(* ===== verification/Format.thy ===== *)
theory Format
  imports Key_Hash
begin

text \<open>
  The durable structures of \<^verbatim>\<open>include/lavik/storage/format.h\<close> and their codecs in
  \<^verbatim>\<open>src/storage/format.cpp\<close>. A structure is a record; its object representation is written out
  field by field with the padding bytes of the C++ layout as an argument. The CRC-32C of the
  \<^verbatim>\<open>absl\<close> library is the argument \<open>crc\<close>: the results hold for every function. Enumerations that
  are read from storage keep their raw values.
\<close>

unbundle bit_operations_syntax

section \<open>Constants and layout arithmetic\<close>

definition kDirectIoAlignment :: nat where "kDirectIoAlignment = 4096"
definition kBlockHeaderSlotBytes :: nat where "kBlockHeaderSlotBytes = kDirectIoAlignment"
definition kBlockHeaderSlots :: nat where "kBlockHeaderSlots = 2"
definition kBlockHeaderBytes :: nat where "kBlockHeaderBytes = kBlockHeaderSlotBytes * kBlockHeaderSlots"
definition kRecordAlignment :: nat where "kRecordAlignment = 8"
definition kMaxRecordHeaderBytes :: nat where "kMaxRecordHeaderBytes = kDirectIoAlignment"
definition kStorageBlockBytes :: nat where "kStorageBlockBytes = 8 * 1024 * 1024"
definition kStorageFormatVersion :: u32 where "kStorageFormatVersion = 1"
definition kLocalBlockIdBits :: nat where "kLocalBlockIdBits = 27"
definition kLocalBlockIdLimit :: u64 where "kLocalBlockIdLimit = push_bit kLocalBlockIdBits 1"
definition kLocalBlockIdMask :: u64 where "kLocalBlockIdMask = kLocalBlockIdLimit - 1"
definition kDeviceIdLimit :: u64 where "kDeviceIdLimit = push_bit (64 - kLocalBlockIdBits) 1"
definition kInvalidBlockId :: u64 where "kInvalidBlockId = - 1"
definition kDeviceLabelMagic :: u64 where "kDeviceLabelMagic = 0x314c42414c564c"
definition kBlockMagic :: u64 where "kBlockMagic = 0x3130304b4c42564c"
definition kRecordMagic :: u64 where "kRecordMagic = 0x313030434552564c"
definition kReplicationFrameMagic :: u64 where "kReplicationFrameMagic = 0x314c504552564c"
definition kMetadataPageMagic :: u64 where "kMetadataPageMagic = 0x31504154454d564c"
definition kSystemStateRootMagic :: u64 where "kSystemStateRootMagic = 0x3152545353564c"
definition kMaxStringBytes :: nat where "kMaxStringBytes = 512 * 1024 * 1024"
definition kMaxBitmapBytes :: nat where "kMaxBitmapBytes = kMaxStringBytes + 8"
definition kLogicalStorageShards :: nat where "kLogicalStorageShards = 16384"
definition kMetadataPagePayloadBytes :: nat where "kMetadataPagePayloadBytes = kDirectIoAlignment - 40"
definition kEpochValueCount :: nat where "kEpochValueCount = 16 + kLogicalStorageShards + 4"
definition kEpochMetadataBytes :: nat where "kEpochMetadataBytes = kEpochValueCount * 8"
definition kEpochMetadataPageCount :: nat where
  "kEpochMetadataPageCount = (kEpochMetadataBytes + kMetadataPagePayloadBytes - 1) div kMetadataPagePayloadBytes"
definition kEpochMetadataOffset :: nat where "kEpochMetadataOffset = kDirectIoAlignment"
definition kSystemStateMetadataOffset :: nat where
  "kSystemStateMetadataOffset = kEpochMetadataOffset + kEpochMetadataPageCount * 2 * kDirectIoAlignment"
definition kScanBitmapMetadataOffset :: nat where
  "kScanBitmapMetadataOffset = kSystemStateMetadataOffset + 2 * kDirectIoAlignment"
definition kExtentPayloadBytes :: nat where "kExtentPayloadBytes = kStorageBlockBytes - kBlockHeaderBytes"

definition ScanBitmapBytes :: "nat \<Rightarrow> nat" where
  "ScanBitmapBytes capacity_blocks = (capacity_blocks + 7) div 8"

definition ScanBitmapPageCount :: "nat \<Rightarrow> nat" where
  "ScanBitmapPageCount capacity_blocks =
     (ScanBitmapBytes capacity_blocks + kMetadataPagePayloadBytes - 1) div kMetadataPagePayloadBytes"

definition CheckpointBitmapMetadataOffset :: "nat \<Rightarrow> nat" where
  "CheckpointBitmapMetadataOffset capacity_blocks =
     kScanBitmapMetadataOffset + ScanBitmapPageCount capacity_blocks * 2 * kDirectIoAlignment"

definition FixedMetadataBytes :: "nat \<Rightarrow> nat" where
  "FixedMetadataBytes capacity_blocks =
     CheckpointBitmapMetadataOffset capacity_blocks + ScanBitmapPageCount capacity_blocks * 2 * kDirectIoAlignment"

definition DataBlockBegin :: "nat \<Rightarrow> u32" where
  "DataBlockBegin capacity_blocks =
     word_of_nat ((FixedMetadataBytes capacity_blocks + kStorageBlockBytes - 1) div kStorageBlockBytes)"

definition MetadataPageSlotOffset :: "nat \<Rightarrow> nat \<Rightarrow> nat \<Rightarrow> nat" where
  "MetadataPageSlotOffset base_offset page_index slot =
     base_offset + (page_index * 2 + slot) * kDirectIoAlignment"

definition MakeBlockId :: "u64 \<Rightarrow> u32 \<Rightarrow> u64" where
  "MakeBlockId device_id local_block_id = push_bit kLocalBlockIdBits device_id OR ucast local_block_id"

definition DeviceIdForBlock :: "u64 \<Rightarrow> u64" where
  "DeviceIdForBlock block_id = drop_bit kLocalBlockIdBits block_id"

definition LocalBlockId :: "u64 \<Rightarrow> u32" where
  "LocalBlockId block_id = ucast (block_id AND kLocalBlockIdMask)"

definition LocalBlockOffset :: "u64 \<Rightarrow> u64" where
  "LocalBlockOffset block_id = ucast (LocalBlockId block_id) * word_of_nat kStorageBlockBytes"

definition AlignDirect :: "u64 \<Rightarrow> u64" where
  "AlignDirect bytes = (bytes + word_of_nat kDirectIoAlignment - 1) AND NOT (word_of_nat kDirectIoAlignment - 1)"

definition AlignRecord :: "u64 \<Rightarrow> u64" where
  "AlignRecord bytes = (bytes + word_of_nat kRecordAlignment - 1) AND NOT (word_of_nat kRecordAlignment - 1)"

definition kRecordHeaderBaseBytes :: nat where "kRecordHeaderBaseBytes = 72"
definition kRecordHeaderOptionalBytes :: nat where "kRecordHeaderOptionalBytes = 8"
definition kRecordAuxiliaryGroupIdentityBytes :: nat where "kRecordAuxiliaryGroupIdentityBytes = 32"

definition RecordFixedHeaderBytes :: "bool \<Rightarrow> bool \<Rightarrow> bool \<Rightarrow> nat" where
  "RecordFixedHeaderBytes has_txid has_expiry auxiliary_group =
     kRecordHeaderBaseBytes + (if has_txid then kRecordHeaderOptionalBytes else 0) +
     (if has_expiry then kRecordHeaderOptionalBytes else 0) +
     (if auxiliary_group then kRecordAuxiliaryGroupIdentityBytes else 0)"

definition RecordHeaderBytes :: "nat \<Rightarrow> bool \<Rightarrow> bool \<Rightarrow> bool \<Rightarrow> bool \<Rightarrow> nat" where
  "RecordHeaderBytes key_bytes key_external has_txid has_expiry auxiliary_group =
     unat (AlignRecord (word_of_nat (RecordFixedHeaderBytes has_txid has_expiry auxiliary_group +
       (if key_external then 0 else key_bytes))))"

definition ValidRecordKeySize :: "nat \<Rightarrow> bool" where
  "ValidRecordKeySize n = (n \<le> kMaxStringBytes)"

definition MaxInlineKeyBytes :: nat where
  "MaxInlineKeyBytes = kMaxRecordHeaderBytes - (kRecordHeaderBaseBytes + 2 * kRecordHeaderOptionalBytes)"

definition ExtentManifestBytes :: "nat \<Rightarrow> nat" where
  "ExtentManifestBytes logical_bytes = 16 + ((logical_bytes + kExtentPayloadBytes - 1) div kExtentPayloadBytes) * 24"

section \<open>Device label\<close>

record DeviceLabel =
  dl_magic :: u64
  dl_version :: u32
  dl_header_bytes :: u32
  dl_storage_set_id :: u64
  dl_device_id :: u64
  dl_capacity_blocks :: u64
  dl_device_count :: u32
  dl_block_bytes :: u32
  dl_checksum :: u32

definition DeviceLabel_bytes :: "bytes \<Rightarrow> DeviceLabel \<Rightarrow> bytes" where
  "DeviceLabel_bytes pad l =
     le_bytes 8 (dl_magic l) @ le_bytes 4 (dl_version l) @ le_bytes 4 (dl_header_bytes l) @
     le_bytes 8 (dl_storage_set_id l) @ le_bytes 8 (dl_device_id l) @ le_bytes 8 (dl_capacity_blocks l) @
     le_bytes 4 (dl_device_count l) @ le_bytes 4 (dl_block_bytes l) @ le_bytes 4 (dl_checksum l) @ pad"

definition DeviceLabel_read :: "bytes \<Rightarrow> DeviceLabel" where
  "DeviceLabel_read b =
     \<lparr>dl_magic = of_le (load b 0 8), dl_version = of_le (load b 8 4), dl_header_bytes = of_le (load b 12 4),
      dl_storage_set_id = of_le (load b 16 8), dl_device_id = of_le (load b 24 8),
      dl_capacity_blocks = of_le (load b 32 8), dl_device_count = of_le (load b 40 4),
      dl_block_bytes = of_le (load b 44 4), dl_checksum = of_le (load b 48 4)\<rparr>"

definition EncodeDeviceLabel :: "(bytes \<Rightarrow> u32) \<Rightarrow> bytes \<Rightarrow> DeviceLabel \<Rightarrow> bytes" where
  "EncodeDeviceLabel crc pad label =
     (let output = replicate kDirectIoAlignment 0;
          encoded = label\<lparr>dl_checksum := 0\<rparr>;
          output = store output 0 (DeviceLabel_bytes pad encoded);
          encoded = encoded\<lparr>dl_checksum := crc output\<rparr>
      in store output 0 (DeviceLabel_bytes pad encoded))"

definition DeviceLabel_valid :: "DeviceLabel \<Rightarrow> bool" where
  "DeviceLabel_valid d \<longleftrightarrow>
     \<not> (dl_magic d \<noteq> kDeviceLabelMagic \<or> dl_version d \<noteq> kStorageFormatVersion \<or>
        unat (dl_header_bytes d) \<noteq> kDirectIoAlignment \<or> dl_storage_set_id d = 0 \<or>
        kDeviceIdLimit \<le> dl_device_id d \<or> dl_capacity_blocks d < 2 \<or>
        kLocalBlockIdLimit < dl_capacity_blocks d \<or> dl_device_count d = 0 \<or>
        0xffff < dl_device_count d \<or> unat (dl_block_bytes d) \<noteq> kStorageBlockBytes)"

definition DecodeDeviceLabel :: "(bytes \<Rightarrow> u32) \<Rightarrow> bytes \<Rightarrow> DeviceLabel option" where
  "DecodeDeviceLabel crc input =
     (let decoded = DeviceLabel_read input in
      if \<not> DeviceLabel_valid decoded then None
      else let expected = dl_checksum decoded;
               decoded = decoded\<lparr>dl_checksum := 0\<rparr>;
               copy = store input 0 (DeviceLabel_bytes (load input 52 4) decoded)
           in if crc copy \<noteq> expected then None else Some decoded)"

section \<open>System state root\<close>

record ExtentRef =
  er_block_id :: u64
  er_allocation_epoch :: u64
  er_payload_bytes :: u32
  er_payload_checksum :: u32

record SystemStateRoot =
  sr_root_bytes :: u32
  sr_generation :: u64
  sr_manifest :: ExtentRef
  sr_manifest_bytes :: u64

definition EncodeSystemStateRoot :: "SystemStateRoot \<Rightarrow> nat \<Rightarrow> bytes option" where
  "EncodeSystemStateRoot root output_size =
     (if output_size < 56 then None
      else let o0 = replicate output_size (0 :: u8);
               o1 = StoreLittleEndian64 o0 0 kSystemStateRootMagic;
               o2 = StoreLittleEndian32 o1 8 kStorageFormatVersion;
               o3 = StoreLittleEndian32 o2 12 56;
               o4 = StoreLittleEndian64 o3 16 (sr_generation root);
               o5 = StoreLittleEndian64 o4 24 (er_block_id (sr_manifest root));
               o6 = StoreLittleEndian64 o5 32 (er_allocation_epoch (sr_manifest root));
               o7 = StoreLittleEndian32 o6 40 (er_payload_bytes (sr_manifest root));
               o8 = StoreLittleEndian32 o7 44 (er_payload_checksum (sr_manifest root))
           in Some (StoreLittleEndian64 o8 48 (sr_manifest_bytes root)))"

definition SystemStateRoot_valid :: "SystemStateRoot \<Rightarrow> bool" where
  "SystemStateRoot_valid d \<longleftrightarrow>
     \<not> (sr_generation d = 0 \<or> er_block_id (sr_manifest d) = kInvalidBlockId \<or>
        er_allocation_epoch (sr_manifest d) = 0 \<or> er_payload_bytes (sr_manifest d) = 0 \<or>
        kExtentPayloadBytes < unat (er_payload_bytes (sr_manifest d)) \<or>
        sr_manifest_bytes d \<noteq> ucast (er_payload_bytes (sr_manifest d)))"

definition DecodeSystemStateRoot :: "bytes \<Rightarrow> SystemStateRoot option" where
  "DecodeSystemStateRoot input =
     (if length input < 56 \<or> LoadLittleEndian64 input 0 \<noteq> kSystemStateRootMagic \<or>
         LoadLittleEndian32 input 8 \<noteq> kStorageFormatVersion \<or> LoadLittleEndian32 input 12 \<noteq> 56
      then None
      else let decoded =
             \<lparr>sr_root_bytes = 56, sr_generation = LoadLittleEndian64 input 16,
              sr_manifest = \<lparr>er_block_id = LoadLittleEndian64 input 24,
                er_allocation_epoch = LoadLittleEndian64 input 32,
                er_payload_bytes = LoadLittleEndian32 input 40,
                er_payload_checksum = LoadLittleEndian32 input 44\<rparr>,
              sr_manifest_bytes = LoadLittleEndian64 input 48\<rparr>
           in if SystemStateRoot_valid decoded then Some decoded else None)"

section \<open>Metadata pages\<close>

record MetadataPageHeader =
  mp_magic :: u64
  mp_version :: u32
  mp_kind :: u16
  mp_header_bytes :: u16
  mp_page_index :: u32
  mp_payload_bytes :: u32
  mp_generation :: u64
  mp_checksum :: u32
  mp_reserved :: u32

definition MetadataPageHeader_bytes :: "MetadataPageHeader \<Rightarrow> bytes" where
  "MetadataPageHeader_bytes h =
     le_bytes 8 (mp_magic h) @ le_bytes 4 (mp_version h) @ le_bytes 2 (mp_kind h) @ le_bytes 2 (mp_header_bytes h) @
     le_bytes 4 (mp_page_index h) @ le_bytes 4 (mp_payload_bytes h) @ le_bytes 8 (mp_generation h) @
     le_bytes 4 (mp_checksum h) @ le_bytes 4 (mp_reserved h)"

definition MetadataPageHeader_read :: "bytes \<Rightarrow> MetadataPageHeader" where
  "MetadataPageHeader_read b =
     \<lparr>mp_magic = of_le (load b 0 8), mp_version = of_le (load b 8 4), mp_kind = of_le (load b 12 2),
      mp_header_bytes = of_le (load b 14 2), mp_page_index = of_le (load b 16 4),
      mp_payload_bytes = of_le (load b 20 4), mp_generation = of_le (load b 24 8),
      mp_checksum = of_le (load b 32 4), mp_reserved = of_le (load b 36 4)\<rparr>"

definition EncodeMetadataPage :: "(bytes \<Rightarrow> u32) \<Rightarrow> u16 \<Rightarrow> u32 \<Rightarrow> u64 \<Rightarrow> bytes \<Rightarrow> bytes option" where
  "EncodeMetadataPage crc kind page_index generation payload =
     (if kMetadataPagePayloadBytes < length payload then None
      else let output = replicate kDirectIoAlignment 0;
               header = \<lparr>mp_magic = kMetadataPageMagic, mp_version = kStorageFormatVersion, mp_kind = kind,
                 mp_header_bytes = 40, mp_page_index = page_index, mp_payload_bytes = word_of_nat (length payload),
                 mp_generation = generation, mp_checksum = 0, mp_reserved = 0\<rparr>;
               output = store output 0 (MetadataPageHeader_bytes header);
               output = store output 40 payload;
               header = header\<lparr>mp_checksum := crc output\<rparr>
           in Some (store output 0 (MetadataPageHeader_bytes header)))"

text \<open>
  \<open>DecodeMetadataPage\<close> returns the generation and what it leaves in the caller's payload buffer
  of \<open>room\<close> bytes.
\<close>

definition DecodeMetadataPage :: "(bytes \<Rightarrow> u32) \<Rightarrow> bytes \<Rightarrow> u16 \<Rightarrow> u32 \<Rightarrow> nat \<Rightarrow> (u64 \<times> bytes) option" where
  "DecodeMetadataPage crc input expected_kind expected_page_index room =
     (let header = MetadataPageHeader_read input in
      if mp_magic header \<noteq> kMetadataPageMagic \<or> mp_version header \<noteq> kStorageFormatVersion \<or>
         mp_kind header \<noteq> expected_kind \<or> mp_header_bytes header \<noteq> 40 \<or>
         mp_page_index header \<noteq> expected_page_index \<or> mp_generation header = 0 \<or>
         kMetadataPagePayloadBytes < unat (mp_payload_bytes header) \<or> room < unat (mp_payload_bytes header)
      then None
      else let expected_checksum = mp_checksum header;
               copy = store input 0 (MetadataPageHeader_bytes (header\<lparr>mp_checksum := 0\<rparr>))
           in if crc copy \<noteq> expected_checksum then None
              else Some (mp_generation header,
                store (replicate room 0) 0 (load input 40 (unat (mp_payload_bytes header)))))"

section \<open>Record alignment\<close>

lemma unat_AlignRecord:
  assumes "n + 7 < 2 ^ 64"
  shows "unat (AlignRecord (word_of_nat n)) = (n + 7) div 8 * 8"
proof -
  let ?w = "word_of_nat n + 7 :: u64"
  have m: "(7 :: u64) = mask 3" by (simp add: mask_eq_exp_minus_1)
  have u: "unat ?w = n + 7" using assms by (simp add: unat_word_ariths unsigned_of_nat take_bit_eq_mod)
  have "AlignRecord (word_of_nat n) = ?w AND NOT (mask 3)"
    by (simp add: AlignRecord_def kRecordAlignment_def m add.commute)
  also have "\<dots> = push_bit 3 (drop_bit 3 ?w)"
    by (rule bit_word_eqI) (auto simp: bit_and_iff bit_not_iff bit_mask_iff bit_push_bit_iff bit_drop_bit_eq)
  finally have a: "AlignRecord (word_of_nat n) = push_bit 3 (drop_bit 3 ?w)" .
  have "unat (push_bit 3 (drop_bit 3 ?w)) = (n + 7) div 8 * 8"
  proof -
    have d: "unat (drop_bit 3 ?w) = (n + 7) div 8"
      using u by (simp add: drop_bit_eq_div unat_div)
    have "unat (push_bit 3 (drop_bit 3 ?w)) = take_bit 64 (push_bit 3 ((n + 7) div 8))"
      using d by (simp add: unsigned_push_bit_eq)
    also have "\<dots> = (n + 7) div 8 * 8 mod 2 ^ 64" by (simp add: push_bit_eq_mult take_bit_eq_mod)
    also have "\<dots> = (n + 7) div 8 * 8"
      using assms by (intro mod_less) (meson div_times_less_eq_dividend le_less_trans)
    finally show ?thesis .
  qed
  then show ?thesis unfolding a .
qed

lemma rounded_up:
  fixes n :: nat
  shows "n \<le> (n + 7) div 8 * 8" "(n + 7) div 8 * 8 < n + 8" "8 dvd (n + 7) div 8 * 8"
  by presburger+

lemma AlignRecord_ge:
  assumes "n + 7 < 2 ^ 64"
  shows "n \<le> unat (AlignRecord (word_of_nat n)) \<and> unat (AlignRecord (word_of_nat n)) < n + 8"
  unfolding unat_AlignRecord [OF assms] using rounded_up by blast

end
