(* ===== verification/Headers.thy ===== *)
theory Headers
  imports Format
begin

text \<open>
  Block, record and replication-frame headers of \<^verbatim>\<open>src/storage/format.cpp\<close>: the encoders, the
  decoders with every validity test, and the choice between the two header slots of a block.
\<close>

unbundle bit_operations_syntax

section \<open>Block headers\<close>

definition kBlockRecords :: u8 where "kBlockRecords = 1"
definition kBlockPayloadExtent :: u8 where "kBlockPayloadExtent = 2"
definition kBlockTransaction :: u8 where "kBlockTransaction = 4"
definition kBlockCheckpointIndex :: u8 where "kBlockCheckpointIndex = 5"

record BlockHeader =
  bh_magic :: u64
  bh_block_id :: u64
  bh_version :: u32
  bh_header_bytes :: u32
  bh_block_bytes :: u32
  bh_writer_id :: u32
  bh_allocation_epoch :: u64
  bh_committed_bytes :: u32
  bh_record_count :: u32
  bh_max_lsn :: u64
  bh_header_sequence :: u32
  bh_checksum :: u32
  bh_layout_worker_count :: u32
  bh_kind :: u8
  bh_reserved :: bytes
  bh_extent_index :: u32
  bh_extent_payload_bytes :: u32
  bh_extent_payload_checksum :: u32
  bh_reserved_runtime :: bytes
  bh_tx_generation :: u64

text \<open>
  Three reserved bytes and three reserved 64-bit words are kept as bytes; four padding bytes
  follow the extent checksum.
\<close>

definition BlockHeader_bytes :: "bytes \<Rightarrow> BlockHeader \<Rightarrow> bytes" where
  "BlockHeader_bytes pad h =
     le_bytes 8 (bh_magic h) @ le_bytes 8 (bh_block_id h) @ le_bytes 4 (bh_version h) @
     le_bytes 4 (bh_header_bytes h) @ le_bytes 4 (bh_block_bytes h) @ le_bytes 4 (bh_writer_id h) @
     le_bytes 8 (bh_allocation_epoch h) @ le_bytes 4 (bh_committed_bytes h) @ le_bytes 4 (bh_record_count h) @
     le_bytes 8 (bh_max_lsn h) @ le_bytes 4 (bh_header_sequence h) @ le_bytes 4 (bh_checksum h) @
     le_bytes 4 (bh_layout_worker_count h) @ [bh_kind h] @ bh_reserved h @ le_bytes 4 (bh_extent_index h) @
     le_bytes 4 (bh_extent_payload_bytes h) @ le_bytes 4 (bh_extent_payload_checksum h) @ pad @
     bh_reserved_runtime h @ le_bytes 8 (bh_tx_generation h)"

definition BlockHeader_read :: "bytes \<Rightarrow> BlockHeader" where
  "BlockHeader_read b =
     \<lparr>bh_magic = of_le (load b 0 8), bh_block_id = of_le (load b 8 8), bh_version = of_le (load b 16 4),
      bh_header_bytes = of_le (load b 20 4), bh_block_bytes = of_le (load b 24 4), bh_writer_id = of_le (load b 28 4),
      bh_allocation_epoch = of_le (load b 32 8), bh_committed_bytes = of_le (load b 40 4),
      bh_record_count = of_le (load b 44 4), bh_max_lsn = of_le (load b 48 8),
      bh_header_sequence = of_le (load b 56 4), bh_checksum = of_le (load b 60 4),
      bh_layout_worker_count = of_le (load b 64 4), bh_kind = of_le (load b 68 1), bh_reserved = load b 69 3,
      bh_extent_index = of_le (load b 72 4), bh_extent_payload_bytes = of_le (load b 76 4),
      bh_extent_payload_checksum = of_le (load b 80 4), bh_reserved_runtime = load b 88 24,
      bh_tx_generation = of_le (load b 112 8)\<rparr>"

definition EncodeBlockHeader :: "(bytes \<Rightarrow> u32) \<Rightarrow> bytes \<Rightarrow> BlockHeader \<Rightarrow> bytes" where
  "EncodeBlockHeader crc pad header =
     (let output = replicate kBlockHeaderSlotBytes 0;
          encoded = header\<lparr>bh_checksum := 0\<rparr>;
          output = store output 0 (BlockHeader_bytes pad encoded);
          encoded = encoded\<lparr>bh_checksum := crc output\<rparr>
      in store output 0 (BlockHeader_bytes pad encoded))"

definition block_frame_ok :: "BlockHeader \<Rightarrow> bool" where
  "block_frame_ok d \<longleftrightarrow>
     \<not> (bh_magic d \<noteq> kBlockMagic \<or> bh_block_id d = kInvalidBlockId \<or> LocalBlockId (bh_block_id d) = 0 \<or>
        bh_version d \<noteq> kStorageFormatVersion \<or> unat (bh_header_bytes d) \<noteq> kBlockHeaderBytes \<or>
        unat (bh_block_bytes d) \<noteq> kStorageBlockBytes \<or> bh_layout_worker_count d = 0 \<or>
        kLogicalStorageShards < unat (bh_layout_worker_count d) \<or>
        bh_layout_worker_count d \<le> bh_writer_id d \<or> unat (bh_committed_bytes d) < kBlockHeaderBytes \<or>
        kStorageBlockBytes < unat (bh_committed_bytes d)) \<and>
     \<not> (bh_kind d \<noteq> kBlockRecords \<and> bh_kind d \<noteq> kBlockPayloadExtent \<and> bh_kind d \<noteq> kBlockTransaction \<and>
        bh_kind d \<noteq> kBlockCheckpointIndex \<or> bh_reserved d \<noteq> replicate 3 0)"

definition block_kind_ok :: "BlockHeader \<Rightarrow> bool" where
  "block_kind_ok d \<longleftrightarrow>
     (if bh_kind d = kBlockRecords \<or> bh_kind d = kBlockTransaction then
        \<not> (bh_extent_index d \<noteq> 0 \<or> bh_extent_payload_bytes d \<noteq> 0 \<or> bh_extent_payload_checksum d \<noteq> 0 \<or>
           bh_reserved_runtime d \<noteq> replicate 24 0 \<or>
           bh_kind d = kBlockRecords \<and> bh_tx_generation d \<noteq> 0 \<or>
           bh_kind d = kBlockTransaction \<and> bh_tx_generation d = 0)
      else if bh_kind d = kBlockPayloadExtent then
        \<not> (bh_record_count d \<noteq> 0 \<or> bh_extent_payload_bytes d = 0 \<or>
           kExtentPayloadBytes < unat (bh_extent_payload_bytes d) \<or>
           unat (bh_committed_bytes d) \<noteq> kBlockHeaderBytes + unat (bh_extent_payload_bytes d) \<or>
           bh_reserved_runtime d \<noteq> replicate 24 0 \<or> bh_tx_generation d \<noteq> 0)
      else
        \<not> (bh_tx_generation d = 0 \<or> bh_extent_payload_bytes d = 0 \<or>
           kExtentPayloadBytes < unat (bh_extent_payload_bytes d) \<or>
           unat (bh_committed_bytes d) \<noteq> kBlockHeaderBytes + unat (bh_extent_payload_bytes d) \<or>
           bh_reserved_runtime d \<noteq> replicate 24 0))"

definition DecodeBlockHeader :: "(bytes \<Rightarrow> u32) \<Rightarrow> bytes \<Rightarrow> BlockHeader option" where
  "DecodeBlockHeader crc input =
     (let decoded = BlockHeader_read input in
      if \<not> block_frame_ok decoded then None
      else if \<not> block_kind_ok decoded then None
      else let expected = bh_checksum decoded;
               decoded = decoded\<lparr>bh_checksum := 0\<rparr>;
               copy = store input 0 (BlockHeader_bytes (load input 84 4) decoded)
           in if crc copy \<noteq> expected then None else Some decoded)"

definition newer_header :: "BlockHeader \<Rightarrow> BlockHeader \<Rightarrow> bool" where
  "newer_header decoded best \<longleftrightarrow>
     bh_allocation_epoch best < bh_allocation_epoch decoded \<or>
     bh_allocation_epoch decoded = bh_allocation_epoch best \<and> bh_header_sequence best < bh_header_sequence decoded"

fun best_slot :: "(bytes \<Rightarrow> u32) \<Rightarrow> bytes \<Rightarrow> nat list \<Rightarrow> (BlockHeader \<times> nat) option \<Rightarrow> (BlockHeader \<times> nat) option" where
  "best_slot crc input [] best = best"
| "best_slot crc input (slot # slots) best =
     (case DecodeBlockHeader crc (load input (slot * kBlockHeaderSlotBytes) kBlockHeaderSlotBytes) of
        None \<Rightarrow> best_slot crc input slots best
      | Some decoded \<Rightarrow>
          best_slot crc input slots
            (case best of
               None \<Rightarrow> Some (decoded, slot)
             | Some (b, _) \<Rightarrow> if newer_header decoded b then Some (decoded, slot) else best))"

definition DecodeBlockHeaderPages :: "(bytes \<Rightarrow> u32) \<Rightarrow> bytes \<Rightarrow> (BlockHeader \<times> nat) option" where
  "DecodeBlockHeaderPages crc input = best_slot crc input [0..<kBlockHeaderSlots] None"

section \<open>Record headers\<close>

definition kValue :: u8 where "kValue = 1"
definition kTombstone :: u8 where "kTombstone = 2"
definition kTxCommit :: u8 where "kTxCommit = 3"

definition kTypeNone :: u8 where "kTypeNone = 0"
definition kTypeString :: u8 where "kTypeString = 1"
definition kTypeList :: u8 where "kTypeList = 2"
definition kTypeSet :: u8 where "kTypeSet = 3"
definition kTypeSortedSet :: u8 where "kTypeSortedSet = 4"
definition kTypeHash :: u8 where "kTypeHash = 5"
definition kTypeStream :: u8 where "kTypeStream = 6"

record RecordHeader =
  rh_header_bytes :: u16
  rh_kind :: u8
  rh_db_id :: u8
  rh_value_type :: u8
  rh_external :: bool
  rh_key_external :: bool
  rh_grouped :: bool
  rh_auxiliary_group :: bool
  rh_group_retired :: bool
  rh_group_incarnation :: u64
  rh_group_prefix :: u64
  rh_group_prefix_bits :: u8
  rh_group_batch_txid :: u64
  rh_key_bytes :: u32
  rh_logical_size :: u32
  rh_payload_bytes :: u32
  rh_total_disk_bytes :: u32
  rh_txid :: u64
  rh_replication_epoch :: u64
  rh_db_epoch :: u64
  rh_mutation_sequence :: u64
  rh_expire_at_ms :: u64
  rh_lsn :: u64
  rh_allocation_epoch :: u64
  rh_payload_checksum :: u32
  rh_header_checksum :: u32

definition RecordMetadata :: "RecordHeader \<Rightarrow> u16" where
  "RecordMetadata h =
     ucast (rh_kind h) OR push_bit 2 (ucast (rh_db_id h)) OR push_bit 6 (ucast (rh_value_type h)) OR
     push_bit 9 (of_bool (rh_external h)) OR push_bit 10 (of_bool (rh_key_external h)) OR
     push_bit 11 (of_bool (rh_txid h \<noteq> 0)) OR push_bit 12 (of_bool (rh_expire_at_ms h \<noteq> 0)) OR
     push_bit 13 (of_bool (rh_grouped h)) OR push_bit 14 (of_bool (rh_auxiliary_group h))"

definition RecordMetadataBit :: "u16 \<Rightarrow> nat \<Rightarrow> bool" where
  "RecordMetadataBit metadata shift = (metadata AND push_bit shift 1 \<noteq> 0)"

definition ValidGroupedRecordHeader :: "RecordHeader \<Rightarrow> bool" where
  "ValidGroupedRecordHeader h =
     (let hashed = (rh_value_type h = kTypeHash \<or> rh_value_type h = kTypeSet);
          ordered = (rh_value_type h = kTypeList \<or> rh_value_type h = kTypeSortedSet)
      in if (rh_grouped h \<or> rh_auxiliary_group h) \<and>
            (rh_kind h \<noteq> kValue \<or> \<not> hashed \<and> \<not> ordered \<or> rh_mutation_sequence h = 0) then False
         else if rh_grouped h \<and>
            (rh_auxiliary_group h \<or> rh_logical_size h = 0 \<or> rh_external h \<and> \<not> rh_key_external h) then False
         else if \<not> rh_auxiliary_group h then
           rh_group_incarnation h = 0 \<and> rh_group_prefix h = 0 \<and> rh_group_prefix_bits h = 0 \<and>
           \<not> rh_group_retired h \<and> rh_group_batch_txid h = 0
         else if rh_group_batch_txid h \<noteq> 0 \<and> rh_txid h = 0 then False
         else if rh_group_retired h \<and> rh_logical_size h \<noteq> 0 then False
         else if rh_group_incarnation h = 0 \<or> 64 < rh_group_prefix_bits h \<or> rh_expire_at_ms h \<noteq> 0 then False
         else if ordered \<and> (rh_value_type h = kTypeList \<or> rh_group_prefix_bits h = 0 \<and> rh_group_prefix h \<noteq> 0)
         then rh_group_prefix h \<noteq> 0 \<and> rh_group_prefix_bits h = 0
         else let m = (if rh_group_prefix_bits h = 0 then 0
                       else push_bit (64 - unat (rh_group_prefix_bits h)) (- 1)) :: u64
              in rh_group_prefix h AND NOT m = 0)"

text \<open>The tests shared by the encoder and the decoder.\<close>

definition record_kind_ok :: "RecordHeader \<Rightarrow> bool" where
  "record_kind_ok h \<longleftrightarrow>
     \<not> (rh_kind h \<noteq> kValue \<and> rh_kind h \<noteq> kTombstone \<and> rh_kind h \<noteq> kTxCommit) \<and>
     rh_value_type h \<le> kTypeStream \<and> \<not> (rh_kind h = kValue \<and> rh_value_type h = kTypeNone)"

definition tombstone_ok :: "RecordHeader \<Rightarrow> bool" where
  "tombstone_ok h \<longleftrightarrow>
     \<not> (\<not> rh_key_external h \<and> (rh_payload_bytes h \<noteq> 0 \<or> rh_external h) \<or>
        rh_key_external h \<and> \<not> rh_external h \<and> rh_payload_bytes h \<noteq> rh_key_bytes h)"

definition header_bytes_of :: "RecordHeader \<Rightarrow> nat \<Rightarrow> nat" where
  "header_bytes_of h key_size =
     RecordHeaderBytes key_size (rh_key_external h) (rh_txid h \<noteq> 0) (rh_expire_at_ms h \<noteq> 0) (rh_auxiliary_group h)"

definition fixed_bytes_of :: "RecordHeader \<Rightarrow> nat" where
  "fixed_bytes_of h = RecordFixedHeaderBytes (rh_txid h \<noteq> 0) (rh_expire_at_ms h \<noteq> 0) (rh_auxiliary_group h)"

definition total_bytes_of :: "RecordHeader \<Rightarrow> nat \<Rightarrow> nat" where
  "total_bytes_of h key_size =
     unat (AlignRecord (word_of_nat (header_bytes_of h key_size + unat (rh_payload_bytes h))))"

definition encodable :: "RecordHeader \<Rightarrow> bytes \<Rightarrow> nat \<Rightarrow> bool" where
  "encodable h key output_size \<longleftrightarrow>
     ValidGroupedRecordHeader h \<and> ValidRecordKeySize (length key) \<and> length key = unat (rh_key_bytes h) \<and>
     \<not> (rh_key_external h \<and> key = []) \<and> unat (rh_db_id h) < 16 \<and> record_kind_ok h \<and>
     \<not> (rh_kind h = kTombstone \<and>
        (rh_logical_size h \<noteq> 0 \<or> rh_expire_at_ms h \<noteq> 0 \<or> rh_value_type h \<noteq> kTypeNone \<or> \<not> tombstone_ok h)) \<and>
     \<not> (rh_kind h = kTxCommit \<and>
        (rh_logical_size h \<noteq> 0 \<or> rh_payload_bytes h \<noteq> 0 \<or> rh_external h \<or> rh_expire_at_ms h \<noteq> 0 \<or>
         rh_value_type h \<noteq> kTypeNone \<or> rh_txid h = 0 \<or> rh_key_bytes h \<noteq> 0 \<or> rh_key_external h)) \<and>
     rh_replication_epoch h \<noteq> 0 \<and> rh_db_epoch h \<noteq> 0 \<and>
     unat (rh_header_bytes h) = header_bytes_of h (length key) \<and>
     unat (rh_total_disk_bytes h) = total_bytes_of h (length key) \<and>
     total_bytes_of h (length key) \<le> kStorageBlockBytes - kBlockHeaderBytes \<and>
     header_bytes_of h (length key) \<le> kMaxRecordHeaderBytes \<and> output_size = header_bytes_of h (length key)"

definition store_base :: "RecordHeader \<Rightarrow> bytes \<Rightarrow> bytes" where
  "store_base h output =
     (let output = store output 0 (le_bytes 8 kRecordMagic);
          output = store output 8 (le_bytes 4 (rh_key_bytes h));
          output = store output 12 (le_bytes 4 (rh_logical_size h));
          output = store output 16 (le_bytes 4 (rh_payload_bytes h));
          output = store output 20 (le_bytes 2 (RecordMetadata h));
          output = store output 22 (le_bytes 2 (0 :: u16));
          output = store output 24 (le_bytes 8 (rh_replication_epoch h));
          output = store output 32 (le_bytes 8 (rh_db_epoch h));
          output = store output 40 (le_bytes 8 (rh_mutation_sequence h));
          output = store output 48 (le_bytes 8 (rh_lsn h));
          output = store output 56 (le_bytes 8 (rh_allocation_epoch h))
      in store output 64 (le_bytes 4 (rh_payload_checksum h)))"

text \<open>The optional fields: the buffer and the offset after the last field stored.\<close>

definition store_txid :: "RecordHeader \<Rightarrow> bytes \<times> nat \<Rightarrow> bytes \<times> nat" where
  "store_txid h p = (if rh_txid h \<noteq> 0 then (store (fst p) (snd p) (le_bytes 8 (rh_txid h)), snd p + kRecordHeaderOptionalBytes) else p)"

definition store_expiry :: "RecordHeader \<Rightarrow> bytes \<times> nat \<Rightarrow> bytes \<times> nat" where
  "store_expiry h p =
     (if rh_expire_at_ms h \<noteq> 0 then (store (fst p) (snd p) (le_bytes 8 (rh_expire_at_ms h)), snd p + kRecordHeaderOptionalBytes) else p)"

definition group_bits :: "RecordHeader \<Rightarrow> u64" where
  "group_bits h = ucast (rh_group_prefix_bits h) OR push_bit 8 (of_bool (rh_group_retired h))"

definition store_group :: "RecordHeader \<Rightarrow> bytes \<times> nat \<Rightarrow> bytes \<times> nat" where
  "store_group h p =
     (if rh_auxiliary_group h then
        let (output, off) = p;
            output = store output off (le_bytes 8 (rh_group_incarnation h));
            output = store output (off + 8) (le_bytes 8 (rh_group_prefix h));
            output = store output (off + 16) (le_bytes 8 (group_bits h));
            output = store output (off + 24) (le_bytes 8 (rh_group_batch_txid h))
        in (output, off + kRecordAuxiliaryGroupIdentityBytes)
      else p)"

text \<open>
  \<open>EncodeRecordHeader\<close> overwrites the caller's buffer; \<^const>\<open>None\<close> is the answer false, which
  leaves the buffer alone.
\<close>

definition EncodeRecordHeader :: "(bytes \<Rightarrow> u32) \<Rightarrow> RecordHeader \<Rightarrow> bytes \<Rightarrow> bytes \<Rightarrow> bytes option" where
  "EncodeRecordHeader crc h key output =
     (if \<not> encodable h key (length output) then None
      else let (output, off) = store_group h (store_expiry h (store_txid h (store_base h output, kRecordHeaderBaseBytes)));
               fixed = fixed_bytes_of h;
               (output, encoded_bytes) =
                 (if rh_key_external h then (output, fixed) else (store output fixed key, fixed + length key));
               output = take encoded_bytes output @ replicate (length output - encoded_bytes) 0;
               output = store output 68 (le_bytes 4 (0 :: u32))
           in Some (store output 68 (le_bytes 4 (crc output))))"

definition RecordHeaderChecksum :: "(bytes \<Rightarrow> u32) \<Rightarrow> bytes \<Rightarrow> u32" where
  "RecordHeaderChecksum crc input = crc (store input 68 (le_bytes 4 (0 :: u32)))"

definition decodable :: "RecordHeader \<Rightarrow> bool \<Rightarrow> bool \<Rightarrow> bool" where
  "decodable d has_txid has_expiry \<longleftrightarrow>
     ValidGroupedRecordHeader d \<and> \<not> (has_txid \<and> rh_txid d = 0) \<and> \<not> (has_expiry \<and> rh_expire_at_ms d = 0) \<and>
     record_kind_ok d \<and> unat (rh_db_id d) < 16 \<and>
     \<not> (rh_kind d = kValue \<and> rh_value_type d = kTypeString \<and> kMaxBitmapBytes < unat (rh_logical_size d)) \<and>
     rh_replication_epoch d \<noteq> 0 \<and> rh_db_epoch d \<noteq> 0 \<and> \<not> (rh_key_external d \<and> rh_key_bytes d = 0) \<and>
     \<not> (rh_kind d \<noteq> kValue \<and>
        (rh_logical_size d \<noteq> 0 \<or> rh_expire_at_ms d \<noteq> 0 \<or> rh_value_type d \<noteq> kTypeNone)) \<and>
     \<not> (rh_kind d = kTombstone \<and> \<not> tombstone_ok d) \<and>
     \<not> (rh_kind d = kTxCommit \<and> (rh_txid d = 0 \<or> rh_key_bytes d \<noteq> 0 \<or> rh_key_external d))"

definition load_group :: "bytes \<Rightarrow> nat \<Rightarrow> RecordHeader \<Rightarrow> RecordHeader option" where
  "load_group input off d =
     (let bits = of_le (load input (off + 16) 8) :: u64 in
      if bits AND NOT 0x1ff \<noteq> 0 \<or> 64 < bits AND 0xff then None
      else Some (d\<lparr>rh_group_incarnation := of_le (load input off 8), rh_group_prefix := of_le (load input (off + 8) 8),
             rh_group_prefix_bits := ucast (bits AND 0xff), rh_group_retired := (bits AND 0x100 \<noteq> 0),
             rh_group_batch_txid := of_le (load input (off + 24) 8)\<rparr>))"

definition load_base :: "bytes \<Rightarrow> u16 \<Rightarrow> nat \<Rightarrow> nat \<Rightarrow> RecordHeader" where
  "load_base input m header_bytes total_disk_bytes =
     \<lparr>rh_header_bytes = word_of_nat header_bytes,
      rh_kind = ucast (m AND 0x3),
      rh_db_id = ucast (drop_bit 2 m AND 0xf),
      rh_value_type = ucast (drop_bit 6 m AND 0x7),
      rh_external = RecordMetadataBit m 9,
      rh_key_external = RecordMetadataBit m 10,
      rh_grouped = RecordMetadataBit m 13,
      rh_auxiliary_group = RecordMetadataBit m 14,
      rh_group_retired = False, rh_group_incarnation = 0, rh_group_prefix = 0, rh_group_prefix_bits = 0,
      rh_group_batch_txid = 0,
      rh_key_bytes = of_le (load input 8 4),
      rh_logical_size = of_le (load input 12 4),
      rh_payload_bytes = of_le (load input 16 4),
      rh_total_disk_bytes = word_of_nat total_disk_bytes,
      rh_txid = 0,
      rh_replication_epoch = of_le (load input 24 8),
      rh_db_epoch = of_le (load input 32 8),
      rh_mutation_sequence = of_le (load input 40 8),
      rh_expire_at_ms = 0,
      rh_lsn = of_le (load input 48 8),
      rh_allocation_epoch = of_le (load input 56 8),
      rh_payload_checksum = of_le (load input 64 4),
      rh_header_checksum = of_le (load input 68 4)\<rparr>"

definition load_txid :: "bytes \<Rightarrow> bool \<Rightarrow> RecordHeader \<times> nat \<Rightarrow> RecordHeader \<times> nat" where
  "load_txid input has_txid p =
     (if has_txid then ((fst p)\<lparr>rh_txid := of_le (load input (snd p) 8)\<rparr>, snd p + kRecordHeaderOptionalBytes) else p)"

definition load_expiry :: "bytes \<Rightarrow> bool \<Rightarrow> RecordHeader \<times> nat \<Rightarrow> RecordHeader \<times> nat" where
  "load_expiry input has_expiry p =
     (if has_expiry then ((fst p)\<lparr>rh_expire_at_ms := of_le (load input (snd p) 8)\<rparr>, snd p + kRecordHeaderOptionalBytes) else p)"

definition load_optional :: "bytes \<Rightarrow> bool \<Rightarrow> bool \<Rightarrow> bool \<Rightarrow> RecordHeader \<Rightarrow> RecordHeader option" where
  "load_optional input has_txid has_expiry auxiliary_group d =
     (let p = load_expiry input has_expiry (load_txid input has_txid (d, kRecordHeaderBaseBytes))
      in if auxiliary_group then load_group input (snd p) (fst p) else Some (fst p))"

definition DecodeRecordHeader :: "(bytes \<Rightarrow> u32) \<Rightarrow> bytes \<Rightarrow> (RecordHeader \<times> bytes) option" where
  "DecodeRecordHeader crc input =
     (if length input < kRecordHeaderBaseBytes then None
      else if of_le (load input 0 8) \<noteq> kRecordMagic then None
      else let m = of_le (load input 20 2) :: u16 in
        if m AND 0x8000 \<noteq> 0 then None
        else let has_txid = RecordMetadataBit m 11;
                 has_expiry = RecordMetadataBit m 12;
                 auxiliary_group = RecordMetadataBit m 14;
                 key_external = RecordMetadataBit m 10;
                 key_bytes = unat (of_le (load input 8 4) :: u32);
                 payload_bytes = unat (of_le (load input 16 4) :: u32);
                 fixed = RecordFixedHeaderBytes has_txid has_expiry auxiliary_group;
                 header_bytes = RecordHeaderBytes key_bytes key_external has_txid has_expiry auxiliary_group;
                 total_disk_bytes = unat (AlignRecord (word_of_nat (header_bytes + payload_bytes)))
             in if \<not> ValidRecordKeySize key_bytes \<or> kMaxRecordHeaderBytes < header_bytes \<or> length input < header_bytes
                then None
                else if kStorageBlockBytes - kBlockHeaderBytes < total_disk_bytes then None
                else let d = load_base input m header_bytes total_disk_bytes
                     in case load_optional input has_txid has_expiry auxiliary_group d of
                          None \<Rightarrow> None
                        | Some d \<Rightarrow>
                            if \<not> decodable d has_txid has_expiry then None
                            else if RecordHeaderChecksum crc (take header_bytes input) \<noteq> rh_header_checksum d then None
                            else Some (d, if rh_key_external d then [] else load input fixed key_bytes))"

section \<open>Replication frames\<close>

record ReplicationFrameHeader =
  rf_magic :: u64
  rf_version :: u32
  rf_header_bytes :: u16
  rf_kind :: u8
  rf_flags :: u8
  rf_lsn :: u64
  rf_partition_sequence :: u64
  rf_payload_bytes :: u32
  rf_total_disk_bytes :: u32
  rf_fragment_index :: u32
  rf_partition_id :: u16
  rf_reserved :: u16
  rf_payload_checksum :: u32
  rf_header_checksum :: u32

definition kFrameFirst :: u8 where "kFrameFirst = 1"
definition kFrameLast :: u8 where "kFrameLast = 2"

definition ReplicationFrameHeader_bytes :: "ReplicationFrameHeader \<Rightarrow> bytes" where
  "ReplicationFrameHeader_bytes h =
     le_bytes 8 (rf_magic h) @ le_bytes 4 (rf_version h) @ le_bytes 2 (rf_header_bytes h) @ [rf_kind h] @ [rf_flags h] @
     le_bytes 8 (rf_lsn h) @ le_bytes 8 (rf_partition_sequence h) @ le_bytes 4 (rf_payload_bytes h) @
     le_bytes 4 (rf_total_disk_bytes h) @ le_bytes 4 (rf_fragment_index h) @ le_bytes 2 (rf_partition_id h) @
     le_bytes 2 (rf_reserved h) @ le_bytes 4 (rf_payload_checksum h) @ le_bytes 4 (rf_header_checksum h)"

definition ReplicationFrameHeader_read :: "bytes \<Rightarrow> ReplicationFrameHeader" where
  "ReplicationFrameHeader_read b =
     \<lparr>rf_magic = of_le (load b 0 8), rf_version = of_le (load b 8 4), rf_header_bytes = of_le (load b 12 2),
      rf_kind = of_le (load b 14 1), rf_flags = of_le (load b 15 1), rf_lsn = of_le (load b 16 8),
      rf_partition_sequence = of_le (load b 24 8), rf_payload_bytes = of_le (load b 32 4),
      rf_total_disk_bytes = of_le (load b 36 4), rf_fragment_index = of_le (load b 40 4),
      rf_partition_id = of_le (load b 44 2), rf_reserved = of_le (load b 46 2),
      rf_payload_checksum = of_le (load b 48 4), rf_header_checksum = of_le (load b 52 4)\<rparr>"

definition frame_ok :: "ReplicationFrameHeader \<Rightarrow> bool" where
  "frame_ok h \<longleftrightarrow>
     \<not> (rf_magic h \<noteq> kReplicationFrameMagic \<or> rf_version h \<noteq> kStorageFormatVersion \<or> rf_header_bytes h \<noteq> 56 \<or>
        rf_lsn h = 0 \<or> kLogicalStorageShards \<le> unat (rf_partition_id h) \<or> rf_reserved h \<noteq> 0 \<or>
        kStorageBlockBytes - 56 < unat (rf_payload_bytes h) \<or>
        ucast (rf_total_disk_bytes h) \<noteq> AlignRecord (56 + ucast (rf_payload_bytes h))) \<and>
     \<not> (rf_flags h AND NOT (kFrameFirst OR kFrameLast) \<noteq> 0 \<or>
        (rf_flags h AND kFrameFirst \<noteq> 0) \<noteq> (rf_fragment_index h = 0)) \<and>
     rf_kind h \<in> {1, 2, 3, 4, 5}"

definition EncodeReplicationFrameHeader :: "(bytes \<Rightarrow> u32) \<Rightarrow> ReplicationFrameHeader \<Rightarrow> bytes option" where
  "EncodeReplicationFrameHeader crc h =
     (if \<not> frame_ok h then None
      else let encoded = h\<lparr>rf_header_checksum := 0\<rparr>;
               output = ReplicationFrameHeader_bytes encoded
           in Some (ReplicationFrameHeader_bytes (encoded\<lparr>rf_header_checksum := crc output\<rparr>)))"

definition DecodeReplicationFrameHeader :: "(bytes \<Rightarrow> u32) \<Rightarrow> bytes \<Rightarrow> ReplicationFrameHeader option" where
  "DecodeReplicationFrameHeader crc input =
     (if length input < 56 then None
      else let decoded = ReplicationFrameHeader_read input;
               expected = rf_header_checksum decoded;
               encoded = ReplicationFrameHeader_bytes (decoded\<lparr>rf_header_checksum := 0\<rparr>)
           in if crc encoded \<noteq> expected then None
              else case EncodeReplicationFrameHeader crc decoded of
                     None \<Rightarrow> None
                   | Some validated \<Rightarrow> if validated = take 56 input then Some decoded else None)"

end
