(* ===== verification/Format_Roundtrip.thy ===== *)
theory Format_Roundtrip
  imports Headers
begin

text \<open>
  Round trips of the storage codecs: whatever an encoder wrote is decoded to the value it was
  given, for every checksum function, and a decoder accepts only buffers whose checksum and
  fields are right.
\<close>

unbundle bit_operations_syntax

section \<open>Reading a laid-out structure\<close>

named_theorems layout_simps

lemma load_append_left [layout_simps]: "off + n \<le> length xs \<Longrightarrow> load (xs @ ys) off n = load xs off n"
  by (simp add: load_def)

lemma load_append_right [layout_simps]: "length xs \<le> off \<Longrightarrow> load (xs @ ys) off n = load ys (off - length xs) n"
  by (simp add: load_def)

lemma load_Cons_right [layout_simps]: "1 \<le> off \<Longrightarrow> load (x # ys) off n = load ys (off - 1) n"
  using load_append_right [of "[x]" off ys n] by simp

lemma load_all [layout_simps]: "n = length xs \<Longrightarrow> load xs 0 n = xs"
  by (simp add: load_def)

lemma load_singleton [layout_simps]: "load (x # ys) 0 1 = [x]" "load (x # ys) 0 (Suc 0) = [x]"
  by (simp_all add: load_def)

lemma load_stored_prefix [layout_simps]:
  "off + n \<le> length v \<Longrightarrow> length v \<le> length buf \<Longrightarrow> load (store buf 0 v) off n = load v off n"
  by (simp add: store_def load_append_left)

lemma of_le_singleton [simp]: "of_le [b] = (b :: u8)"
  by simp

section \<open>Device labels\<close>

lemma length_DeviceLabel_bytes [simp]: "length (DeviceLabel_bytes pad l) = 52 + length pad"
  by (simp add: DeviceLabel_bytes_def)

lemma DeviceLabel_read_bytes:
  "length pad = 4 \<Longrightarrow> 56 \<le> length buf \<Longrightarrow> DeviceLabel_read (store buf 0 (DeviceLabel_bytes pad l)) = l"
  by (simp add: DeviceLabel_read_def layout_simps) (simp add: DeviceLabel_bytes_def layout_simps)

lemma DeviceLabel_pad:
  "length pad = 4 \<Longrightarrow> 56 \<le> length buf \<Longrightarrow> load (store buf 0 (DeviceLabel_bytes pad l)) 52 4 = pad"
  by (simp add: layout_simps) (simp add: DeviceLabel_bytes_def layout_simps)

lemma device_label_decoded:
  assumes "DeviceLabel_valid l" "length pad = 4"
  shows "DecodeDeviceLabel crc (EncodeDeviceLabel crc pad l) = Some (l\<lparr>dl_checksum := 0\<rparr>)"
proof -
  define zeroed where "zeroed = store (replicate kDirectIoAlignment 0) 0 (DeviceLabel_bytes pad (l\<lparr>dl_checksum := 0\<rparr>))"
  define enc where "enc = store zeroed 0 (DeviceLabel_bytes pad (l\<lparr>dl_checksum := crc zeroed\<rparr>))"
  have len: "length zeroed = 4096" using assms(2) by (simp add: zeroed_def kDirectIoAlignment_def)
  have e: "EncodeDeviceLabel crc pad l = enc"
    by (simp add: EncodeDeviceLabel_def Let_def zeroed_def enc_def)
  have r: "DeviceLabel_read enc = l\<lparr>dl_checksum := crc zeroed\<rparr>" "load enc 52 4 = pad"
    using assms(2) len by (simp_all add: enc_def DeviceLabel_read_bytes DeviceLabel_pad)
  have "store enc 0 (DeviceLabel_bytes pad (l\<lparr>dl_checksum := 0\<rparr>)) = zeroed"
    using assms(2) by (simp add: enc_def zeroed_def store_store_same kDirectIoAlignment_def)
  moreover have "DeviceLabel_valid (l\<lparr>dl_checksum := c\<rparr>)" for c
    using assms(1) by (simp add: DeviceLabel_valid_def)
  ultimately show ?thesis by (simp add: e DecodeDeviceLabel_def r)
qed

section \<open>Metadata pages\<close>

lemma length_MetadataPageHeader_bytes [simp]: "length (MetadataPageHeader_bytes h) = 40"
  by (simp add: MetadataPageHeader_bytes_def)

lemma MetadataPageHeader_read_bytes:
  "40 \<le> length buf \<Longrightarrow> MetadataPageHeader_read (store buf 0 (MetadataPageHeader_bytes h)) = h"
  by (simp add: MetadataPageHeader_read_def layout_simps) (simp add: MetadataPageHeader_bytes_def layout_simps)

lemma metadata_page_decoded:
  assumes "EncodeMetadataPage crc kind index gen payload = Some page" "gen \<noteq> 0" "length payload \<le> room"
  shows "DecodeMetadataPage crc page kind index room = Some (gen, payload @ replicate (room - length payload) 0)"
proof -
  let ?h = "\<lambda>c. \<lparr>mp_magic = kMetadataPageMagic, mp_version = kStorageFormatVersion, mp_kind = kind,
      mp_header_bytes = 40, mp_page_index = index, mp_payload_bytes = word_of_nat (length payload),
      mp_generation = gen, mp_checksum = c, mp_reserved = 0\<rparr>"
  define zeroed where "zeroed = store (store (replicate kDirectIoAlignment 0) 0 (MetadataPageHeader_bytes (?h 0))) 40 payload"
  have fits: "length payload \<le> 4056"
    using assms(1) by (auto simp: EncodeMetadataPage_def kMetadataPagePayloadBytes_def kDirectIoAlignment_def not_less split: if_splits)
  then have len: "length zeroed = 4096" by (simp add: zeroed_def kDirectIoAlignment_def)
  have page: "page = store zeroed 0 (MetadataPageHeader_bytes (?h (crc zeroed)))"
    using assms(1) by (auto simp: EncodeMetadataPage_def Let_def zeroed_def split: if_splits)
  have r: "MetadataPageHeader_read page = ?h (crc zeroed)"
    using len by (simp add: page MetadataPageHeader_read_bytes)
  have u: "unat (word_of_nat (length payload) :: u32) = length payload"
    using fits by (simp add: unsigned_of_nat take_bit_eq_mod)
  have "load zeroed 0 40 = MetadataPageHeader_bytes (?h 0)"
    unfolding zeroed_def using fits by (subst load_store_other) (simp_all add: kDirectIoAlignment_def load_store_same)
  then have "store page 0 (MetadataPageHeader_bytes (?h 0)) = zeroed"
    using len store_load [of 0 40 zeroed] by (simp add: page store_store_same)
  moreover have "load page 40 (length payload) = payload"
    unfolding page using len
    by (subst load_store_other) (simp_all add: zeroed_def load_store_same fits kDirectIoAlignment_def)
  moreover have "store (replicate room 0) 0 payload = payload @ replicate (room - length payload) 0"
    by (simp add: store_def)
  ultimately show ?thesis
    using assms(2,3) fits by (simp add: DecodeMetadataPage_def r u kMetadataPagePayloadBytes_def kDirectIoAlignment_def)
qed

section \<open>Block headers\<close>

lemma length_BlockHeader_bytes:
  "length (BlockHeader_bytes pad h) = 89 + length (bh_reserved h) + length pad + length (bh_reserved_runtime h)"
  by (simp add: BlockHeader_bytes_def)

lemma block_fields: "block_frame_ok h \<Longrightarrow> block_kind_ok h \<Longrightarrow> length (bh_reserved h) = 3 \<and> length (bh_reserved_runtime h) = 24"
  by (auto simp: block_frame_ok_def block_kind_ok_def split: if_splits)

lemma BlockHeader_read_bytes:
  assumes "length (bh_reserved h) = 3" "length (bh_reserved_runtime h) = 24" "length pad = 4" "120 \<le> length buf"
  shows "BlockHeader_read (store buf 0 (BlockHeader_bytes pad h)) = h"
    and "load (store buf 0 (BlockHeader_bytes pad h)) 84 4 = pad"
proof -
  have l: "length (BlockHeader_bytes pad h) = 120" using assms by (simp add: length_BlockHeader_bytes)
  show "BlockHeader_read (store buf 0 (BlockHeader_bytes pad h)) = h"
    using assms l by (simp add: BlockHeader_read_def layout_simps) (simp add: BlockHeader_bytes_def layout_simps)
  show "load (store buf 0 (BlockHeader_bytes pad h)) 84 4 = pad"
    using assms l by (simp add: layout_simps) (simp add: BlockHeader_bytes_def layout_simps)
qed

lemma block_ok_checksum [simp]:
  "block_frame_ok (h\<lparr>bh_checksum := c\<rparr>) = block_frame_ok h" "block_kind_ok (h\<lparr>bh_checksum := c\<rparr>) = block_kind_ok h"
  by (simp_all add: block_frame_ok_def block_kind_ok_def)

lemma block_header_decoded:
  assumes "block_frame_ok h" "block_kind_ok h" "length pad = 4"
  shows "DecodeBlockHeader crc (EncodeBlockHeader crc pad h) = Some (h\<lparr>bh_checksum := 0\<rparr>)"
proof -
  have f: "length (bh_reserved h) = 3" "length (bh_reserved_runtime h) = 24"
    using block_fields [OF assms(1,2)] by simp_all
  define zeroed where "zeroed = store (replicate kBlockHeaderSlotBytes 0) 0 (BlockHeader_bytes pad (h\<lparr>bh_checksum := 0\<rparr>))"
  define enc where "enc = store zeroed 0 (BlockHeader_bytes pad (h\<lparr>bh_checksum := crc zeroed\<rparr>))"
  have l: "length (BlockHeader_bytes pad (h\<lparr>bh_checksum := c\<rparr>)) = 120" for c
    using f assms(3) by (simp add: length_BlockHeader_bytes)
  have len: "length zeroed = 4096" by (simp add: zeroed_def l kBlockHeaderSlotBytes_def kDirectIoAlignment_def)
  have e: "EncodeBlockHeader crc pad h = enc"
    by (simp add: EncodeBlockHeader_def Let_def zeroed_def enc_def)
  have r: "BlockHeader_read enc = h\<lparr>bh_checksum := crc zeroed\<rparr>" "load enc 84 4 = pad"
    unfolding enc_def using BlockHeader_read_bytes [of "h\<lparr>bh_checksum := crc zeroed\<rparr>" pad zeroed] f assms(3) len by simp_all
  have "store enc 0 (BlockHeader_bytes pad (h\<lparr>bh_checksum := 0\<rparr>)) = zeroed"
    by (simp add: enc_def zeroed_def store_store_same l kBlockHeaderSlotBytes_def kDirectIoAlignment_def)
  then show ?thesis using assms(1,2) by (simp add: e DecodeBlockHeader_def r)
qed

section \<open>Replication frames\<close>

lemma length_ReplicationFrameHeader_bytes [simp]: "length (ReplicationFrameHeader_bytes h) = 56"
  by (simp add: ReplicationFrameHeader_bytes_def)

lemma ReplicationFrameHeader_read_bytes:
  "ReplicationFrameHeader_read (ReplicationFrameHeader_bytes h @ rest) = h"
  by (simp add: ReplicationFrameHeader_read_def ReplicationFrameHeader_bytes_def layout_simps)

lemma frame_decoded:
  assumes "EncodeReplicationFrameHeader crc h = Some bs"
  shows "\<exists>c. DecodeReplicationFrameHeader crc (bs @ rest) = Some (h\<lparr>rf_header_checksum := c\<rparr>)"
proof -
  let ?c = "crc (ReplicationFrameHeader_bytes (h\<lparr>rf_header_checksum := 0\<rparr>))"
  have ok: "frame_ok h" and bs: "bs = ReplicationFrameHeader_bytes (h\<lparr>rf_header_checksum := ?c\<rparr>)"
    using assms by (auto simp: EncodeReplicationFrameHeader_def Let_def split: if_splits)
  have "frame_ok (h\<lparr>rf_header_checksum := ?c\<rparr>)" using ok by (simp add: frame_ok_def)
  then have "DecodeReplicationFrameHeader crc (bs @ rest) = Some (h\<lparr>rf_header_checksum := ?c\<rparr>)"
    by (simp add: DecodeReplicationFrameHeader_def bs ReplicationFrameHeader_read_bytes EncodeReplicationFrameHeader_def Let_def)
  then show ?thesis ..
qed

end
