(* ===== verification/Record_Roundtrip.thy ===== *)
theory Record_Roundtrip
  imports Format_Roundtrip
begin

text \<open>
  The record header codec: the encoder's stores at fixed and computed offsets give a plain
  concatenation of fields, from which the decoder reads them back.
\<close>

unbundle bit_operations_syntax

section \<open>Filling a buffer from the left\<close>

definition filled :: "bytes \<Rightarrow> bytes \<Rightarrow> bytes" where
  "filled xs out = xs @ drop (length xs) out"

lemma store_filled: "off = length xs \<Longrightarrow> store (filled xs out) off v = filled (xs @ v) out"
  by (simp add: store_def filled_def add.commute)

lemma store_start: "store out 0 v = filled v out"
  by (simp add: store_def filled_def)

lemma filled_gap: "length xs + n \<le> length out \<Longrightarrow> filled xs out = filled (xs @ load out (length xs) n) out"
  by (simp add: filled_def load_def min_absorb2) (metis add.commute append_take_drop_id drop_drop)

lemma length_filled [simp]: "length xs \<le> length out \<Longrightarrow> length (filled xs out) = length out"
  by (simp add: filled_def)

lemma take_filled: "take (length xs) (filled xs out) = xs"
  by (simp add: filled_def)

lemma store_middle: "off = length xs \<Longrightarrow> length w = length v \<Longrightarrow> store (xs @ w @ ys) off v = xs @ v @ ys"
  by (simp add: store_def)

section \<open>The packed metadata\<close>

lemma bit_small:
  fixes w :: "'a::len word"
  assumes "unat w < 2 ^ k" "bit w n"
  shows "n < k"
proof -
  have "take_bit k w = w"
    using assms(1) by (simp add: word_eq_iff_unsigned [where 'a = nat] unsigned_take_bit_eq take_bit_nat_eq_self)
  then show ?thesis using assms(2) by (metis bit_take_bit_iff)
qed

lemma and_push_bit_iff: "(w :: 'a::len word) AND push_bit n 1 \<noteq> 0 \<longleftrightarrow> bit w n"
  using and_exp_eq_0_iff_not_bit [of w n] by (simp add: push_bit_eq_mult)

lemma RecordMetadataBit_iff: "RecordMetadataBit m n \<longleftrightarrow> bit m n"
  by (simp only: RecordMetadataBit_def and_push_bit_iff)

lemma bit_push_of_bool: "k < 16 \<Longrightarrow> bit (push_bit k (of_bool b) :: u16) n \<longleftrightarrow> n = k \<and> b"
  by (auto simp: bit_push_bit_iff bit_of_bool_iff)

lemma bit_push_ucast: "bit (push_bit k (ucast (w :: u8)) :: u16) n \<longleftrightarrow> n < 16 \<and> k \<le> n \<and> bit w (n - k)"
  by (auto simp: bit_push_bit_iff bit_ucast_iff)

lemma bit_ucast_u8: "bit (ucast (w :: u8) :: u16) n \<longleftrightarrow> n < 16 \<and> bit w n"
  by (auto simp: bit_ucast_iff dest: bit_imp_le_length)

lemma RecordMetadata_bit:
  "bit (RecordMetadata h) n \<longleftrightarrow> n < 16 \<and>
     (bit (rh_kind h) n \<or> 2 \<le> n \<and> bit (rh_db_id h) (n - 2) \<or> 6 \<le> n \<and> bit (rh_value_type h) (n - 6) \<or>
      n = 9 \<and> rh_external h \<or> n = 10 \<and> rh_key_external h \<or> n = 11 \<and> rh_txid h \<noteq> 0 \<or>
      n = 12 \<and> rh_expire_at_ms h \<noteq> 0 \<or> n = 13 \<and> rh_grouped h \<or> n = 14 \<and> rh_auxiliary_group h)"
  unfolding RecordMetadata_def bit_or_iff bit_push_ucast bit_ucast_u8
  by (cases "n < 16") (simp_all add: bit_push_of_bool)

definition packable :: "RecordHeader \<Rightarrow> bool" where
  "packable h \<longleftrightarrow> unat (rh_kind h) < 4 \<and> unat (rh_db_id h) < 16 \<and> unat (rh_value_type h) < 8"

lemma packable_bits:
  assumes "packable h"
  shows "bit (rh_kind h) n \<Longrightarrow> n < 2" "bit (rh_db_id h) n \<Longrightarrow> n < 4" "bit (rh_value_type h) n \<Longrightarrow> n < 3"
  using assms bit_small [of "rh_kind h" 2 n] bit_small [of "rh_db_id h" 4 n] bit_small [of "rh_value_type h" 3 n]
  by (simp_all add: packable_def)

lemma RecordMetadata_flags:
  assumes "packable h"
  shows "bit (RecordMetadata h) 9 = rh_external h" "bit (RecordMetadata h) 10 = rh_key_external h"
    "bit (RecordMetadata h) 11 = (rh_txid h \<noteq> 0)" "bit (RecordMetadata h) 12 = (rh_expire_at_ms h \<noteq> 0)"
    "bit (RecordMetadata h) 13 = rh_grouped h" "bit (RecordMetadata h) 14 = rh_auxiliary_group h"
    "\<not> bit (RecordMetadata h) 15"
  unfolding RecordMetadata_bit by (auto dest: packable_bits [OF assms])

lemma mask_words: "(0x3 :: 'a::len word) = mask 2" "(0xf :: 'a::len word) = mask 4" "(0x7 :: 'a::len word) = mask 3"
  "(0xff :: 'a::len word) = mask 8" "(0x1ff :: 'a::len word) = mask 9"
  by (simp_all add: mask_eq_exp_minus_1)

lemma RecordMetadata_fields:
  assumes "packable h"
  shows "ucast (RecordMetadata h AND 0x3) = rh_kind h" "ucast (drop_bit 2 (RecordMetadata h) AND 0xf) = rh_db_id h"
    "ucast (drop_bit 6 (RecordMetadata h) AND 0x7) = rh_value_type h"
  unfolding mask_words
  by (rule bit_word_eqI, (auto simp: bit_ucast_iff bit_and_iff bit_mask_iff bit_drop_bit_eq RecordMetadata_bit
      dest: packable_bits [OF assms])[1])+

lemma RecordMetadata_reserved: "packable h \<Longrightarrow> RecordMetadata h AND 0x8000 = 0"
  using and_push_bit_iff [of "RecordMetadata h" 15] RecordMetadata_flags(7) [of h] by simp

lemma group_bits_bit: "bit (group_bits h) n \<longleftrightarrow> bit (rh_group_prefix_bits h) n \<or> n = 8 \<and> rh_group_retired h"
  by (auto simp: group_bits_def bit_or_iff bit_push_bit_iff bit_ucast_iff bit_of_bool_iff bit_0 dest: bit_imp_le_length)

lemma group_bits_fields:
  "group_bits h AND NOT 0x1ff = 0" "group_bits h AND 0xff = ucast (rh_group_prefix_bits h)"
  "group_bits h AND 0x100 \<noteq> 0 \<longleftrightarrow> rh_group_retired h"
proof -
  have b: "bit (rh_group_prefix_bits h) n \<Longrightarrow> n < 8" for n by (auto dest: bit_imp_le_length)
  show "group_bits h AND NOT 0x1ff = 0"
    unfolding mask_words by (rule bit_word_eqI) (auto simp: bit_and_iff bit_not_iff bit_mask_iff group_bits_bit dest: b)
  show "group_bits h AND 0xff = ucast (rh_group_prefix_bits h)"
    unfolding mask_words
    by (rule bit_word_eqI) (auto simp: bit_and_iff bit_mask_iff group_bits_bit bit_ucast_iff dest: b)
  have "(0x100 :: u64) = push_bit 8 1" by simp
  then show "group_bits h AND 0x100 \<noteq> 0 \<longleftrightarrow> rh_group_retired h"
    using b [of 8] by (simp only: and_push_bit_iff group_bits_bit) auto
qed

section \<open>What the encoder writes\<close>

definition base_bytes :: "RecordHeader \<Rightarrow> bytes" where
  "base_bytes h =
     le_bytes 8 kRecordMagic @ le_bytes 4 (rh_key_bytes h) @ le_bytes 4 (rh_logical_size h) @
     le_bytes 4 (rh_payload_bytes h) @ le_bytes 2 (RecordMetadata h) @ le_bytes 2 (0 :: u16) @
     le_bytes 8 (rh_replication_epoch h) @ le_bytes 8 (rh_db_epoch h) @ le_bytes 8 (rh_mutation_sequence h) @
     le_bytes 8 (rh_lsn h) @ le_bytes 8 (rh_allocation_epoch h) @ le_bytes 4 (rh_payload_checksum h)"

definition opt_bytes :: "RecordHeader \<Rightarrow> bytes" where
  "opt_bytes h =
     (if rh_txid h \<noteq> 0 then le_bytes 8 (rh_txid h) else []) @
     (if rh_expire_at_ms h \<noteq> 0 then le_bytes 8 (rh_expire_at_ms h) else []) @
     (if rh_auxiliary_group h
      then le_bytes 8 (rh_group_incarnation h) @ le_bytes 8 (rh_group_prefix h) @ le_bytes 8 (group_bits h) @
           le_bytes 8 (rh_group_batch_txid h)
      else [])"

definition key_part :: "RecordHeader \<Rightarrow> bytes \<Rightarrow> bytes" where
  "key_part h key = (if rh_key_external h then [] else key)"

definition record_bytes :: "RecordHeader \<Rightarrow> u32 \<Rightarrow> bytes \<Rightarrow> nat \<Rightarrow> bytes" where
  "record_bytes h c key n =
     base_bytes h @ le_bytes 4 c @ opt_bytes h @ key_part h key @ replicate (n - (fixed_bytes_of h + length (key_part h key))) 0"

lemma length_base_bytes [simp]: "length (base_bytes h) = 68"
  by (simp add: base_bytes_def)

lemma length_opt_bytes [simp]: "length (opt_bytes h) = fixed_bytes_of h - 72"
  by (simp add: opt_bytes_def fixed_bytes_of_def RecordFixedHeaderBytes_def kRecordHeaderBaseBytes_def
      kRecordHeaderOptionalBytes_def kRecordAuxiliaryGroupIdentityBytes_def)

lemma fixed_bytes_ge: "72 \<le> fixed_bytes_of h"
  by (simp add: fixed_bytes_of_def RecordFixedHeaderBytes_def kRecordHeaderBaseBytes_def)

lemma store_base_filled: "store_base h out = filled (base_bytes h) out"
  by (simp add: store_base_def Let_def store_start store_filled base_bytes_def)

lemma store_options_filled:
  assumes "length xs = 72"
  shows "store_group h (store_expiry h (store_txid h (filled xs out, kRecordHeaderBaseBytes))) =
    (filled (xs @ opt_bytes h) out, fixed_bytes_of h)"
  using assms
  by (simp add: store_group_def store_expiry_def store_txid_def Let_def store_filled opt_bytes_def fixed_bytes_of_def
      RecordFixedHeaderBytes_def kRecordHeaderBaseBytes_def kRecordHeaderOptionalBytes_def
      kRecordAuxiliaryGroupIdentityBytes_def)

lemma header_bytes_ge:
  assumes "ValidRecordKeySize (length key)"
  shows "fixed_bytes_of h + length (key_part h key) \<le> header_bytes_of h (length key)"
proof -
  let ?n = "fixed_bytes_of h + length (key_part h key)"
  have "fixed_bytes_of h \<le> 120"
    by (simp add: fixed_bytes_of_def RecordFixedHeaderBytes_def kRecordHeaderBaseBytes_def
        kRecordHeaderOptionalBytes_def kRecordAuxiliaryGroupIdentityBytes_def)
  moreover have "length (key_part h key) \<le> 536870912"
    using assms by (simp add: key_part_def ValidRecordKeySize_def kMaxStringBytes_def)
  ultimately have "?n \<le> unat (AlignRecord (word_of_nat ?n))" using AlignRecord_ge [of ?n] by simp
  moreover have "header_bytes_of h (length key) = unat (AlignRecord (word_of_nat ?n))"
    by (simp add: header_bytes_of_def RecordHeaderBytes_def fixed_bytes_of_def key_part_def)
  ultimately show ?thesis by simp
qed

lemma EncodeRecordHeader_bytes:
  assumes "encodable h key (length out)"
  shows "EncodeRecordHeader crc h key out =
    Some (record_bytes h (crc (record_bytes h 0 key (length out))) key (length out))"
proof -
  let ?gap = "load out 68 4" and ?f = "fixed_bytes_of h" and ?k = "key_part h key"
  let ?xs = "base_bytes h @ ?gap @ opt_bytes h @ ?k"
  have L: "?f + length ?k \<le> length out"
    using assms header_bytes_ge [of key h] unfolding encodable_def by metis
  have gap: "length ?gap = 4" using L fixed_bytes_ge [of h] by simp
  have len: "length ?xs = ?f + length ?k" using gap fixed_bytes_ge [of h] by simp
  have "store_base h out = filled (base_bytes h @ ?gap) out"
    using filled_gap [of "base_bytes h" 4 out] L fixed_bytes_ge [of h] by (simp add: store_base_filled)
  then have o: "store_group h (store_expiry h (store_txid h (store_base h out, kRecordHeaderBaseBytes))) =
      (filled (base_bytes h @ ?gap @ opt_bytes h) out, ?f)"
    using store_options_filled [of "base_bytes h @ ?gap" h out] gap by simp
  have k: "(if rh_key_external h then (filled (base_bytes h @ ?gap @ opt_bytes h) out, ?f)
      else (store (filled (base_bytes h @ ?gap @ opt_bytes h) out) ?f key, ?f + length key)) =
      (filled ?xs out, ?f + length ?k)"
    using gap fixed_bytes_ge [of h] by (simp add: key_part_def store_filled)
  have t: "take (?f + length ?k) (filled ?xs out) = ?xs" unfolding len [symmetric] by (rule take_filled)
  have lf: "length (filled ?xs out) = length out" using len L by (intro length_filled) simp
  have s: "store (?xs @ replicate n 0) 68 (le_bytes 4 c) = base_bytes h @ le_bytes 4 c @ opt_bytes h @ ?k @ replicate n 0"
    for n and c :: u32
    using store_middle [of 68 "base_bytes h" ?gap "le_bytes 4 c" "opt_bytes h @ ?k @ replicate n 0"] gap by simp
  have s2: "store (base_bytes h @ le_bytes 4 (0 :: u32) @ ys) 68 (le_bytes 4 c) = base_bytes h @ le_bytes 4 c @ ys"
    for ys and c :: u32
    by (rule store_middle) simp_all
  show ?thesis
    using assms by (simp only: EncodeRecordHeader_def o k t lf s s2 Let_def record_bytes_def split if_False not_True_eq_False)
qed

section \<open>What the decoder reads\<close>

lemma base_loads:
  "load (base_bytes h @ ys) 0 8 = le_bytes 8 kRecordMagic" "load (base_bytes h @ ys) 8 4 = le_bytes 4 (rh_key_bytes h)"
  "load (base_bytes h @ ys) 12 4 = le_bytes 4 (rh_logical_size h)"
  "load (base_bytes h @ ys) 16 4 = le_bytes 4 (rh_payload_bytes h)"
  "load (base_bytes h @ ys) 20 2 = le_bytes 2 (RecordMetadata h)"
  "load (base_bytes h @ ys) 24 8 = le_bytes 8 (rh_replication_epoch h)"
  "load (base_bytes h @ ys) 32 8 = le_bytes 8 (rh_db_epoch h)"
  "load (base_bytes h @ ys) 40 8 = le_bytes 8 (rh_mutation_sequence h)"
  "load (base_bytes h @ ys) 48 8 = le_bytes 8 (rh_lsn h)"
  "load (base_bytes h @ ys) 56 8 = le_bytes 8 (rh_allocation_epoch h)"
  "load (base_bytes h @ ys) 64 4 = le_bytes 4 (rh_payload_checksum h)"
  by (simp_all add: base_bytes_def layout_simps)

lemma tail_loads:
  "68 \<le> off \<Longrightarrow> load (base_bytes h @ ys) off n = load ys (off - 68) n"
  by (simp add: layout_simps)

lemma encodable_packable: "encodable h key n \<Longrightarrow> packable h"
  by (auto simp: encodable_def packable_def record_kind_ok_def kValue_def kTombstone_def kTxCommit_def kTypeStream_def
      word_le_nat_alt)

lemma load_base_record:
  assumes "packable h"
  shows "load_base (base_bytes h @ le_bytes 4 c @ ys) (RecordMetadata h) (unat (rh_header_bytes h)) (unat (rh_total_disk_bytes h)) =
    h\<lparr>rh_group_retired := False, rh_group_incarnation := 0, rh_group_prefix := 0, rh_group_prefix_bits := 0,
      rh_group_batch_txid := 0, rh_txid := 0, rh_expire_at_ms := 0, rh_header_checksum := c\<rparr>"
  using assms
  by (simp add: load_base_def base_loads tail_loads layout_simps RecordMetadata_fields RecordMetadataBit_iff
      RecordMetadata_flags)

lemma load_group_record:
  assumes "rh_auxiliary_group h" "rh_group_prefix_bits h \<le> 64"
    and "load b off 8 = le_bytes 8 (rh_group_incarnation h)" "load b (off + 8) 8 = le_bytes 8 (rh_group_prefix h)"
    and "load b (off + 16) 8 = le_bytes 8 (group_bits h)" "load b (off + 24) 8 = le_bytes 8 (rh_group_batch_txid h)"
  shows "load_group b off d = Some (d\<lparr>rh_group_incarnation := rh_group_incarnation h, rh_group_prefix := rh_group_prefix h,
     rh_group_prefix_bits := rh_group_prefix_bits h, rh_group_retired := rh_group_retired h,
     rh_group_batch_txid := rh_group_batch_txid h\<rparr>)"
proof -
  have "\<not> (64 :: u64) < ucast (rh_group_prefix_bits h)"
    using assms(2) by (simp add: not_less word_le_nat_alt unsigned_ucast_eq take_bit_nat_eq_self)
  moreover have "ucast (ucast (rh_group_prefix_bits h) :: u64) = rh_group_prefix_bits h"
    by (rule bit_word_eqI) (simp add: bit_ucast_iff)
  ultimately show ?thesis
    using assms(3-6) by (simp add: load_group_def Let_def group_bits_fields group_bits_fields(1) [simplified])
qed

text \<open>A string value longer than a bitmap may be; the decoder tests this and the encoder does not.\<close>

definition overlong_string :: "RecordHeader \<Rightarrow> bool" where
  "overlong_string h \<longleftrightarrow> rh_kind h = kValue \<and> rh_value_type h = kTypeString \<and> kMaxBitmapBytes < unat (rh_logical_size h)"

lemma encodable_decodable:
  assumes "encodable h key n"
  shows "decodable (h\<lparr>rh_header_checksum := c\<rparr>) (rh_txid h \<noteq> 0) (rh_expire_at_ms h \<noteq> 0) \<longleftrightarrow> \<not> overlong_string h"
proof -
  have "ValidGroupedRecordHeader (h\<lparr>rh_header_checksum := c\<rparr>) = ValidGroupedRecordHeader h"
    "record_kind_ok (h\<lparr>rh_header_checksum := c\<rparr>) = record_kind_ok h"
    "tombstone_ok (h\<lparr>rh_header_checksum := c\<rparr>) = tombstone_ok h"
    by (simp_all add: ValidGroupedRecordHeader_def record_kind_ok_def tombstone_ok_def)
  then show ?thesis
    using assms by (auto simp: encodable_def decodable_def record_kind_ok_def overlong_string_def unat_eq_0)
qed

lemma opt_loads:
  assumes "b = base_bytes h @ le_bytes 4 c @ opt_bytes h @ ys"
  shows "rh_txid h \<noteq> 0 \<Longrightarrow> load b 72 8 = le_bytes 8 (rh_txid h)"
    and "rh_expire_at_ms h \<noteq> 0 \<Longrightarrow> load b (if rh_txid h \<noteq> 0 then 80 else 72) 8 = le_bytes 8 (rh_expire_at_ms h)"
    and "rh_auxiliary_group h \<Longrightarrow> off = fixed_bytes_of h - 32 \<Longrightarrow>
      load b off 8 = le_bytes 8 (rh_group_incarnation h) \<and> load b (off + 8) 8 = le_bytes 8 (rh_group_prefix h) \<and>
      load b (off + 16) 8 = le_bytes 8 (group_bits h) \<and> load b (off + 24) 8 = le_bytes 8 (rh_group_batch_txid h)"
  unfolding assms
  by (auto simp: tail_loads layout_simps opt_bytes_def fixed_bytes_of_def RecordFixedHeaderBytes_def
      kRecordHeaderBaseBytes_def kRecordHeaderOptionalBytes_def kRecordAuxiliaryGroupIdentityBytes_def)

lemma length_record_bytes:
  "fixed_bytes_of h + length (key_part h key) \<le> n \<Longrightarrow> length (record_bytes h c key n) = n"
  using fixed_bytes_ge [of h] by (simp add: record_bytes_def)

lemma record_key_load:
  "\<not> rh_key_external h \<Longrightarrow> load (record_bytes h c key n @ rest) (fixed_bytes_of h) (length key) = key"
  using fixed_bytes_ge [of h] by (simp add: record_bytes_def tail_loads layout_simps key_part_def)

lemma record_checksum:
  "RecordHeaderChecksum crc (record_bytes h c key n) = crc (record_bytes h 0 key n)"
  unfolding RecordHeaderChecksum_def record_bytes_def by (subst store_middle) simp_all

text \<open>Setting the optional fields of the decoded base gives the header back.\<close>

lemma options_restored:
  assumes "\<not> rh_auxiliary_group h \<Longrightarrow> rh_group_incarnation h = 0 \<and> rh_group_prefix h = 0 \<and> rh_group_prefix_bits h = 0 \<and>
      \<not> rh_group_retired h \<and> rh_group_batch_txid h = 0"
    and "rh_auxiliary_group h \<Longrightarrow> rh_group_prefix_bits h \<le> 64"
    and b: "b = base_bytes h @ le_bytes 4 c @ opt_bytes h @ ys"
  defines "d0 \<equiv> h\<lparr>rh_group_retired := False, rh_group_incarnation := 0, rh_group_prefix := 0, rh_group_prefix_bits := 0,
      rh_group_batch_txid := 0, rh_txid := 0, rh_expire_at_ms := 0, rh_header_checksum := c\<rparr>"
  shows "load_optional b (rh_txid h \<noteq> 0) (rh_expire_at_ms h \<noteq> 0) (rh_auxiliary_group h) d0 = Some (h\<lparr>rh_header_checksum := c\<rparr>)"
proof -
  define p2 where "p2 = load_expiry b (rh_expire_at_ms h \<noteq> 0) (load_txid b (rh_txid h \<noteq> 0) (d0, kRecordHeaderBaseBytes))"
  have p1: "load_txid b (rh_txid h \<noteq> 0) (d0, kRecordHeaderBaseBytes) =
      (d0\<lparr>rh_txid := rh_txid h\<rparr>, if rh_txid h \<noteq> 0 then 80 else 72)"
    using opt_loads(1) [OF b] by (simp add: load_txid_def d0_def kRecordHeaderBaseBytes_def kRecordHeaderOptionalBytes_def)
  have p2: "p2 = (d0\<lparr>rh_txid := rh_txid h, rh_expire_at_ms := rh_expire_at_ms h\<rparr>,
      (if rh_txid h \<noteq> 0 then 80 else 72) + (if rh_expire_at_ms h \<noteq> 0 then 8 else 0))"
    using opt_loads(2) [OF b] unfolding p2_def p1 by (simp add: load_expiry_def d0_def kRecordHeaderOptionalBytes_def)
  have l: "load_optional b (rh_txid h \<noteq> 0) (rh_expire_at_ms h \<noteq> 0) (rh_auxiliary_group h) d0 =
      (if rh_auxiliary_group h then load_group b (snd p2) (fst p2) else Some (fst p2))"
    by (simp add: load_optional_def p2_def Let_def)
  show ?thesis
  proof (cases "rh_auxiliary_group h")
    case True
    have "snd p2 = fixed_bytes_of h - 32"
      using True by (simp add: p2 fixed_bytes_of_def RecordFixedHeaderBytes_def kRecordHeaderBaseBytes_def
          kRecordHeaderOptionalBytes_def kRecordAuxiliaryGroupIdentityBytes_def)
    then have "load_group b (snd p2) (fst p2) = Some ((fst p2)\<lparr>rh_group_incarnation := rh_group_incarnation h,
        rh_group_prefix := rh_group_prefix h, rh_group_prefix_bits := rh_group_prefix_bits h,
        rh_group_retired := rh_group_retired h, rh_group_batch_txid := rh_group_batch_txid h\<rparr>)"
      using load_group_record [OF True assms(2) [OF True], of b "snd p2"] opt_loads(3) [OF b True, of "snd p2"] by simp
    then show ?thesis unfolding l using True by (simp add: p2 d0_def)
  next
    case False
    then show ?thesis unfolding l using assms(1) [OF False] by (simp add: p2 d0_def)
  qed
qed

lemma grouped_fields:
  assumes "ValidGroupedRecordHeader h"
  shows "\<not> rh_auxiliary_group h \<Longrightarrow> rh_group_incarnation h = 0 \<and> rh_group_prefix h = 0 \<and> rh_group_prefix_bits h = 0 \<and>
      \<not> rh_group_retired h \<and> rh_group_batch_txid h = 0"
    and "rh_auxiliary_group h \<Longrightarrow> rh_group_prefix_bits h \<le> 64"
  using assms by (auto simp: ValidGroupedRecordHeader_def Let_def not_less split: if_splits)

lemma record_decoded:
  assumes e: "encodable h key n"
    and c: "c = crc (record_bytes h 0 key n)"
  shows "DecodeRecordHeader crc (record_bytes h c key n @ rest) =
    (if overlong_string h then None else Some (h\<lparr>rh_header_checksum := c\<rparr>, key_part h key))"
proof -
  let ?b = "record_bytes h c key n @ rest"
  have f: "ValidGroupedRecordHeader h" "ValidRecordKeySize (length key)" "length key = unat (rh_key_bytes h)"
      "unat (rh_header_bytes h) = header_bytes_of h (length key)" "unat (rh_total_disk_bytes h) = total_bytes_of h (length key)"
      "total_bytes_of h (length key) \<le> kStorageBlockBytes - kBlockHeaderBytes"
      "header_bytes_of h (length key) \<le> kMaxRecordHeaderBytes" "n = header_bytes_of h (length key)"
    using e unfolding encodable_def by blast+
  have p: "packable h" by (rule encodable_packable [OF e])
  have L: "length (record_bytes h c key n) = n"
    using header_bytes_ge [OF f(2), of h] f(8) by (simp add: length_record_bytes)
  have big: "72 \<le> n" using header_bytes_ge [OF f(2), of h] f(8) fixed_bytes_ge [of h] by simp
  obtain ys where b: "?b = base_bytes h @ le_bytes 4 c @ opt_bytes h @ ys" by (simp add: record_bytes_def)
  have loads: "of_le (load ?b 0 8) = kRecordMagic" "(of_le (load ?b 20 2) :: u16) = RecordMetadata h"
      "unat (of_le (load ?b 8 4) :: u32) = length key" "unat (of_le (load ?b 16 4) :: u32) = unat (rh_payload_bytes h)"
    unfolding b by (simp_all add: base_loads f(3))
  have base: "load_base ?b (RecordMetadata h) (header_bytes_of h (length key)) (total_bytes_of h (length key)) =
      h\<lparr>rh_group_retired := False, rh_group_incarnation := 0, rh_group_prefix := 0, rh_group_prefix_bits := 0,
        rh_group_batch_txid := 0, rh_txid := 0, rh_expire_at_ms := 0, rh_header_checksum := c\<rparr>"
    using load_base_record [OF p, of c "opt_bytes h @ ys"] unfolding b f(4,5) by simp
  have hb: "RecordHeaderBytes (length key) (rh_key_external h) (rh_txid h \<noteq> 0) (rh_expire_at_ms h \<noteq> 0) (rh_auxiliary_group h) = n"
    using f(8) by (simp add: header_bytes_of_def)
  have tb: "unat (AlignRecord (word_of_nat (n + unat (rh_payload_bytes h)))) = total_bytes_of h (length key)"
    using f(8) by (simp add: total_bytes_of_def)
  have chk: "RecordHeaderChecksum crc (take n ?b) = c" using L by (simp add: record_checksum c)
  have opts: "load_optional ?b (rh_txid h \<noteq> 0) (rh_expire_at_ms h \<noteq> 0) (rh_auxiliary_group h)
      (h\<lparr>rh_group_retired := False, rh_group_incarnation := 0, rh_group_prefix := 0, rh_group_prefix_bits := 0,
        rh_group_batch_txid := 0, rh_txid := 0, rh_expire_at_ms := 0, rh_header_checksum := c\<rparr>) =
      Some (h\<lparr>rh_header_checksum := c\<rparr>)"
    by (rule options_restored [OF _ _ b]) (use grouped_fields [OF f(1)] in simp_all)
  have flags: "RecordMetadataBit (RecordMetadata h) 11 = (rh_txid h \<noteq> 0)" "RecordMetadataBit (RecordMetadata h) 12 = (rh_expire_at_ms h \<noteq> 0)"
      "RecordMetadataBit (RecordMetadata h) 14 = rh_auxiliary_group h" "RecordMetadataBit (RecordMetadata h) 10 = rh_key_external h"
    by (simp_all only: RecordMetadataBit_iff RecordMetadata_flags [OF p])
  have key: "(if rh_key_external h then [] else load ?b (fixed_bytes_of h) (length key)) = key_part h key"
    by (simp add: record_key_load key_part_def)
  have size: "\<not> length ?b < kRecordHeaderBaseBytes" "\<not> length ?b < n"
    using L big by (simp_all add: kRecordHeaderBaseBytes_def)
  have fixed: "RecordFixedHeaderBytes (rh_txid h \<noteq> 0) (rh_expire_at_ms h \<noteq> 0) (rh_auxiliary_group h) = fixed_bytes_of h"
    by (simp add: fixed_bytes_of_def)
  have lim: "ValidRecordKeySize (length key)" "\<not> kMaxRecordHeaderBytes < n"
      "\<not> kStorageBlockBytes - kBlockHeaderBytes < total_bytes_of h (length key)"
    using f(2,6,7,8) by simp_all
  have res: "\<not> RecordMetadata h AND 0x8000 \<noteq> 0" using RecordMetadata_reserved [OF p] by simp
  have dec: "(\<not> decodable (h\<lparr>rh_header_checksum := c\<rparr>) (rh_txid h \<noteq> 0) (rh_expire_at_ms h \<noteq> 0)) = overlong_string h"
    using encodable_decodable [OF e] by simp
  have chk': "\<not> RecordHeaderChecksum crc (take n ?b) \<noteq> rh_header_checksum (h\<lparr>rh_header_checksum := c\<rparr>)"
    using chk by simp
  have ext: "rh_key_external (h\<lparr>rh_header_checksum := c\<rparr>) = rh_key_external h" by simp
  show ?thesis
    unfolding DecodeRecordHeader_def Let_def loads flags fixed hb tb base [folded f(8)] opts option.case
    by (simp only: size lim res dec chk' ext key not_True_eq_False simp_thms if_False)
qed

section \<open>The codecs\<close>

lemma record_roundtrip_aux:
  assumes "EncodeRecordHeader crc h key out = Some bs"
  shows "\<exists>c. DecodeRecordHeader crc (bs @ rest) =
    (if overlong_string h then None else Some (h\<lparr>rh_header_checksum := c\<rparr>, key_part h key)) \<and> length bs = length out"
proof -
  have e: "encodable h key (length out)" using assms(1) by (simp add: EncodeRecordHeader_def split: if_splits)
  let ?c = "crc (record_bytes h 0 key (length out))"
  have bs: "bs = record_bytes h ?c key (length out)"
    using assms(1) EncodeRecordHeader_bytes [OF e, of crc] by simp
  have "fixed_bytes_of h + length (key_part h key) \<le> length out"
    using e header_bytes_ge [of key h] unfolding encodable_def by metis
  then have "length bs = length out" by (simp add: bs length_record_bytes)
  moreover have "DecodeRecordHeader crc (bs @ rest) =
      (if overlong_string h then None else Some (h\<lparr>rh_header_checksum := ?c\<rparr>, key_part h key))"
    unfolding bs by (rule record_decoded [OF e refl])
  ultimately show ?thesis by blast
qed

text \<open>
  The codec contract on the model's encoders. The decoders of labels and block headers clear the
  checksum field of their result, those of records and frames keep it, so the contract compares
  values with a zero checksum.
\<close>

interpretation device_label: codec "\<lambda>l. Some (EncodeDeviceLabel crc (replicate 4 0) l)" "DecodeDeviceLabel crc"
    "\<lambda>l. DeviceLabel_valid l \<and> dl_checksum l = 0"
  for crc :: "bytes \<Rightarrow> u32"
  by unfold_locales (auto simp: device_label_decoded)

interpretation block_header: codec "\<lambda>h. Some (EncodeBlockHeader crc (replicate 4 0) h)" "DecodeBlockHeader crc"
    "\<lambda>h. block_frame_ok h \<and> block_kind_ok h \<and> bh_checksum h = 0"
  for crc :: "bytes \<Rightarrow> u32"
  by unfold_locales (auto simp: block_header_decoded)

interpretation replication_frame: codec "EncodeReplicationFrameHeader crc"
    "\<lambda>bs. map_option (\<lambda>h. h\<lparr>rf_header_checksum := 0\<rparr>) (DecodeReplicationFrameHeader crc bs)"
    "\<lambda>h. frame_ok h \<and> rf_header_checksum h = 0"
  for crc :: "bytes \<Rightarrow> u32"
proof
  fix h :: ReplicationFrameHeader
  assume v: "frame_ok h \<and> rf_header_checksum h = 0"
  show "EncodeReplicationFrameHeader crc h \<noteq> None"
    using v by (simp add: EncodeReplicationFrameHeader_def Let_def)
  fix bs
  assume "EncodeReplicationFrameHeader crc h = Some bs"
  from frame_decoded [OF this, of "[]"] v
  show "map_option (\<lambda>h. h\<lparr>rf_header_checksum := 0\<rparr>) (DecodeReplicationFrameHeader crc bs) = Some h"
    by auto
qed

definition encode_record :: "(bytes \<Rightarrow> u32) \<Rightarrow> RecordHeader \<times> bytes \<Rightarrow> bytes option" where
  "encode_record crc r = EncodeRecordHeader crc (fst r) (snd r) (replicate (unat (rh_header_bytes (fst r))) 0)"

interpretation record_header: codec "encode_record crc"
    "\<lambda>bs. map_option (\<lambda>(h, k). (h\<lparr>rh_header_checksum := 0\<rparr>, k)) (DecodeRecordHeader crc bs)"
    "\<lambda>(h, key). encodable h key (unat (rh_header_bytes h)) \<and> \<not> rh_key_external h \<and> rh_header_checksum h = 0 \<and>
       \<not> overlong_string h"
  for crc :: "bytes \<Rightarrow> u32"
proof
  fix r :: "RecordHeader \<times> bytes"
  assume "case r of (h, key) \<Rightarrow> encodable h key (unat (rh_header_bytes h)) \<and> \<not> rh_key_external h \<and> rh_header_checksum h = 0 \<and>
       \<not> overlong_string h"
  then obtain h key where r: "r = (h, key)" and v: "encodable h key (unat (rh_header_bytes h))" "\<not> rh_key_external h"
      "rh_header_checksum h = 0"
      "\<not> overlong_string h"
    by (cases r) auto
  show "encode_record crc r \<noteq> None"
    using v(1) EncodeRecordHeader_bytes [of h key "replicate (unat (rh_header_bytes h)) 0" crc] by (simp add: encode_record_def r)
  fix bs
  assume "encode_record crc r = Some bs"
  then have "EncodeRecordHeader crc h key (replicate (unat (rh_header_bytes h)) 0) = Some bs" by (simp add: encode_record_def r)
  from record_roundtrip_aux [OF this, of "[]"] v(2-4)
  show "map_option (\<lambda>(h, k). (h\<lparr>rh_header_checksum := 0\<rparr>, k)) (DecodeRecordHeader crc bs) = Some r"
    by (auto simp: r key_part_def)
qed

text \<open>
  (C13) Record headers survive the round trip. Whatever header and key \<open>EncodeRecordHeader\<close>
  accepts, \<open>DecodeRecordHeader\<close> gives every field but the checksum back from a buffer that starts
  with the encoded bytes, together with the key when it is kept in the header and with no key when
  it is kept outside, for every checksum function: with or without a transaction id, an expiry
  and a group identity, over all packings of the flag word. The one exception is a string value
  longer than the bitmap limit: the encoder does not test for it, and the decoder refuses what
  the encoder wrote.
\<close>

theorem record_header_roundtrip:
  assumes "EncodeRecordHeader crc h key out = Some bs"
  shows "\<exists>c. DecodeRecordHeader crc (bs @ rest) =
      (if rh_kind h = kValue \<and> rh_value_type h = kTypeString \<and> kMaxBitmapBytes < unat (rh_logical_size h) then None
       else Some (h\<lparr>rh_header_checksum := c\<rparr>, if rh_key_external h then [] else key)) \<and>
    length bs = length out"
  using record_roundtrip_aux [OF assms, of rest] unfolding key_part_def overlong_string_def .

definition demo_record :: RecordHeader where
  "demo_record =
     \<lparr>rh_header_bytes = 120, rh_kind = kValue, rh_db_id = 15, rh_value_type = kTypeHash, rh_external = False,
      rh_key_external = False, rh_grouped = False, rh_auxiliary_group = True, rh_group_retired = False,
      rh_group_incarnation = 9, rh_group_prefix = 0xA000000000000000, rh_group_prefix_bits = 3, rh_group_batch_txid = 4,
      rh_key_bytes = 3, rh_logical_size = 2, rh_payload_bytes = 10, rh_total_disk_bytes = 136, rh_txid = 5,
      rh_replication_epoch = 1, rh_db_epoch = 1, rh_mutation_sequence = 6, rh_expire_at_ms = 0, rh_lsn = 8,
      rh_allocation_epoch = 2, rh_payload_checksum = 77, rh_header_checksum = 0\<rparr>"

lemma demo_encodable: "encodable demo_record [1, 2, 3] 120"
proof -
  have g: "ValidGroupedRecordHeader demo_record" by (simp add: demo_record_def ValidGroupedRecordHeader_def kValue_def
      kTypeHash_def kTypeList_def kTypeSortedSet_def) code_simp
  have h: "header_bytes_of demo_record (Suc (Suc (Suc 0))) = 120"
    by (simp add: header_bytes_of_def RecordHeaderBytes_def RecordFixedHeaderBytes_def demo_record_def
        kRecordHeaderBaseBytes_def kRecordHeaderOptionalBytes_def kRecordAuxiliaryGroupIdentityBytes_def
        AlignRecord_def kRecordAlignment_def)
  then have t: "total_bytes_of demo_record (Suc (Suc (Suc 0))) = 136"
    by (simp add: total_bytes_of_def) (simp add: demo_record_def AlignRecord_def kRecordAlignment_def)
  show ?thesis
    by (simp add: encodable_def g h t)
      (simp add: demo_record_def ValidRecordKeySize_def kMaxStringBytes_def record_kind_ok_def kStorageBlockBytes_def
        kBlockHeaderBytes_def kBlockHeaderSlotBytes_def kDirectIoAlignment_def kBlockHeaderSlots_def kMaxRecordHeaderBytes_def
        kValue_def kTombstone_def kTxCommit_def kTypeHash_def kTypeStream_def kTypeNone_def)
qed

theorem record_header_roundtrip_witness:
  "\<exists>bs c. EncodeRecordHeader (\<lambda>bs. of_le bs) demo_record [1, 2, 3] (replicate 120 7) = Some bs \<and>
     DecodeRecordHeader (\<lambda>bs. of_le bs) (bs @ [0]) = Some (demo_record\<lparr>rh_header_checksum := c\<rparr>, [1, 2, 3])"
proof -
  obtain bs where bs: "EncodeRecordHeader (\<lambda>bs. of_le bs) demo_record [1, 2, 3] (replicate 120 7) = Some bs"
    using EncodeRecordHeader_bytes [of demo_record "[1, 2, 3]" "replicate 120 7" "\<lambda>bs. of_le bs"] demo_encodable by simp
  from record_header_roundtrip [OF bs, of "[0]"] bs show ?thesis by (auto simp: demo_record_def kTypeHash_def kTypeString_def)
qed

end
