(* ===== verification/Format_Safety.thy ===== *)
theory Format_Safety
  imports Record_Roundtrip
begin

text \<open>
  What recovery relies on in the storage format: a torn header write never loses the block, an
  accepted record header stays inside its buffer and its block, metadata pages and the system
  state root are given back, block identifiers pack without loss and the fixed metadata regions
  of a device do not overlap.
\<close>

unbundle bit_operations_syntax

section \<open>Explicit little-endian fields\<close>

lemma fold_update:
  assumes "off + n \<le> length out"
  shows "fold (\<lambda>i out. out[off + i := f i]) [0..<n] out = store out off (map f [0..<n])"
  using assms
proof (induction n)
  case (Suc n)
  then have e: "fold (\<lambda>i out. out[off + i := f i]) [0..<n] out = store out off (map f [0..<n])" by simp
  have "(store out off (map f [0..<n]))[off + n := f n] = store out off (map f [0..<Suc n])"
    using Suc.prems by (simp add: store_def list_update_append min_def)
      (metis Cons_nth_drop_Suc add_Suc_right less_eq_Suc_le list_update_code(2))
  with e show ?case by simp
qed (simp add: store_def)

lemma StoreLittleEndian64_store: "off + 8 \<le> length out \<Longrightarrow> StoreLittleEndian64 out off v = store out off (le_bytes 8 v)"
  using fold_update [of off 8 out "\<lambda>i. ucast (drop_bit (i * 8) v)"]
  by (simp add: StoreLittleEndian64_def le_bytes_def mult.commute)

lemma StoreLittleEndian32_store: "off + 4 \<le> length out \<Longrightarrow> StoreLittleEndian32 out off v = store out off (le_bytes 4 v)"
  using fold_update [of off 4 out "\<lambda>i. ucast (drop_bit (i * 8) v)"]
  by (simp add: StoreLittleEndian32_def le_bytes_def mult.commute)

lemma load_Suc: "off < length b \<Longrightarrow> load b off (Suc n) = b ! off # load b (off + 1) n"
  by (simp add: load_def flip: Cons_nth_drop_Suc)

lemma load_zero: "load b off 0 = []"
  by (simp add: load_def)

lemma LoadLittleEndian32_load: "off + 4 \<le> length b \<Longrightarrow> LoadLittleEndian32 b off = of_le (load b off 4)"
  by (simp add: LoadLittleEndian32_def load_Suc load_zero numeral_eq_Suc push_bit_or or.assoc)

lemma LoadLittleEndian64_load: "off + 8 \<le> length b \<Longrightarrow> LoadLittleEndian64 b off = of_le (load b off 8)"
  by (simp add: LoadLittleEndian64_def load_Suc load_zero numeral_eq_Suc push_bit_or or.assoc)

section \<open>System state root\<close>

definition root_bytes :: "SystemStateRoot \<Rightarrow> bytes" where
  "root_bytes root =
     le_bytes 8 kSystemStateRootMagic @ le_bytes 4 kStorageFormatVersion @ le_bytes 4 (56 :: u32) @
     le_bytes 8 (sr_generation root) @ le_bytes 8 (er_block_id (sr_manifest root)) @
     le_bytes 8 (er_allocation_epoch (sr_manifest root)) @ le_bytes 4 (er_payload_bytes (sr_manifest root)) @
     le_bytes 4 (er_payload_checksum (sr_manifest root)) @ le_bytes 8 (sr_manifest_bytes root)"

lemma length_root_bytes [simp]: "length (root_bytes r) = 56"
  by (simp add: root_bytes_def)

lemma store_next: "off = length xs \<Longrightarrow> length v \<le> n \<Longrightarrow> store (xs @ replicate n 0) off v = (xs @ v) @ replicate (n - length v) 0"
  by (simp add: store_def)

lemma EncodeSystemStateRoot_bytes:
  assumes "56 \<le> n"
  shows "EncodeSystemStateRoot root n = Some (root_bytes root @ replicate (n - 56) 0)"
proof -
  have "store (replicate n 0) 0 v = v @ replicate (n - length v) 0" if "length v \<le> n" for v :: bytes
    using that by (simp add: store_def)
  with assms show ?thesis
    by (simp add: EncodeSystemStateRoot_def Let_def StoreLittleEndian64_store StoreLittleEndian32_store store_next
        del: append_assoc) (simp add: root_bytes_def)
qed

lemma root_decoded:
  assumes "SystemStateRoot_valid r" "sr_root_bytes r = 56"
  shows "DecodeSystemStateRoot (root_bytes r @ rest) = Some r"
proof -
  have "r = \<lparr>sr_root_bytes = 56, sr_generation = sr_generation r,
      sr_manifest = \<lparr>er_block_id = er_block_id (sr_manifest r), er_allocation_epoch = er_allocation_epoch (sr_manifest r),
        er_payload_bytes = er_payload_bytes (sr_manifest r), er_payload_checksum = er_payload_checksum (sr_manifest r)\<rparr>,
      sr_manifest_bytes = sr_manifest_bytes r\<rparr>" (is "r = ?r")
    using assms(2) by simp
  moreover have "DecodeSystemStateRoot (root_bytes r @ rest) = (if SystemStateRoot_valid ?r then Some ?r else None)"
    by (simp add: DecodeSystemStateRoot_def LoadLittleEndian64_load LoadLittleEndian32_load Let_def)
      (simp add: root_bytes_def layout_simps)
  ultimately show ?thesis using assms(1) by metis
qed

interpretation system_state_root: codec "\<lambda>r. EncodeSystemStateRoot r kMetadataPagePayloadBytes" DecodeSystemStateRoot
    "\<lambda>r. SystemStateRoot_valid r \<and> sr_root_bytes r = 56"
  by unfold_locales (auto simp: EncodeSystemStateRoot_bytes root_decoded kMetadataPagePayloadBytes_def kDirectIoAlignment_def)

interpretation metadata_page: codec "\<lambda>(gen, payload). EncodeMetadataPage crc kind index gen payload"
    "\<lambda>page. DecodeMetadataPage crc page kind index room"
    "\<lambda>(gen, payload). gen \<noteq> 0 \<and> length payload = room \<and> room \<le> kMetadataPagePayloadBytes"
  for crc :: "bytes \<Rightarrow> u32" and kind :: u16 and index :: u32 and room :: nat
proof
  fix p :: "u64 \<times> bytes"
  assume v: "case p of (gen, payload) \<Rightarrow> gen \<noteq> 0 \<and> length payload = room \<and> room \<le> kMetadataPagePayloadBytes"
  obtain gen payload where p: "p = (gen, payload)" by fastforce
  show "(case p of (gen, payload) \<Rightarrow> EncodeMetadataPage crc kind index gen payload) \<noteq> None"
    using v by (simp add: p EncodeMetadataPage_def Let_def)
  fix page
  assume "(case p of (gen, payload) \<Rightarrow> EncodeMetadataPage crc kind index gen payload) = Some page"
  then show "DecodeMetadataPage crc page kind index room = Some p"
    using v metadata_page_decoded [of crc kind index gen payload page room] by (simp add: p)
qed

section \<open>Two header slots\<close>

lemma pages_unfold:
  "DecodeBlockHeaderPages crc input =
     (case DecodeBlockHeader crc (load input 0 kBlockHeaderSlotBytes) of
        None \<Rightarrow> map_option (\<lambda>h. (h, 1)) (DecodeBlockHeader crc (load input kBlockHeaderSlotBytes kBlockHeaderSlotBytes))
      | Some h0 \<Rightarrow>
          (case DecodeBlockHeader crc (load input kBlockHeaderSlotBytes kBlockHeaderSlotBytes) of
             None \<Rightarrow> Some (h0, 0)
           | Some h1 \<Rightarrow> if newer_header h1 h0 then Some (h1, 1) else Some (h0, 0)))"
  by (simp add: DecodeBlockHeaderPages_def kBlockHeaderSlots_def numeral_2_eq_2 split: option.split)

lemma slot_rewritten:
  assumes "length pages = kBlockHeaderBytes" "s < 2" "length q = kBlockHeaderSlotBytes"
  shows "load (store pages ((1 - s) * kBlockHeaderSlotBytes) q) ((1 - s) * kBlockHeaderSlotBytes) kBlockHeaderSlotBytes = q"
    and "load (store pages ((1 - s) * kBlockHeaderSlotBytes) q) (s * kBlockHeaderSlotBytes) kBlockHeaderSlotBytes =
      load pages (s * kBlockHeaderSlotBytes) kBlockHeaderSlotBytes"
proof -
  have b: "(1 - s) * kBlockHeaderSlotBytes + length q \<le> length pages" and s: "s = 0 \<or> s = 1"
    using assms by (auto simp: kBlockHeaderBytes_def kBlockHeaderSlots_def)
  show "load (store pages ((1 - s) * kBlockHeaderSlotBytes) q) ((1 - s) * kBlockHeaderSlotBytes) kBlockHeaderSlotBytes = q"
    using b assms(3) by (intro load_store_same) simp_all
  show "load (store pages ((1 - s) * kBlockHeaderSlotBytes) q) (s * kBlockHeaderSlotBytes) kBlockHeaderSlotBytes =
      load pages (s * kBlockHeaderSlotBytes) kBlockHeaderSlotBytes"
    using b s assms(3) by (intro load_store_other) auto
qed

text \<open>Which of two valid headers recovery picks, in slot \<open>s\<close> and in the other one.\<close>

definition picked :: "BlockHeader \<Rightarrow> BlockHeader \<Rightarrow> nat \<Rightarrow> BlockHeader \<times> nat" where
  "picked h h' s =
     (if unat (bh_allocation_epoch h) < unat (bh_allocation_epoch h') \<or>
         bh_allocation_epoch h' = bh_allocation_epoch h \<and> unat (bh_header_sequence h) < unat (bh_header_sequence h') \<or>
         bh_allocation_epoch h' = bh_allocation_epoch h \<and> bh_header_sequence h' = bh_header_sequence h \<and> s = 1
      then (h', 1 - s) else (h, s))"

lemma picked_newer:
  "picked h h' 0 = (if newer_header h' h then (h', 1) else (h, 0))"
  "picked h h' 1 = (if newer_header h h' then (h, 1) else (h', 0))"
  by (auto simp: picked_def newer_header_def word_less_nat_alt word_unat_eq_iff)

lemma rewritten_slot_chosen:
  assumes "length pages = kBlockHeaderBytes" "s < 2" "length q = kBlockHeaderSlotBytes"
    and "DecodeBlockHeader crc (load pages (s * kBlockHeaderSlotBytes) kBlockHeaderSlotBytes) = Some h"
  shows "DecodeBlockHeaderPages crc (store pages ((1 - s) * kBlockHeaderSlotBytes) q) =
    Some (case DecodeBlockHeader crc q of None \<Rightarrow> (h, s) | Some h' \<Rightarrow> picked h h' s)"
proof -
  note w = slot_rewritten [OF assms(1-3)]
  consider "s = 0" | "s = 1" using assms(2) by linarith
  then show ?thesis
  proof cases
    case 1
    with w assms(4) show ?thesis by (simp add: pages_unfold picked_newer split: option.split)
  next
    case 2
    with w assms(4) show ?thesis by (simp add: pages_unfold picked_newer [unfolded One_nat_def] split: option.split)
  qed
qed

text \<open>
  (C16) A block header update cannot lose the block. Let one of the two slots hold a valid header
  and let the other slot be overwritten by any page whatsoever, for instance a torn one. If the
  page does not decode, recovery finds the old header in its slot. If the page decodes, recovery
  finds the header with the larger allocation epoch and, among equal epochs, the larger sequence
  number; among equal versions the one in slot 0. So a completed update to a larger version is
  found, and a page of a smaller version is never taken.
\<close>

theorem header_update_atomic:
  assumes "length pages = kBlockHeaderBytes" "s < 2" "length q = kBlockHeaderSlotBytes"
    and "DecodeBlockHeader crc (load pages (s * kBlockHeaderSlotBytes) kBlockHeaderSlotBytes) = Some h"
  shows "(DecodeBlockHeader crc q = None \<longrightarrow>
      DecodeBlockHeaderPages crc (store pages ((1 - s) * kBlockHeaderSlotBytes) q) = Some (h, s)) \<and>
    (DecodeBlockHeader crc q = Some h' \<longrightarrow>
      DecodeBlockHeaderPages crc (store pages ((1 - s) * kBlockHeaderSlotBytes) q) =
        (if unat (bh_allocation_epoch h) < unat (bh_allocation_epoch h') \<or>
            bh_allocation_epoch h' = bh_allocation_epoch h \<and> unat (bh_header_sequence h) < unat (bh_header_sequence h') \<or>
            bh_allocation_epoch h' = bh_allocation_epoch h \<and> bh_header_sequence h' = bh_header_sequence h \<and> s = 1
         then Some (h', 1 - s) else Some (h, s))) \<and>
    (q = EncodeBlockHeader crc pad new \<and> length pad = 4 \<and> block_frame_ok new \<and> block_kind_ok new \<and>
       (unat (bh_allocation_epoch h) < unat (bh_allocation_epoch new) \<or>
        bh_allocation_epoch new = bh_allocation_epoch h \<and> unat (bh_header_sequence h) < unat (bh_header_sequence new)) \<longrightarrow>
      DecodeBlockHeaderPages crc (store pages ((1 - s) * kBlockHeaderSlotBytes) q) = Some (new\<lparr>bh_checksum := 0\<rparr>, 1 - s))"
proof -
  note chosen = rewritten_slot_chosen [OF assms]
  have "DecodeBlockHeader crc q = Some (new\<lparr>bh_checksum := 0\<rparr>)"
    if "q = EncodeBlockHeader crc pad new" "length pad = 4" "block_frame_ok new" "block_kind_ok new"
    using block_header_decoded [OF that(3,4,2), of crc] that(1) by simp
  then show ?thesis using chosen by (auto simp: picked_def)
qed

definition demo_block :: "u32 \<Rightarrow> BlockHeader" where
  "demo_block sequence =
     \<lparr>bh_magic = kBlockMagic, bh_block_id = 5, bh_version = 1, bh_header_bytes = 8192, bh_block_bytes = 8388608,
      bh_writer_id = 0, bh_allocation_epoch = 3, bh_committed_bytes = 8192, bh_record_count = 0, bh_max_lsn = 0,
      bh_header_sequence = sequence, bh_checksum = 0, bh_layout_worker_count = 4, bh_kind = kBlockRecords,
      bh_reserved = replicate 3 0, bh_extent_index = 0, bh_extent_payload_bytes = 0, bh_extent_payload_checksum = 0,
      bh_reserved_runtime = replicate 24 0, bh_tx_generation = 0\<rparr>"

lemma demo_block_ok: "block_frame_ok (demo_block n)" "block_kind_ok (demo_block n)"
  by (simp_all add: demo_block_def block_frame_ok_def block_kind_ok_def kBlockRecords_def kBlockTransaction_def
      kStorageFormatVersion_def kBlockHeaderBytes_def kBlockHeaderSlotBytes_def kBlockHeaderSlots_def kDirectIoAlignment_def
      kStorageBlockBytes_def kLogicalStorageShards_def kInvalidBlockId_def LocalBlockId_def kLocalBlockIdMask_def
      kLocalBlockIdLimit_def kLocalBlockIdBits_def)

lemma length_EncodeBlockHeader: "block_frame_ok h \<Longrightarrow> block_kind_ok h \<Longrightarrow> length pad = 4 \<Longrightarrow>
    length (EncodeBlockHeader crc pad h) = kBlockHeaderSlotBytes"
  using block_fields [of h]
  by (simp add: EncodeBlockHeader_def Let_def length_BlockHeader_bytes kBlockHeaderSlotBytes_def kDirectIoAlignment_def)

theorem header_update_atomic_witness:
  "let old = EncodeBlockHeader of_le (replicate 4 0) (demo_block 1); new = EncodeBlockHeader of_le (replicate 4 0) (demo_block 2)
   in DecodeBlockHeaderPages of_le (store (old @ replicate kBlockHeaderSlotBytes 0) kBlockHeaderSlotBytes new) = Some (demo_block 2, 1)"
proof -
  define old where "old = EncodeBlockHeader of_le (replicate 4 0) (demo_block 1)"
  define new where "new = EncodeBlockHeader of_le (replicate 4 0) (demo_block 2)"
  have c: "(demo_block n)\<lparr>bh_checksum := 0\<rparr> = demo_block n" for n by (simp add: demo_block_def)
  have l: "length old = kBlockHeaderSlotBytes" "length new = kBlockHeaderSlotBytes"
    by (simp_all add: old_def new_def length_EncodeBlockHeader demo_block_ok)
  have d: "DecodeBlockHeader of_le (load (old @ replicate kBlockHeaderSlotBytes 0) (0 * kBlockHeaderSlotBytes) kBlockHeaderSlotBytes) = Some (demo_block 1)"
    using l by (simp add: layout_simps) (simp add: old_def block_header_decoded demo_block_ok c)
  have "length (old @ replicate kBlockHeaderSlotBytes 0) = kBlockHeaderBytes"
    by (simp add: l kBlockHeaderBytes_def kBlockHeaderSlots_def)
  from header_update_atomic [OF this _ l(2) d, of undefined "replicate 4 0" "demo_block 2"] demo_block_ok [of 2]
  show ?thesis by (simp add: c flip: old_def new_def) (simp add: new_def demo_block_def)
qed

section \<open>Accepted record headers\<close>

lemma load_optional_keeps:
  assumes "load_optional b has_txid has_expiry aux d = Some d'"
  shows "rh_header_bytes d' = rh_header_bytes d" "rh_total_disk_bytes d' = rh_total_disk_bytes d"
    "rh_key_bytes d' = rh_key_bytes d" "rh_key_external d' = rh_key_external d"
    "rh_auxiliary_group d' = rh_auxiliary_group d" "rh_header_checksum d' = rh_header_checksum d"
    "\<not> has_txid \<Longrightarrow> rh_txid d' = rh_txid d" "\<not> has_expiry \<Longrightarrow> rh_expire_at_ms d' = rh_expire_at_ms d"
    "rh_payload_bytes d' = rh_payload_bytes d"
  using assms
  by (auto simp: load_optional_def load_expiry_def load_txid_def load_group_def Let_def split: if_splits)

lemma load_optional_fixed:
  assumes "load_optional b has_txid has_expiry aux d = Some d'" "decodable d' has_txid has_expiry"
    and "rh_txid d = 0" "rh_expire_at_ms d = 0" "rh_auxiliary_group d = aux"
  shows "fixed_bytes_of d' = RecordFixedHeaderBytes has_txid has_expiry aux"
proof -
  have v: "\<not> (has_txid \<and> rh_txid d' = 0)" "\<not> (has_expiry \<and> rh_expire_at_ms d' = 0)"
    using assms(2) unfolding decodable_def by blast+
  have "(rh_txid d' \<noteq> 0) = has_txid" using v(1) load_optional_keeps(7) [OF assms(1)] assms(3) by auto
  moreover have "(rh_expire_at_ms d' \<noteq> 0) = has_expiry" using v(2) load_optional_keeps(8) [OF assms(1)] assms(4) by auto
  ultimately show ?thesis by (simp add: fixed_bytes_of_def load_optional_keeps(5) [OF assms(1)] assms(5))
qed

lemma key_sizes_small:
  assumes "ValidRecordKeySize k"
  shows "RecordFixedHeaderBytes t e a + (if x then 0 else k) + 7 < 2 ^ 64"
  using assms by (simp add: ValidRecordKeySize_def kMaxStringBytes_def RecordFixedHeaderBytes_def kRecordHeaderBaseBytes_def
      kRecordHeaderOptionalBytes_def kRecordAuxiliaryGroupIdentityBytes_def)

text \<open>
  (C19) An accepted record header is safe to follow. When \<open>DecodeRecordHeader\<close> accepts a buffer,
  the fixed fields that its options ask for and an inline key lie inside the header, the header is
  that size rounded up to the alignment and lies inside the buffer and inside one page, and the
  header and the payload lie inside the record, whose size is theirs rounded up and fits behind the
  block header. An inline key has exactly the recorded length and is the slice of the buffer after
  the fixed fields; the checksum is the one of the header bytes with the checksum field cleared.
\<close>

theorem decoded_record_bounded:
  assumes "DecodeRecordHeader crc input = Some (h, key)"
  shows "let fixed = 72 + (if rh_txid h \<noteq> 0 then 8 else 0) + (if rh_expire_at_ms h \<noteq> 0 then 8 else 0) +
             (if rh_auxiliary_group h then 32 else 0);
           inline = (if rh_key_external h then 0 else unat (rh_key_bytes h));
           header = unat (rh_header_bytes h); payload = unat (rh_payload_bytes h); record = unat (rh_total_disk_bytes h)
    in fixed + inline \<le> header \<and> header < fixed + inline + 8 \<and> 8 dvd header \<and>
       header \<le> length input \<and> header \<le> kMaxRecordHeaderBytes \<and>
       header + payload \<le> record \<and> record < header + payload + 8 \<and> 8 dvd record \<and>
       record \<le> kStorageBlockBytes - kBlockHeaderBytes \<and>
       length key = inline \<and> key = take inline (drop fixed input) \<and> unat (rh_key_bytes h) \<le> kMaxStringBytes \<and>
       RecordHeaderChecksum crc (take header input) = rh_header_checksum h \<and>
       ValidGroupedRecordHeader h \<and> record_kind_ok h"
proof -
  define m where "m = (of_le (load input 20 2) :: u16)"
  define k p where "k = unat (of_le (load input 8 4) :: u32)" and "p = unat (of_le (load input 16 4) :: u32)"
  define t e a x where "t = RecordMetadataBit m 11" and "e = RecordMetadataBit m 12" and "a = RecordMetadataBit m 14"
    and "x = RecordMetadataBit m 10"
  define n where "n = RecordHeaderBytes k x t e a"
  define w where "w = unat (AlignRecord (word_of_nat (n + p)))"
  obtain d where d: "load_optional input t e a (load_base input m n w) = Some d" "decodable d t e"
      "RecordHeaderChecksum crc (take n input) = rh_header_checksum d"
      "h = d" "key = (if rh_key_external d then [] else load input (RecordFixedHeaderBytes t e a) k)"
    and v: "ValidRecordKeySize k" "n \<le> kMaxRecordHeaderBytes" "n \<le> length input" "w \<le> kStorageBlockBytes - kBlockHeaderBytes"
    using assms
    by (auto simp: DecodeRecordHeader_def Let_def not_less simp del: of_nat_add
        simp flip: m_def k_def p_def t_def e_def a_def x_def n_def w_def split: if_splits option.splits)
  note kept = load_optional_keeps [OF d(1)]
  have sizes: "unat (rh_header_bytes d) = n" "unat (rh_total_disk_bytes d) = w" "unat (rh_key_bytes d) = k" "unat (rh_payload_bytes d) = p"
      "rh_key_external d = x"
    using v(2,4) by (simp_all add: kept load_base_def unsigned_of_nat take_bit_eq_mod kMaxRecordHeaderBytes_def kDirectIoAlignment_def
        kStorageBlockBytes_def k_def p_def x_def)
  have fixed: "72 + (if rh_txid d \<noteq> 0 then 8 else 0) + (if rh_expire_at_ms d \<noteq> 0 then 8 else 0) + (if rh_auxiliary_group d then 32 else 0) =
      RecordFixedHeaderBytes t e a"
  proof -
    have "fixed_bytes_of d = RecordFixedHeaderBytes t e a"
      by (rule load_optional_fixed [OF d(1,2)]) (simp_all add: load_base_def a_def)
    then show ?thesis
      by (simp only: fixed_bytes_of_def RecordFixedHeaderBytes_def kRecordHeaderBaseBytes_def kRecordHeaderOptionalBytes_def
          kRecordAuxiliaryGroupIdentityBytes_def)
  qed
  let ?f = "RecordFixedHeaderBytes t e a + (if x then 0 else k)"
  have header: "n = (?f + 7) div 8 * 8" using unat_AlignRecord [OF key_sizes_small [OF v(1)]] by (simp add: n_def RecordHeaderBytes_def)
  have "p < 2 ^ 32" using unsigned_less [of "of_le (load input 16 4) :: u32", where 'a = nat] by (simp add: p_def)
  then have "n + p + 7 < 2 ^ 64" using v(2) by (simp add: kMaxRecordHeaderBytes_def kDirectIoAlignment_def)
  from unat_AlignRecord [OF this] have total_size: "w = (n + p + 7) div 8 * 8" by (simp add: w_def)
  have bounds: "?f \<le> n" "n < ?f + 8" "8 dvd n" "n + p \<le> w" "w < n + p + 8" "8 dvd w"
    using rounded_up [of ?f] rounded_up [of "n + p"] unfolding header [symmetric] total_size [symmetric] by blast+
  have key: "key = take (if x then 0 else k) (drop (RecordFixedHeaderBytes t e a) input)" "length key = (if x then 0 else k)"
    using d(5) bounds(1) v(3) by (cases x; simp add: sizes load_def)+
  show ?thesis
    unfolding Let_def d(4) fixed sizes
    using bounds key v d(2,3) by (simp add: decodable_def ValidRecordKeySize_def)
qed

theorem decoded_record_bounded_witness:
  "\<exists>bs h. DecodeRecordHeader (\<lambda>bs. of_le bs) bs = Some (h, [1, 2, 3]) \<and> unat (rh_header_bytes h) \<le> length bs"
proof -
  obtain bs where "EncodeRecordHeader (\<lambda>bs. of_le bs) demo_record [1, 2, 3] (replicate 120 7) = Some bs"
    using EncodeRecordHeader_bytes [of demo_record "[1, 2, 3]" "replicate 120 7" "\<lambda>bs. of_le bs"] demo_encodable by simp
  from record_roundtrip_aux [OF this, of "[]"] obtain c where
    "DecodeRecordHeader (\<lambda>bs. of_le bs) bs = Some (demo_record\<lparr>rh_header_checksum := c\<rparr>, [1, 2, 3])"
    by (auto simp: demo_record_def kTypeHash_def kTypeString_def key_part_def overlong_string_def)
  with decoded_record_bounded [OF this] show ?thesis unfolding Let_def by blast
qed

section \<open>Metadata round trips\<close>

text \<open>
  (C37) The system state root survives its durable page. A valid root, encoded into the payload of
  a metadata page of any kind, index and generation other than zero and read back through both
  decoders, is the same root, whatever the checksum function.
\<close>

theorem system_root_page_roundtrip:
  assumes "SystemStateRoot_valid root" "sr_root_bytes root = 56" "gen \<noteq> 0"
    and "EncodeSystemStateRoot root kMetadataPagePayloadBytes = Some payload"
  shows "\<exists>page. EncodeMetadataPage crc kind index gen payload = Some page \<and> length page = kDirectIoAlignment \<and>
    DecodeMetadataPage crc page kind index kMetadataPagePayloadBytes = Some (gen, payload) \<and>
    DecodeSystemStateRoot payload = Some root"
proof -
  have l: "length payload = kMetadataPagePayloadBytes"
    using assms(4) by (auto simp: EncodeSystemStateRoot_bytes kMetadataPagePayloadBytes_def kDirectIoAlignment_def)
  then have v: "case (gen, payload) of (gen, payload) \<Rightarrow>
      gen \<noteq> 0 \<and> length payload = kMetadataPagePayloadBytes \<and> kMetadataPagePayloadBytes \<le> kMetadataPagePayloadBytes"
    using assms(3) by simp
  obtain page where p: "EncodeMetadataPage crc kind index gen payload = Some page"
    using metadata_page.encode_total [OF v, of crc kind index] by auto
  have "DecodeMetadataPage crc page kind index kMetadataPagePayloadBytes = Some (gen, payload)"
    by (rule metadata_page.decode_encode [OF v]) (simp add: p)
  moreover have "DecodeSystemStateRoot payload = Some root"
    by (rule system_state_root.decode_encode) (use assms in auto)
  moreover have "length page = kDirectIoAlignment"
    using p l by (auto simp: EncodeMetadataPage_def Let_def kMetadataPagePayloadBytes_def kDirectIoAlignment_def)
  ultimately show ?thesis using p by blast
qed

definition demo_root :: SystemStateRoot where
  "demo_root = \<lparr>sr_root_bytes = 56, sr_generation = 4,
     sr_manifest = \<lparr>er_block_id = 9, er_allocation_epoch = 2, er_payload_bytes = 40, er_payload_checksum = 1\<rparr>,
     sr_manifest_bytes = 40\<rparr>"

theorem system_root_page_roundtrip_witness:
  "\<exists>payload page. EncodeSystemStateRoot demo_root kMetadataPagePayloadBytes = Some payload \<and>
     EncodeMetadataPage (\<lambda>bs. of_le bs) 2 0 7 payload = Some page \<and>
     DecodeMetadataPage (\<lambda>bs. of_le bs) page 2 0 kMetadataPagePayloadBytes = Some (7, payload) \<and>
     DecodeSystemStateRoot payload = Some demo_root"
proof -
  obtain payload where p: "EncodeSystemStateRoot demo_root kMetadataPagePayloadBytes = Some payload"
    by (simp add: EncodeSystemStateRoot_bytes kMetadataPagePayloadBytes_def kDirectIoAlignment_def)
  have "SystemStateRoot_valid demo_root" "sr_root_bytes demo_root = 56" "(7 :: u64) \<noteq> 0"
    by (simp_all add: demo_root_def SystemStateRoot_valid_def kInvalidBlockId_def kExtentPayloadBytes_def
        kStorageBlockBytes_def kBlockHeaderBytes_def kBlockHeaderSlotBytes_def kBlockHeaderSlots_def kDirectIoAlignment_def)
  from system_root_page_roundtrip [OF this p, of "\<lambda>bs. of_le bs" 2 0] p show ?thesis by blast
qed

section \<open>Block identifiers and the device layout\<close>

lemma LocalBlockId_Make:
  assumes "unat local < 2 ^ 27"
  shows "LocalBlockId (MakeBlockId device local) = local"
proof (rule bit_word_eqI)
  fix i
  have "take_bit 27 local = local"
    using assms by (simp add: word_eq_iff_unsigned [where 'a = nat] unsigned_take_bit_eq take_bit_nat_eq_self)
  then have "bit local i \<Longrightarrow> i < 27" by (metis bit_take_bit_iff)
  moreover have m: "kLocalBlockIdMask = mask 27"
    by (simp add: kLocalBlockIdMask_def kLocalBlockIdLimit_def kLocalBlockIdBits_def mask_eq_exp_minus_1)
  have "bit kLocalBlockIdMask i \<longleftrightarrow> possible_bit TYPE(u64) i \<and> i < 27" unfolding m by (rule bit_mask_iff)
  ultimately show "bit (LocalBlockId (MakeBlockId device local)) i = bit local i"
    by (auto simp: LocalBlockId_def MakeBlockId_def kLocalBlockIdBits_def bit_ucast_iff bit_and_iff bit_or_iff
        bit_push_bit_iff)
qed

lemma DeviceIdForBlock_Make:
  assumes "unat local < 2 ^ 27" "unat device < 2 ^ 37"
  shows "DeviceIdForBlock (MakeBlockId device local) = device"
proof (rule bit_word_eqI)
  fix i
  have "take_bit 27 local = local" "take_bit 37 device = device"
    using assms by (simp_all add: word_eq_iff_unsigned [where 'a = nat] unsigned_take_bit_eq take_bit_nat_eq_self)
  then have "bit local j \<Longrightarrow> j < 27" "bit device j \<Longrightarrow> j < 37" for j by (metis bit_take_bit_iff)+
  then show "bit (DeviceIdForBlock (MakeBlockId device local)) i = bit device i"
    by (force simp: DeviceIdForBlock_def MakeBlockId_def kLocalBlockIdBits_def bit_ucast_iff bit_or_iff
        bit_push_bit_iff bit_drop_bit_eq)
qed

lemma limits: "unat kLocalBlockIdLimit = 2 ^ 27" "unat kDeviceIdLimit = 2 ^ 37"
  by (simp_all add: kLocalBlockIdLimit_def kDeviceIdLimit_def kLocalBlockIdBits_def push_bit_eq_mult)

text \<open>
  Block identifiers pack a device and a local block without loss: for a device and a block
  below their limits both parts are read back, and the byte offset of the block on its device is
  computed without wrapping around.
\<close>

theorem block_id_roundtrip:
  assumes "device < kDeviceIdLimit" "unat local < unat kLocalBlockIdLimit"
  shows "DeviceIdForBlock (MakeBlockId device local) = device \<and> LocalBlockId (MakeBlockId device local) = local \<and>
    unat (LocalBlockOffset (MakeBlockId device local)) = unat local * kStorageBlockBytes"
proof -
  have b: "unat local < 2 ^ 27" "unat device < 2 ^ 37" using assms limits by (simp_all add: word_less_nat_alt)
  have "unat (ucast local * word_of_nat kStorageBlockBytes :: u64) = unat local * kStorageBlockBytes"
    using b(1) by (simp add: unat_word_ariths unsigned_ucast_eq unsigned_of_nat take_bit_eq_mod kStorageBlockBytes_def)
  then show ?thesis
    using b by (simp add: LocalBlockId_Make DeviceIdForBlock_Make LocalBlockOffset_def)
qed

theorem block_id_roundtrip_witness:
  "DeviceIdForBlock (MakeBlockId 65534 134217727) = 65534 \<and> LocalBlockId (MakeBlockId 65534 134217727) = 134217727"
  using block_id_roundtrip [of 65534 134217727] by (simp add: word_less_nat_alt limits)

lemmas layout_consts = kDirectIoAlignment_def kEpochMetadataOffset_def kEpochMetadataPageCount_def kEpochMetadataBytes_def
  kEpochValueCount_def kMetadataPagePayloadBytes_def kLogicalStorageShards_def kSystemStateMetadataOffset_def
  kScanBitmapMetadataOffset_def

lemma le_ceil_div: "0 < d \<Longrightarrow> x \<le> (x + d - 1) div d * (d :: nat)"
  using div_mult_mod_eq [of "x + d - 1" d] mod_less_divisor [of d "x + d - 1"] by linarith

lemma page_slot_inside:
  assumes "page < count" "slot < 2"
  shows "MetadataPageSlotOffset base page slot + kDirectIoAlignment \<le> base + count * 2 * kDirectIoAlignment"
proof -
  have "page * 2 + slot + 1 \<le> count * 2" using assms by linarith
  then have "(page * 2 + slot + 1) * kDirectIoAlignment \<le> count * 2 * kDirectIoAlignment" by (rule mult_le_mono1)
  then show ?thesis by (simp add: MetadataPageSlotOffset_def algebra_simps)
qed

lemma data_behind_metadata:
  assumes "capacity \<le> 2 ^ 27"
  shows "FixedMetadataBytes capacity \<le> unat (DataBlockBegin capacity) * kStorageBlockBytes"
proof -
  have "(FixedMetadataBytes capacity + kStorageBlockBytes - 1) div kStorageBlockBytes < 2 ^ 32"
    using assms by (simp add: FixedMetadataBytes_def CheckpointBitmapMetadataOffset_def ScanBitmapPageCount_def
        ScanBitmapBytes_def layout_consts kStorageBlockBytes_def div_less_iff_less_mult)
  then have "unat (DataBlockBegin capacity) = (FixedMetadataBytes capacity + kStorageBlockBytes - 1) div kStorageBlockBytes"
    by (simp add: DataBlockBegin_def unsigned_of_nat take_bit_eq_mod)
  moreover have "0 < kStorageBlockBytes" by (simp add: kStorageBlockBytes_def)
  ultimately show ?thesis using le_ceil_div [of kStorageBlockBytes "FixedMetadataBytes capacity"] by simp
qed

text \<open>
  The fixed metadata of a device is laid out without overlap. For every capacity that a
  device label may carry, the pages of the epoch table, the system state, the scan bitmap and the
  checkpoint bitmap follow one another behind the label, both slots of every page lie inside
  their region, the first data block starts behind all of them, and the block number is not
  truncated to 32 bits.
\<close>

theorem metadata_layout:
  assumes "capacity \<le> unat kLocalBlockIdLimit"
  shows "kDirectIoAlignment \<le> kEpochMetadataOffset \<and>
    (page < kEpochMetadataPageCount \<and> slot < 2 \<longrightarrow>
       MetadataPageSlotOffset kEpochMetadataOffset page slot + kDirectIoAlignment \<le> kSystemStateMetadataOffset) \<and>
    (slot < 2 \<longrightarrow>
       MetadataPageSlotOffset kSystemStateMetadataOffset 0 slot + kDirectIoAlignment \<le> kScanBitmapMetadataOffset) \<and>
    (page < ScanBitmapPageCount capacity \<and> slot < 2 \<longrightarrow>
       MetadataPageSlotOffset kScanBitmapMetadataOffset page slot + kDirectIoAlignment \<le> CheckpointBitmapMetadataOffset capacity \<and>
       MetadataPageSlotOffset (CheckpointBitmapMetadataOffset capacity) page slot + kDirectIoAlignment
         \<le> unat (DataBlockBegin capacity) * kStorageBlockBytes) \<and>
    capacity \<le> ScanBitmapPageCount capacity * kMetadataPagePayloadBytes * 8"
proof -
  have "kDirectIoAlignment \<le> kEpochMetadataOffset" by (simp add: layout_consts)
  moreover have "page < kEpochMetadataPageCount \<Longrightarrow> slot < 2 \<Longrightarrow>
      MetadataPageSlotOffset kEpochMetadataOffset page slot + kDirectIoAlignment \<le> kSystemStateMetadataOffset"
    using page_slot_inside [of page kEpochMetadataPageCount slot kEpochMetadataOffset]
    by (simp add: kSystemStateMetadataOffset_def)
  moreover have "slot < 2 \<Longrightarrow>
      MetadataPageSlotOffset kSystemStateMetadataOffset 0 slot + kDirectIoAlignment \<le> kScanBitmapMetadataOffset"
    using page_slot_inside [of 0 1 slot kSystemStateMetadataOffset] by (simp add: kScanBitmapMetadataOffset_def)
  moreover have "page < ScanBitmapPageCount capacity \<Longrightarrow> slot < 2 \<Longrightarrow>
      MetadataPageSlotOffset kScanBitmapMetadataOffset page slot + kDirectIoAlignment \<le> CheckpointBitmapMetadataOffset capacity"
    using page_slot_inside [of page "ScanBitmapPageCount capacity" slot kScanBitmapMetadataOffset]
    by (simp add: CheckpointBitmapMetadataOffset_def)
  moreover have "page < ScanBitmapPageCount capacity \<Longrightarrow> slot < 2 \<Longrightarrow>
      MetadataPageSlotOffset (CheckpointBitmapMetadataOffset capacity) page slot + kDirectIoAlignment
        \<le> unat (DataBlockBegin capacity) * kStorageBlockBytes"
    using page_slot_inside [of page "ScanBitmapPageCount capacity" slot "CheckpointBitmapMetadataOffset capacity"]
      data_behind_metadata [of capacity] assms by (simp add: FixedMetadataBytes_def limits)
  moreover have "capacity \<le> ScanBitmapPageCount capacity * kMetadataPagePayloadBytes * 8"
    using le_ceil_div [of 8 capacity] le_ceil_div [of kMetadataPagePayloadBytes "ScanBitmapBytes capacity"]
    by (simp add: ScanBitmapPageCount_def ScanBitmapBytes_def layout_consts)
  ultimately show ?thesis by blast
qed

theorem metadata_layout_witness:
  "MetadataPageSlotOffset (CheckpointBitmapMetadataOffset 131072) 4 1 + kDirectIoAlignment
     \<le> unat (DataBlockBegin 131072) * kStorageBlockBytes"
  using metadata_layout [of 131072 4 1] by (simp add: limits ScanBitmapPageCount_def ScanBitmapBytes_def layout_consts)

end
