(* ===== verification/Decimal.thy ===== *)
theory Decimal
  imports Prelude
begin

text \<open>
  Numbers as text: \<open>std::to_chars\<close> and \<open>std::from_chars\<close> of the C++ standard library as the
  sources use them. A conversion from text reads the longest run of digits and reports the value
  and how many characters it took; \<^const>\<open>None\<close> stands for an error code.
\<close>

section \<open>Digits\<close>

definition code_of :: "char \<Rightarrow> nat" where
  "code_of c = of_char c"

definition digit_of :: "nat \<Rightarrow> char \<Rightarrow> nat option" where
  "digit_of base c =
     (let n = code_of c;
          v = (if 48 \<le> n \<and> n \<le> 57 then n - 48 else if 97 \<le> n \<and> n \<le> 122 then n - 87
               else if 65 \<le> n \<and> n \<le> 90 then n - 55 else base)
      in if v < base then Some v else None)"

definition is_digit :: "nat \<Rightarrow> char \<Rightarrow> bool" where
  "is_digit base c \<longleftrightarrow> digit_of base c \<noteq> None"

fun digits_value :: "nat \<Rightarrow> nat \<Rightarrow> string \<Rightarrow> nat" where
  "digits_value base acc [] = acc"
| "digits_value base acc (c # cs) = digits_value base (acc * base + the (digit_of base c)) cs"

definition magnitude :: "nat \<Rightarrow> string \<Rightarrow> (nat \<times> nat) option" where
  "magnitude base s =
     (let ds = takeWhile (is_digit base) s in if ds = [] then None else Some (digits_value base 0 ds, length ds))"

section \<open>Conversions\<close>

definition from_chars_unsigned :: "nat \<Rightarrow> nat \<Rightarrow> string \<Rightarrow> (nat \<times> nat) option" where
  "from_chars_unsigned base limit s =
     (case magnitude base s of None \<Rightarrow> None | Some (v, n) \<Rightarrow> if limit < v then None else Some (v, n))"

definition from_chars_signed :: "int \<Rightarrow> int \<Rightarrow> string \<Rightarrow> (int \<times> nat) option" where
  "from_chars_signed lo hi s =
     (case s of
        [] \<Rightarrow> None
      | c # cs \<Rightarrow>
          if c = CHR ''-'' then
            (case magnitude 10 cs of None \<Rightarrow> None | Some (v, n) \<Rightarrow> if - int v < lo then None else Some (- int v, n + 1))
          else
            (case magnitude 10 s of None \<Rightarrow> None | Some (v, n) \<Rightarrow> if hi < int v then None else Some (int v, n)))"

definition digit_char :: "nat \<Rightarrow> char" where
  "digit_char n = char_of (48 + n)"

fun to_chars :: "nat \<Rightarrow> string" where
  "to_chars n = (if n < 10 then [digit_char n] else to_chars (n div 10) @ [digit_char (n mod 10)])"

declare to_chars.simps [simp del]

definition to_chars_signed :: "int \<Rightarrow> string" where
  "to_chars_signed v = (if v < 0 then ''-'' @ to_chars (nat (- v)) else to_chars (nat v))"

definition int64_min :: int where "int64_min = - (2 ^ 63)"
definition int64_max :: int where "int64_max = 2 ^ 63 - 1"

section \<open>Facts\<close>

lemma code_digit_char: "n < 10 \<Longrightarrow> code_of (digit_char n) = 48 + n"
  by (simp add: code_of_def digit_char_def)

lemma digit_chars:
  "digit_char 0 = CHR ''0''" "digit_char 1 = CHR ''1''" "digit_char 2 = CHR ''2''" "digit_char 3 = CHR ''3''"
  "digit_char 4 = CHR ''4''" "digit_char 5 = CHR ''5''" "digit_char 6 = CHR ''6''" "digit_char 7 = CHR ''7''"
  "digit_char 8 = CHR ''8''" "digit_char 9 = CHR ''9''"
  by (simp_all add: digit_char_def char_of_eq_iff)

lemma digit_of_digit_char [simp]: "n < 10 \<Longrightarrow> digit_of 10 (digit_char n) = Some n"
  by (simp add: digit_of_def code_digit_char)

lemma is_digit_digit_char [simp]: "n < 10 \<Longrightarrow> is_digit 10 (digit_char n)"
  by (simp add: is_digit_def)

lemma digits_value_append: "digits_value base acc (xs @ ys) = digits_value base (digits_value base acc xs) ys"
  by (induction xs arbitrary: acc) simp_all

lemma to_chars_digits: "\<forall>c\<in>set (to_chars n). is_digit 10 c"
proof (induction n rule: to_chars.induct)
  case (1 n)
  then show ?case by (cases "n < 10") (simp_all add: to_chars.simps [of n])
qed

lemma to_chars_nonempty [simp]: "to_chars n \<noteq> []"
  by (simp add: to_chars.simps [of n])

lemma digits_value_to_chars [simp]: "digits_value 10 0 (to_chars n) = n"
proof (induction n rule: to_chars.induct)
  case (1 n)
  show ?case
  proof (cases "n < 10")
    case True
    then show ?thesis by (simp add: to_chars.simps [of n])
  next
    case False
    then show ?thesis using 1 by (simp add: to_chars.simps [of n] digits_value_append)
  qed
qed

lemma magnitude_to_chars:
  assumes "rest = [] \<or> \<not> is_digit 10 (hd rest)"
  shows "magnitude 10 (to_chars n @ rest) = Some (n, length (to_chars n))"
proof -
  have "takeWhile (is_digit 10) rest = []" using assms by (cases rest) auto
  then have "takeWhile (is_digit 10) (to_chars n @ rest) = to_chars n"
    using to_chars_digits [of n] by (simp add: takeWhile_append)
  then show ?thesis by (simp add: magnitude_def)
qed

lemma hd_to_chars: "is_digit 10 (hd (to_chars n))"
  using to_chars_digits [of n] hd_in_set [OF to_chars_nonempty] by blast

lemma hd_to_chars_not_minus: "hd (to_chars n) \<noteq> CHR ''-''"
  using hd_to_chars [of n] by (auto simp: is_digit_def digit_of_def code_of_def)

lemma from_chars_to_chars:
  assumes "int n \<le> hi"
  shows "from_chars_signed lo hi (to_chars n) = Some (int n, length (to_chars n))"
proof -
  obtain c cs where s: "to_chars n = c # cs" using to_chars_nonempty [of n] by (cases "to_chars n") auto
  have "c \<noteq> CHR ''-''" using hd_to_chars_not_minus [of n] by (simp add: s)
  then show ?thesis using assms magnitude_to_chars [of "[]" n] by (simp add: from_chars_signed_def s)
qed

lemma from_chars_to_chars_signed:
  assumes "lo \<le> v" "v \<le> hi"
  shows "from_chars_signed lo hi (to_chars_signed v) = Some (v, length (to_chars_signed v))"
  using assms from_chars_to_chars [of "nat v" hi lo] magnitude_to_chars [of "[]" "nat (- v)"]
  by (auto simp: to_chars_signed_def from_chars_signed_def)

lemma length_to_chars_le: "n < 10 ^ k \<Longrightarrow> 0 < k \<Longrightarrow> length (to_chars n) \<le> k"
proof (induction k arbitrary: n)
  case (Suc k)
  show ?case
  proof (cases "n < 10")
    case True
    then show ?thesis by (simp add: to_chars.simps [of n])
  next
    case False
    then have "0 < k" using Suc.prems by (cases k) auto
    moreover have "n div 10 < 10 ^ k" using Suc.prems by (simp add: div_less_iff_less_mult mult.commute)
    ultimately have "length (to_chars (n div 10)) \<le> k" using Suc.IH by blast
    then show ?thesis using False by (simp add: to_chars.simps [of n])
  qed
qed simp

end
