(* ===== verification/Resp.thy ===== *)
theory Resp
  imports Decimal
begin

text \<open>
  The request parser and the reply builder of \<^verbatim>\<open>src/redis/resp.cpp\<close>. Strings are character
  lists. A parse works on the input that is left; the position of the source is the number of
  characters already taken from it. Of the standard library the model fixes the limits of a
  64-bit target: \<open>size_t\<close>, the longest string and the longest vector of strings. Running out of
  memory is not modelled.
\<close>

section \<open>Strings, argument vectors\<close>

definition CR :: char where "CR = CHR 0x0D"
definition LF :: char where "LF = CHR 0x0A"
definition TAB :: char where "TAB = CHR 0x09"
definition NUL :: char where "NUL = CHR 0x00"

definition size_max :: nat where "size_max = 2 ^ 64 - 1"
definition string_max_size :: nat where "string_max_size = 2 ^ 63 - 1"
definition vector_max_size :: nat where "vector_max_size = (2 ^ 63 - 1) div 32"

definition kMaxArrayLen :: nat where "kMaxArrayLen = 2 ^ 31 - 1"
definition kInitialArgCapacity :: nat where "kInitialArgCapacity = 1024"
definition kMaxBulkLen :: nat where "kMaxBulkLen = 512 * 1024 * 1024"
definition kMaxLengthTextBytes :: nat where "kMaxLengthTextBytes = 32"

definition AppendArgument :: "string \<Rightarrow> string \<Rightarrow> string status_or" where
  "AppendArgument output v =
     (if size_max - length output < length v then Inl ResourceExhausted
      else if string_max_size < length output + length v then Inl ResourceExhausted
      else Inr (output @ v))"

record RespCommand =
  rc_args :: "string list"
  rc_capacity :: nat

definition new_command :: RespCommand where
  "new_command = \<lparr>rc_args = [], rc_capacity = 0\<rparr>"

definition ReserveArguments :: "RespCommand \<Rightarrow> nat \<Rightarrow> RespCommand status_or" where
  "ReserveArguments output desired =
     (if desired \<le> rc_capacity output then Inr output
      else if rc_capacity output \<le> size_max div 2 then
        (let allocation_capacity = max desired (rc_capacity output * 2) in
         if size_max div 32 < allocation_capacity then Inl ResourceExhausted
         else if vector_max_size < allocation_capacity then Inl ResourceExhausted
         else Inr (output\<lparr>rc_capacity := allocation_capacity\<rparr>))
      else Inl ResourceExhausted)"

definition PushArgument :: "RespCommand \<Rightarrow> string \<Rightarrow> RespCommand status_or" where
  "PushArgument output argument =
     (case ReserveArguments output (length (rc_args output) + 1) of
        Inl e \<Rightarrow> Inl e
      | Inr output \<Rightarrow> Inr (output\<lparr>rc_args := rc_args output @ [argument]\<rparr>))"

section \<open>Inline commands\<close>

definition blank :: "char \<Rightarrow> bool" where
  "blank c \<longleftrightarrow> c = CHR '' '' \<or> c = TAB"

definition inline_escape :: "string \<Rightarrow> (char \<times> string) status_or" where
  "inline_escape line =
     (case line of
        [] \<Rightarrow> Inl InvalidArgument
      | escaped # rest \<Rightarrow>
          if escaped = CHR ''n'' then Inr (LF, rest)
          else if escaped = CHR ''r'' then Inr (CR, rest)
          else if escaped = CHR ''t'' then Inr (TAB, rest)
          else if escaped = CHR ''b'' then Inr (CHR 0x08, rest)
          else if escaped = CHR ''a'' then Inr (CHR 0x07, rest)
          else if escaped = CHR ''x'' then
            (if length rest < 2 then Inl InvalidArgument
             else (case from_chars_unsigned 16 (2 ^ 32 - 1) (take 2 rest) of
                     None \<Rightarrow> Inl InvalidArgument
                   | Some (byte, n) \<Rightarrow> if n \<noteq> 2 then Inl InvalidArgument else Inr (char_of byte, drop 2 rest)))
          else Inr (escaped, rest))"

lemma inline_escape_shorter: "inline_escape line = Inr (v, rest) \<Longrightarrow> length rest < length line"
  by (auto simp: inline_escape_def split: list.splits if_splits option.splits)

text \<open>The inner loop: the argument, whether a quote was closed and the rest of the line.\<close>

function inline_argument :: "char \<Rightarrow> bool \<Rightarrow> string \<Rightarrow> string \<Rightarrow> (bool \<times> string \<times> string) status_or" where
  "inline_argument quote closed argument line =
     (case line of
        [] \<Rightarrow> Inr (closed, argument, [])
      | v # rest \<Rightarrow>
          if quote \<noteq> NUL \<and> v = quote then Inr (True, argument, rest)
          else if quote = NUL \<and> blank v then Inr (closed, argument, rest)
          else if v \<noteq> CHR 0x5C then
            (case AppendArgument argument [v] of
               Inl e \<Rightarrow> Inl e
             | Inr argument \<Rightarrow> inline_argument quote closed argument rest)
          else
            (case inline_escape rest of
               Inl e \<Rightarrow> Inl e
             | Inr p \<Rightarrow>
                 (case AppendArgument argument [fst p] of
                    Inl e \<Rightarrow> Inl e
                  | Inr argument \<Rightarrow> inline_argument quote closed argument (snd p))))"
  by pat_completeness auto
termination
  by (relation "measure (\<lambda>(quote, closed, argument, line). length line)")
    (auto dest: inline_escape_shorter)

declare inline_argument.simps [simp del]

lemma inline_argument_shorter:
  "inline_argument quote closed argument line = Inr (c, a, rest) \<Longrightarrow>
     length rest \<le> length line \<and> (line \<noteq> [] \<longrightarrow> length rest < length line)"
proof (induction quote closed argument line rule: inline_argument.induct)
  case (1 quote closed argument line)
  show ?case
  proof (cases line)
    case Nil
    with "1.prems" show ?thesis by (simp add: inline_argument.simps [of quote closed argument])
  next
    case (Cons v rest')
    show ?thesis
      using "1.prems" "1.IH" [OF Cons]
      by (subst (asm) inline_argument.simps)
        (fastforce simp: Cons split: if_splits sum.splits dest: inline_escape_shorter)
  qed
qed

text \<open>One round of the outer loop, from a line that does not start with a blank.\<close>

definition next_argument :: "string \<Rightarrow> (string \<times> string) status_or" where
  "next_argument line =
     (let quoted = (hd line = CHR 0x27 \<or> hd line = CHR 0x22);
          quote = (if quoted then hd line else NUL)
      in case inline_argument quote (quote = NUL) [] (if quoted then tl line else line) of
           Inl e \<Rightarrow> Inl e
         | Inr (closed, argument, rest) \<Rightarrow>
             if \<not> closed then Inl InvalidArgument
             else if quote \<noteq> NUL \<and> rest \<noteq> [] \<and> \<not> blank (hd rest) then Inl InvalidArgument
             else Inr (argument, rest))"

lemma next_argument_shorter:
  assumes "next_argument line = Inr (argument, rest)" "line \<noteq> []"
  shows "length rest < length line"
proof -
  let ?line = "if hd line = CHR 0x27 \<or> hd line = CHR 0x22 then tl line else line"
  obtain q c c' where "inline_argument q c [] ?line = Inr (c', argument, rest)"
    using assms(1) by (auto simp: next_argument_def Let_def split: sum.splits if_splits)
  from inline_argument_shorter [OF this] assms(2) show ?thesis
    by (cases line) (auto split: if_splits)
qed

function inline_arguments :: "RespCommand \<Rightarrow> string \<Rightarrow> RespCommand status_or" where
  "inline_arguments args line =
     (let line = dropWhile blank line in
      if line = [] then Inr args
      else (case next_argument line of
              Inl e \<Rightarrow> Inl e
            | Inr p \<Rightarrow>
                (case PushArgument args (fst p) of
                   Inl e \<Rightarrow> Inl e
                 | Inr args \<Rightarrow> inline_arguments args (snd p))))"
  by pat_completeness auto
termination
proof (relation "measure (\<lambda>(args, line). length line)", goal_cases)
  case (2 args line line' p args')
  then have "length (snd p) < length line'"
    by (intro next_argument_shorter [of line' "fst p" "snd p"]) simp_all
  also have "\<dots> \<le> length line" using 2(1) by (simp add: length_dropWhile_le)
  finally show ?case by simp
qed simp

declare inline_arguments.simps [simp del]

definition ParseInlineArguments :: "string \<Rightarrow> string list status_or" where
  "ParseInlineArguments line = map_sum id rc_args (inline_arguments new_command line)"

section \<open>The incremental parser\<close>

datatype State = kArrayStart | kInline | kArrayLength | kArgumentStart | kBulkLength | kBulkData | kBulkTerminator
  | kLineArgument

record RespCommandParser =
  rp_state :: State
  rp_length_text :: string
  rp_command :: RespCommand
  rp_current_argument :: string
  rp_arguments_remaining :: nat
  rp_bulk_remaining :: nat
  rp_terminator_bytes :: nat
  rp_command_bytes :: nat
  rp_query_buffer_limit :: nat
  rp_argument_type :: char

definition kDefaultClientQueryBufferLimit :: nat where
  "kDefaultClientQueryBufferLimit = 1024 * 1024 * 1024"

definition new_parser :: "nat \<Rightarrow> RespCommandParser" where
  "new_parser query_buffer_limit =
     \<lparr>rp_state = kArrayStart, rp_length_text = [], rp_command = new_command, rp_current_argument = [],
      rp_arguments_remaining = 0, rp_bulk_remaining = 0, rp_terminator_bytes = 0, rp_command_bytes = 0,
      rp_query_buffer_limit = query_buffer_limit, rp_argument_type = CHR ''$''\<rparr>"

definition SetQueryBufferLimit :: "nat \<Rightarrow> RespCommandParser \<Rightarrow> RespCommandParser" where
  "SetQueryBufferLimit v p = p\<lparr>rp_query_buffer_limit := v\<rparr>"

definition parser_idle :: "RespCommandParser \<Rightarrow> bool" where
  "parser_idle p \<longleftrightarrow> rp_state p = kArrayStart"

definition ResetCommand :: "RespCommandParser \<Rightarrow> RespCommandParser" where
  "ResetCommand p =
     p\<lparr>rp_state := kArrayStart, rp_length_text := [], rp_command := new_command, rp_current_argument := [],
       rp_arguments_remaining := 0, rp_bulk_remaining := 0, rp_terminator_bytes := 0, rp_command_bytes := 0\<rparr>"

definition Reset :: "RespCommandParser \<Rightarrow> RespCommandParser" where
  "Reset p = ResetCommand p"

definition Account :: "nat \<Rightarrow> RespCommandParser \<Rightarrow> bool \<times> RespCommandParser" where
  "Account n p =
     (if rp_query_buffer_limit p < n \<or> rp_query_buffer_limit p - n < rp_command_bytes p then (False, p)
      else (True, p\<lparr>rp_command_bytes := rp_command_bytes p + n\<rparr>))"

text \<open>The local function \<open>consume\<close> of \<open>Parse\<close>; the position is advanced by its callers here.\<close>

definition consume :: "nat \<Rightarrow> RespCommandParser \<Rightarrow> bool \<times> RespCommandParser" where
  "consume n p = (if rp_state p = kArrayStart then (True, p) else Account n p)"

text \<open>
  One round of the loop either goes on with the rest of the input or leaves \<open>Parse\<close> with an
  outcome.
\<close>

datatype outcome = Ok "string list" | NeedMoreData | Error status

datatype round =
    Continue RespCommandParser string
  | Return outcome RespCommandParser string

definition after_consume :: "nat \<Rightarrow> RespCommandParser \<Rightarrow> string \<Rightarrow> (RespCommandParser \<Rightarrow> round) \<Rightarrow> round" where
  "after_consume n p rest k =
     (case consume n p of
        (False, p) \<Rightarrow> Return (Error ResourceExhausted) p rest
      | (True, p) \<Rightarrow> k p)"

definition array_start :: "RespCommandParser \<Rightarrow> string \<Rightarrow> round" where
  "array_start p input =
     (let input = dropWhile (\<lambda>c. c = CR \<or> c = LF) input in
      if input = [] then Continue p []
      else if hd input \<noteq> CHR ''*'' then
        Continue (p\<lparr>rp_command_bytes := 0, rp_current_argument := [], rp_state := kInline\<rparr>) input
      else Continue (p\<lparr>rp_command_bytes := 1, rp_state := kArrayLength\<rparr>) (tl input))"

text \<open>A line with its newline, if there is one, and what follows.\<close>

definition split_line :: "string \<Rightarrow> bool \<times> string \<times> string" where
  "split_line input =
     (let n = length (takeWhile (\<lambda>c. c \<noteq> LF) input) in
      if n < length input then (True, take (n + 1) input, drop (n + 1) input) else (False, input, []))"

definition strip_cr :: "string \<Rightarrow> string" where
  "strip_cr s = (if s \<noteq> [] \<and> last s = CR then butlast s else s)"

definition inline_line :: "RespCommandParser \<Rightarrow> string \<Rightarrow> round" where
  "inline_line p rest =
     (let p = p\<lparr>rp_current_argument := strip_cr (butlast (rp_current_argument p))\<rparr> in
      case ParseInlineArguments (rp_current_argument p) of
        Inl e \<Rightarrow> Return (Error e) p rest
      | Inr args \<Rightarrow> if args = [] then Continue (ResetCommand p) rest else Return (Ok args) (ResetCommand p) rest)"

definition inline_start :: "RespCommandParser \<Rightarrow> string \<Rightarrow> round" where
  "inline_start p input =
     (case split_line input of (newline, line, rest) \<Rightarrow>
        (case AppendArgument (rp_current_argument p) line of
           Inl e \<Rightarrow> Return (Error e) p input
         | Inr argument \<Rightarrow>
             after_consume (length line) (p\<lparr>rp_current_argument := argument\<rparr>) rest
               (\<lambda>p. if newline then inline_line p rest else Continue p rest)))"

definition length_done :: "bool \<Rightarrow> RespCommandParser \<Rightarrow> string \<Rightarrow> round" where
  "length_done array_length p rest =
     (case from_chars_signed int64_min int64_max (rp_length_text p) of
        None \<Rightarrow> Return (Error InvalidArgument) p rest
      | Some (parsed, n) \<Rightarrow>
          if rp_length_text p = [] \<or> n \<noteq> length (rp_length_text p) \<or> parsed < 0
          then Return (Error InvalidArgument) p rest
          else let p = p\<lparr>rp_length_text := []\<rparr> in
            if array_length then
              (if int kMaxArrayLen < parsed then Return (Error InvalidArgument) p rest
               else if parsed = 0 then Continue (ResetCommand p) rest
               else let p = p\<lparr>rp_arguments_remaining := nat parsed\<rparr> in
                 case ReserveArguments (rp_command p) (min (rp_arguments_remaining p) kInitialArgCapacity) of
                   Inl e \<Rightarrow> Return (Error e) p rest
                 | Inr command \<Rightarrow> Continue (p\<lparr>rp_command := command, rp_state := kArgumentStart\<rparr>) rest)
            else if int kMaxBulkLen < parsed \<or> int string_max_size < parsed then Return (Error OutOfRange) p rest
            else Continue (p\<lparr>rp_bulk_remaining := nat parsed, rp_current_argument := [], rp_state := kBulkData\<rparr>) rest)"

fun length_loop :: "bool \<Rightarrow> RespCommandParser \<Rightarrow> string \<Rightarrow> round" where
  "length_loop array_length p [] = Continue p []"
| "length_loop array_length p (v # rest) =
     (if v = CR then
        (case rest of
           [] \<Rightarrow> Return NeedMoreData p (v # rest)
         | c # rest' \<Rightarrow>
             if c \<noteq> LF then Return (Error InvalidArgument) p (v # rest)
             else after_consume 2 p rest' (\<lambda>p. length_done array_length p rest'))
      else if v = LF \<or> kMaxLengthTextBytes \<le> length (rp_length_text p) then Return (Error InvalidArgument) p (v # rest)
      else after_consume 1 (p\<lparr>rp_length_text := rp_length_text p @ [v]\<rparr>) rest
             (\<lambda>p. length_loop array_length p rest))"

definition argument_start :: "RespCommandParser \<Rightarrow> string \<Rightarrow> round" where
  "argument_start p input =
     (let p = p\<lparr>rp_argument_type := hd input\<rparr> in
      if hd input \<notin> set ''$=+:,(#'' then Return (Error InvalidArgument) p input
      else after_consume 1 p (tl input)
        (\<lambda>p. Continue (p\<lparr>rp_current_argument := [],
           rp_state := if rp_argument_type p \<in> set ''$='' then kBulkLength else kLineArgument\<rparr>) (tl input)))"

definition size_dec :: "nat \<Rightarrow> nat" where
  "size_dec n = (if n = 0 then size_max else n - 1)"

text \<open>
  The end of an argument, which is the same code for bulk strings and for scalars. The argument
  is moved into \<open>PushArgument\<close> also when that fails.
\<close>

definition argument_end :: "RespCommandParser \<Rightarrow> string \<Rightarrow> round" where
  "argument_end p rest =
     (case PushArgument (rp_command p) (rp_current_argument p) of
        Inl e \<Rightarrow> Return (Error e) (p\<lparr>rp_current_argument := []\<rparr>) rest
      | Inr command \<Rightarrow>
          let p = p\<lparr>rp_command := command, rp_current_argument := [],
                rp_arguments_remaining := size_dec (rp_arguments_remaining p)\<rparr> in
          if rp_arguments_remaining p \<noteq> 0 then Continue (p\<lparr>rp_state := kArgumentStart\<rparr>) rest
          else Return (Ok (rc_args (rp_command p))) (ResetCommand p) rest)"

definition line_argument_end :: "RespCommandParser \<Rightarrow> string \<Rightarrow> round" where
  "line_argument_end p rest =
     (let argument = rp_current_argument p in
      if length argument < 2 \<or> argument ! (length argument - 2) \<noteq> CR then Return (Error InvalidArgument) p rest
      else let p = p\<lparr>rp_current_argument := take (length argument - 2) argument\<rparr> in
        if rp_argument_type p = CHR ''#'' then
          (if rp_current_argument p = ''t'' then argument_end (p\<lparr>rp_current_argument := ''1''\<rparr>) rest
           else if rp_current_argument p = ''f'' then argument_end (p\<lparr>rp_current_argument := ''0''\<rparr>) rest
           else Return (Error InvalidArgument) p rest)
        else argument_end p rest)"

definition line_argument :: "RespCommandParser \<Rightarrow> string \<Rightarrow> round" where
  "line_argument p input =
     (case split_line input of (newline, line, rest) \<Rightarrow>
        (case AppendArgument (rp_current_argument p) line of
           Inl e \<Rightarrow> Return (Error e) p input
         | Inr argument \<Rightarrow>
             after_consume (length line) (p\<lparr>rp_current_argument := argument\<rparr>) rest
               (\<lambda>p. if newline then line_argument_end p rest else Continue p rest)))"

definition bulk_data_end :: "RespCommandParser \<Rightarrow> string \<Rightarrow> round" where
  "bulk_data_end p rest =
     Continue (if rp_bulk_remaining p = 0 then p\<lparr>rp_terminator_bytes := 0, rp_state := kBulkTerminator\<rparr> else p) rest"

definition bulk_data :: "RespCommandParser \<Rightarrow> string \<Rightarrow> round" where
  "bulk_data p input =
     (let n = min (length input) (rp_bulk_remaining p) in
      if n \<noteq> 0 then
        after_consume n (p\<lparr>rp_current_argument := rp_current_argument p @ take n input,
            rp_bulk_remaining := rp_bulk_remaining p - n\<rparr>) (drop n input)
          (\<lambda>p. bulk_data_end p (drop n input))
      else bulk_data_end p input)"

definition bulk_end :: "RespCommandParser \<Rightarrow> string \<Rightarrow> round" where
  "bulk_end p rest =
     (if rp_terminator_bytes p \<noteq> 2 then Continue p rest
      else if rp_argument_type p = CHR ''='' then
        (if length (rp_current_argument p) < 4 \<or> rp_current_argument p ! 3 \<noteq> CHR '':''
         then Return (Error InvalidArgument) p rest
         else argument_end (p\<lparr>rp_current_argument := drop 4 (rp_current_argument p)\<rparr>) rest)
      else argument_end p rest)"

fun bulk_terminator :: "RespCommandParser \<Rightarrow> string \<Rightarrow> round" where
  "bulk_terminator p [] = bulk_end p []"
| "bulk_terminator p (v # rest) =
     (if rp_terminator_bytes p < 2 then
        (if v \<noteq> (if rp_terminator_bytes p = 0 then CR else LF) then Return (Error InvalidArgument) p (v # rest)
         else after_consume 1 (p\<lparr>rp_terminator_bytes := rp_terminator_bytes p + 1\<rparr>) rest
                (\<lambda>p. bulk_terminator p rest))
      else bulk_end p (v # rest))"

definition parse_round :: "RespCommandParser \<Rightarrow> string \<Rightarrow> round" where
  "parse_round p input =
     (case rp_state p of
        kArrayStart \<Rightarrow> array_start p input
      | kInline \<Rightarrow> inline_start p input
      | kArrayLength \<Rightarrow> length_loop True p input
      | kBulkLength \<Rightarrow> length_loop False p input
      | kArgumentStart \<Rightarrow> argument_start p input
      | kLineArgument \<Rightarrow> line_argument p input
      | kBulkData \<Rightarrow> bulk_data p input
      | kBulkTerminator \<Rightarrow> bulk_terminator p input)"

text \<open>
  The loop of \<open>Parse\<close>. It would run forever from a state with more than two terminator bytes;
  that it does not is a theorem about the states a parser can have.
\<close>

partial_function (option) parse_loop :: "RespCommandParser \<Rightarrow> string \<Rightarrow> (outcome \<times> RespCommandParser \<times> string) option" where
  "parse_loop p input =
     (if input = [] then Some (NeedMoreData, p, [])
      else (case parse_round p input of
              Continue p' input' \<Rightarrow> parse_loop p' input'
            | Return r p' input' \<Rightarrow> Some (r, p', input')))"

declare parse_loop.simps [code]

record RespParseResult =
  pr_outcome :: outcome
  pr_consumed :: nat

definition Parse :: "RespCommandParser \<Rightarrow> string \<Rightarrow> (RespParseResult \<times> RespCommandParser) option" where
  "Parse p input =
     (case parse_loop p input of
        None \<Rightarrow> None
      | Some (r, p', rest) \<Rightarrow> Some (\<lparr>pr_outcome = r, pr_consumed = length input - length rest\<rparr>, p'))"

definition ParseRespCommand :: "string \<Rightarrow> RespParseResult option" where
  "ParseRespCommand input = map_option fst (Parse (new_parser kDefaultClientQueryBufferLimit) input)"

end
