(* ===== verification/Resp_Safety.thy ===== *)
theory Resp_Safety
  imports Resp
begin

text \<open>
  The request parser returns from every input, keeps its state well formed and within the query
  buffer limit, and does not depend on how the input is cut into chunks.
\<close>

section \<open>Rounds\<close>

fun round_parser :: "round \<Rightarrow> RespCommandParser" where
  "round_parser (Continue p rest) = p"
| "round_parser (Return r p rest) = p"

fun round_rest :: "round \<Rightarrow> string" where
  "round_rest (Continue p rest) = rest"
| "round_rest (Return r p rest) = rest"

definition fits :: "nat \<Rightarrow> RespCommandParser \<Rightarrow> bool" where
  "fits n p \<longleftrightarrow> rp_command_bytes p + n \<le> rp_query_buffer_limit p"

definition charge :: "nat \<Rightarrow> RespCommandParser \<Rightarrow> RespCommandParser" where
  "charge n p = p\<lparr>rp_command_bytes := rp_command_bytes p + n\<rparr>"

lemma after_consume_eq:
  "rp_state p \<noteq> kArrayStart \<Longrightarrow>
     after_consume n p rest k = (if fits n p then k (charge n p) else Return (Error ResourceExhausted) p rest)"
  by (auto simp: after_consume_def consume_def Account_def fits_def charge_def)

lemma charge_simps [simp]:
  "rp_state (charge n p) = rp_state p" "rp_length_text (charge n p) = rp_length_text p"
  "rp_command (charge n p) = rp_command p" "rp_current_argument (charge n p) = rp_current_argument p"
  "rp_arguments_remaining (charge n p) = rp_arguments_remaining p" "rp_bulk_remaining (charge n p) = rp_bulk_remaining p"
  "rp_terminator_bytes (charge n p) = rp_terminator_bytes p" "rp_query_buffer_limit (charge n p) = rp_query_buffer_limit p"
  "rp_argument_type (charge n p) = rp_argument_type p" "rp_command_bytes (charge n p) = rp_command_bytes p + n"
  by (simp_all add: charge_def)

lemma fits_simps [simp]:
  "fits n (p\<lparr>rp_current_argument := a\<rparr>) = fits n p" "fits n (p\<lparr>rp_length_text := t\<rparr>) = fits n p"
  "fits n (p\<lparr>rp_argument_type := c\<rparr>) = fits n p" "fits n (p\<lparr>rp_bulk_remaining := m\<rparr>) = fits n p"
  "fits n (p\<lparr>rp_terminator_bytes := m\<rparr>) = fits n p"
  by (simp_all add: fits_def)

lemma split_line_append: "split_line input = (newline, line, rest) \<Longrightarrow> input = line @ rest"
  by (auto simp: split_line_def Let_def split: if_splits)

lemma split_line_progress: "split_line input = (newline, line, rest) \<Longrightarrow> input \<noteq> [] \<Longrightarrow> length rest < length input"
  by (auto simp: split_line_def Let_def split: if_splits)

lemma split_line_last:
  assumes "split_line input = (True, line, rest)"
  shows "line \<noteq> []"
proof -
  define n where "n = length (takeWhile (\<lambda>c. c \<noteq> LF) input)"
  have "n < length input" "line = take (n + 1) input"
    using assms unfolding split_line_def Let_def n_def [symmetric] by (simp_all split: if_splits)
  then show ?thesis by (cases input) simp_all
qed

section \<open>The state invariant\<close>

definition in_arguments :: "State \<Rightarrow> bool" where
  "in_arguments s \<longleftrightarrow> s \<noteq> kArrayStart \<and> s \<noteq> kInline \<and> s \<noteq> kArrayLength"

definition parser_ok :: "RespCommandParser \<Rightarrow> bool" where
  "parser_ok p \<longleftrightarrow>
     rp_terminator_bytes p \<le> 2 \<and> length (rp_length_text p) \<le> kMaxLengthTextBytes \<and>
     (if in_arguments (rp_state p) then 0 < rp_arguments_remaining p else rp_command p = new_command) \<and>
     length (rc_args (rp_command p)) + rp_arguments_remaining p \<le> kMaxArrayLen \<and>
     rc_capacity (rp_command p) \<le> 2 ^ 32 \<and>
     (rp_state p = kBulkData \<longrightarrow> length (rp_current_argument p) + rp_bulk_remaining p \<le> kMaxBulkLen) \<and>
     (rp_state p = kBulkTerminator \<longrightarrow> length (rp_current_argument p) \<le> kMaxBulkLen)"

lemma in_arguments_simps [simp]:
  "\<not> in_arguments kArrayStart" "\<not> in_arguments kInline" "\<not> in_arguments kArrayLength" "in_arguments kArgumentStart"
  "in_arguments kBulkLength" "in_arguments kBulkData" "in_arguments kBulkTerminator" "in_arguments kLineArgument"
  by (simp_all add: in_arguments_def)

lemma new_command_simps [simp]: "rc_args new_command = []" "rc_capacity new_command = 0"
  by (simp_all add: new_command_def)

lemma ResetCommand_simps [simp]:
  "rp_state (ResetCommand p) = kArrayStart" "rp_length_text (ResetCommand p) = []" "rp_command (ResetCommand p) = new_command"
  "rp_current_argument (ResetCommand p) = []" "rp_arguments_remaining (ResetCommand p) = 0"
  "rp_bulk_remaining (ResetCommand p) = 0" "rp_terminator_bytes (ResetCommand p) = 0" "rp_command_bytes (ResetCommand p) = 0"
  "rp_query_buffer_limit (ResetCommand p) = rp_query_buffer_limit p" "rp_argument_type (ResetCommand p) = rp_argument_type p"
  by (simp_all add: ResetCommand_def)

lemma parser_ok_Reset [simp]: "parser_ok (ResetCommand p)"
  by (simp add: parser_ok_def)

lemma parser_ok_charge [simp]: "parser_ok (charge n p) = parser_ok p"
  by (simp add: parser_ok_def)

lemma parser_ok_limit [simp]: "parser_ok (SetQueryBufferLimit n p) = parser_ok p"
  by (simp add: parser_ok_def SetQueryBufferLimit_def)

lemma parser_ok_new [simp]: "parser_ok (new_parser n)"
  by (simp add: parser_ok_def new_parser_def)

lemma push_ok:
  assumes "length (rc_args c) < kMaxArrayLen" "rc_capacity c \<le> 2 ^ 32"
  shows "\<exists>c'. PushArgument c a = Inr c' \<and> rc_args c' = rc_args c @ [a] \<and> rc_capacity c' \<le> 2 ^ 32"
  using assms by (auto simp: PushArgument_def ReserveArguments_def Let_def kMaxArrayLen_def size_max_def vector_max_size_def
      max_def)

lemma reserve_ok:
  "ReserveArguments new_command (min n kInitialArgCapacity) = Inr \<lparr>rc_args = [], rc_capacity = min n kInitialArgCapacity\<rparr>"
  by (auto simp: ReserveArguments_def new_command_def kInitialArgCapacity_def size_max_def vector_max_size_def max_def)

lemma initial_capacity [simp]: "min n kInitialArgCapacity \<le> 4294967296"
  by (simp add: kInitialArgCapacity_def)

lemma array_start_ok: "parser_ok p \<Longrightarrow> rp_state p = kArrayStart \<Longrightarrow> parser_ok (round_parser (array_start p input))"
  by (cases "dropWhile (\<lambda>c. c = CR \<or> c = LF) input") (simp_all add: array_start_def parser_ok_def Let_def)

lemma inline_start_ok:
  assumes "parser_ok p" "rp_state p = kInline"
  shows "parser_ok (round_parser (inline_start p input))"
proof -
  have "parser_ok (p\<lparr>rp_current_argument := a\<rparr>)" "parser_ok (charge n (p\<lparr>rp_current_argument := a\<rparr>)\<lparr>rp_current_argument := b\<rparr>)" for a b n
    using assms by (simp_all add: parser_ok_def)
  then show ?thesis
    using assms by (auto simp: inline_start_def inline_line_def after_consume_eq Let_def split: prod.split sum.split)
qed

lemma length_done_ok:
  assumes "parser_ok p" "rp_state p = (if array_length then kArrayLength else kBulkLength)"
  shows "parser_ok (round_parser (length_done array_length p rest))"
  using assms
  by (cases array_length)
    (auto simp: length_done_def parser_ok_def reserve_ok Let_def split: option.split)

lemma length_loop_ok:
  assumes "parser_ok p" "rp_state p = (if array_length then kArrayLength else kBulkLength)"
  shows "parser_ok (round_parser (length_loop array_length p input))"
  using assms
proof (induction input arbitrary: p)
  case (Cons v rest)
  have s: "rp_state p \<noteq> kArrayStart" using Cons.prems(2) by (auto split: if_splits)
  have "parser_ok (charge 1 (p\<lparr>rp_length_text := rp_length_text p @ [v]\<rparr>))" if "length (rp_length_text p) < kMaxLengthTextBytes"
    using Cons.prems(1) that by (simp add: parser_ok_def)
  then show ?case
    using Cons length_done_ok [of "charge 2 p" array_length] s
    by (auto simp: after_consume_eq split: list.split)
qed simp

lemma argument_start_ok:
  assumes "parser_ok p" "rp_state p = kArgumentStart"
  shows "parser_ok (round_parser (argument_start p input))"
  using assms by (auto simp: argument_start_def Let_def after_consume_eq parser_ok_def)

lemma argument_end_ok:
  assumes "parser_ok p" "in_arguments (rp_state p)"
  shows "parser_ok (round_parser (argument_end p rest))"
proof -
  have "length (rc_args (rp_command p)) < kMaxArrayLen" "rc_capacity (rp_command p) \<le> 2 ^ 32"
    using assms by (auto simp: parser_ok_def)
  then obtain c where c: "PushArgument (rp_command p) (rp_current_argument p) = Inr c"
      "rc_args c = rc_args (rp_command p) @ [rp_current_argument p]" "rc_capacity c \<le> 2 ^ 32"
    using push_ok by blast
  then show ?thesis using assms by (auto simp: argument_end_def Let_def parser_ok_def size_dec_def)
qed

lemma line_argument_ok:
  assumes "parser_ok p" "rp_state p = kLineArgument"
  shows "parser_ok (round_parser (line_argument p input))"
proof -
  have k: "parser_ok (p\<lparr>rp_current_argument := a\<rparr>)" "parser_ok (charge n (p\<lparr>rp_current_argument := a\<rparr>)\<lparr>rp_current_argument := b\<rparr>)" for a b n
    using assms by (simp_all add: parser_ok_def)
  then show ?thesis
    using assms
    by (auto simp: line_argument_def line_argument_end_def after_consume_eq Let_def argument_end_ok split: prod.split sum.split)
qed

lemma bulk_data_ok:
  assumes "parser_ok p" "rp_state p = kBulkData"
  shows "parser_ok (round_parser (bulk_data p input))"
  using assms by (auto simp: bulk_data_def bulk_data_end_def after_consume_eq Let_def parser_ok_def)

lemma bulk_end_ok:
  assumes "parser_ok p" "rp_state p = kBulkTerminator"
  shows "parser_ok (round_parser (bulk_end p rest))"
proof -
  have "parser_ok (p\<lparr>rp_current_argument := drop 4 (rp_current_argument p)\<rparr>)"
    using assms by (auto simp: parser_ok_def)
  then show ?thesis using assms by (auto simp: bulk_end_def argument_end_ok)
qed

lemma bulk_terminator_ok:
  assumes "parser_ok p" "rp_state p = kBulkTerminator"
  shows "parser_ok (round_parser (bulk_terminator p input))"
  using assms
proof (induction input arbitrary: p)
  case (Cons v rest)
  have "parser_ok (p\<lparr>rp_terminator_bytes := rp_terminator_bytes p + 1\<rparr>)" if "rp_terminator_bytes p < 2"
    using Cons.prems(1) that by (simp add: parser_ok_def)
  then show ?case using Cons bulk_end_ok [OF Cons.prems] by (auto simp: after_consume_eq)
qed (simp add: bulk_end_ok)

lemma parse_round_ok:
  assumes "parser_ok p"
  shows "parser_ok (round_parser (parse_round p input))"
  using assms
  by (cases "rp_state p")
    (simp_all add: parse_round_def array_start_ok inline_start_ok length_loop_ok argument_start_ok line_argument_ok
      bulk_data_ok bulk_terminator_ok)

section \<open>Progress\<close>

fun rank :: "State \<Rightarrow> nat" where
  "rank kBulkData = 3"
| "rank kBulkTerminator = 2"
| "rank kArrayStart = 1"
| "rank _ = 0"

definition distance :: "RespCommandParser \<Rightarrow> string \<Rightarrow> nat" where
  "distance p input = 4 * length input + rank (rp_state p)"

lemma rank_le: "rank s \<le> 3" by (cases s) simp_all

lemma distance_shorter: "length rest < length input \<Longrightarrow> distance p' rest < distance p input"
  using rank_le [of "rp_state p'"] by (simp add: distance_def)

text \<open>
  A round leaves a suffix of its input. When it goes on it has taken something, or the state has
  a smaller rank.
\<close>

definition moves :: "string \<Rightarrow> round \<Rightarrow> bool" where
  "moves input r \<longleftrightarrow> (\<exists>taken. input = taken @ round_rest r \<and> (taken \<noteq> [] \<or> (\<exists>out p rest. r = Return out p rest)))"

definition advances :: "RespCommandParser \<Rightarrow> string \<Rightarrow> round \<Rightarrow> bool" where
  "advances p input r \<longleftrightarrow>
     (\<exists>taken. input = taken @ round_rest r) \<and>
     (\<forall>p' rest. r = Continue p' rest \<longrightarrow> distance p' rest < distance p input)"

lemma movesI: "input = taken @ round_rest r \<Longrightarrow> taken \<noteq> [] \<Longrightarrow> moves input r"
  by (auto simp: moves_def)

lemma moves_Return [simp]: "moves input (Return out p input)"
  unfolding moves_def by (intro exI [of _ "[]"]) simp

lemma moves_more: "moves rest r \<Longrightarrow> moves (c # rest) r"
  unfolding moves_def by (metis append_Cons list.distinct(1))

lemma moves_advances: "moves input r \<Longrightarrow> advances p input r"
  unfolding moves_def advances_def by (auto intro: distance_shorter)

lemma rest_argument_end [simp]: "round_rest (argument_end p rest) = rest"
  by (simp add: argument_end_def Let_def split: sum.split)

lemma rest_length_done [simp]: "round_rest (length_done b p rest) = rest"
  by (simp add: length_done_def Let_def split: option.split sum.split)

lemma rest_ends [simp]:
  "round_rest (line_argument_end p rest) = rest" "round_rest (bulk_end p rest) = rest"
  "round_rest (inline_line p rest) = rest" "round_rest (bulk_data_end p rest) = rest"
  by (simp_all add: line_argument_end_def bulk_end_def inline_line_def bulk_data_end_def Let_def split: sum.split)

lemma split_line_moves:
  assumes "split_line input = (newline, line, rest)" "input \<noteq> []" "round_rest r = rest"
  shows "moves input r"
  using split_line_append [OF assms(1)] split_line_progress [OF assms(1,2)] assms(3) by (intro movesI [of _ line]) auto

lemma array_start_advances:
  assumes "rp_state p = kArrayStart" "input \<noteq> []"
  shows "advances p input (array_start p input)"
proof -
  let ?f = "\<lambda>c. c = CR \<or> c = LF"
  have i: "input = takeWhile ?f input @ dropWhile ?f input" by simp
  show ?thesis
  proof (cases "dropWhile ?f input")
    case Nil
    with i assms(2) show ?thesis
      by (intro moves_advances movesI [of _ input]) (simp_all add: array_start_def)
  next
    case (Cons c rest)
    show ?thesis
    proof (cases "c = CHR ''*''")
      case True
      with i Cons show ?thesis
        by (intro moves_advances movesI [of _ "takeWhile ?f input @ [c]"]) (simp_all add: array_start_def)
    next
      case False
      have "length (c # rest) \<le> length input" using length_dropWhile_le [of ?f input] by (simp add: Cons)
      then show ?thesis
        using i False assms(1) unfolding array_start_def Cons by (auto simp: advances_def distance_def)
    qed
  qed
qed

lemma inline_start_moves:
  assumes "rp_state p = kInline" "input \<noteq> []"
  shows "moves input (inline_start p input)"
proof -
  obtain newline line rest where l: "split_line input = (newline, line, rest)" by (cases "split_line input")
  show ?thesis
    using assms by (simp add: inline_start_def l after_consume_eq split_line_moves [OF l] split: sum.split)
qed

lemma line_argument_moves:
  assumes "rp_state p = kLineArgument" "input \<noteq> []"
  shows "moves input (line_argument p input)"
proof -
  obtain newline line rest where l: "split_line input = (newline, line, rest)" by (cases "split_line input")
  show ?thesis
    using assms by (simp add: line_argument_def l after_consume_eq split_line_moves [OF l] split: sum.split)
qed

lemma length_loop_moves:
  assumes "rp_state p \<noteq> kArrayStart" "input \<noteq> []"
  shows "moves input (length_loop b p input)"
  using assms
proof (induction input arbitrary: p)
  case (Cons v rest)
  have "moves (v # rest) (length_loop b q rest)" if "rp_state q \<noteq> kArrayStart" for q
    using Cons.IH [OF that] by (cases "rest = []") (auto intro: moves_more movesI [of _ "[v]"])
  moreover have "moves (v # c # rest') (length_done b q rest')" "moves (v # c # rest') (Return out q rest')" for c rest' q out
    by (auto intro: movesI [of _ "[v, c]"])
  moreover have "moves (v # rest) (Return out q rest)" for q out by (auto intro: movesI [of _ "[v]"])
  ultimately show ?case using Cons.prems(1) by (auto simp: after_consume_eq split: list.split)
qed simp

lemma argument_start_moves:
  assumes "rp_state p = kArgumentStart" "input \<noteq> []"
  shows "moves input (argument_start p input)"
  using assms by (cases input) (auto simp: argument_start_def Let_def after_consume_eq intro: movesI [of _ "[c]" for c])

lemma bulk_data_advances:
  assumes "rp_state p = kBulkData" "input \<noteq> []"
  shows "advances p input (bulk_data p input)"
proof (cases "rp_bulk_remaining p = 0")
  case True
  with assms show ?thesis by (auto simp: bulk_data_def bulk_data_end_def advances_def distance_def)
next
  case False
  let ?n = "min (length input) (rp_bulk_remaining p)"
  have "take ?n input \<noteq> []" using False assms(2) by auto
  then have m: "moves input r" if "round_rest r = drop ?n input" for r
    by (intro movesI [of _ "take ?n input"]) (simp only: that append_take_drop_id)
  from False assms show ?thesis by (simp add: bulk_data_def Let_def after_consume_eq moves_advances m)
qed

lemma bulk_terminator_moves:
  assumes "rp_state p = kBulkTerminator" "rp_terminator_bytes p < 2" "input \<noteq> []"
  shows "moves input (bulk_terminator p input)"
  using assms
proof (induction input arbitrary: p)
  case (Cons v rest)
  let ?q = "charge 1 (p\<lparr>rp_terminator_bytes := rp_terminator_bytes p + 1\<rparr>)"
  have "moves (v # rest) (bulk_terminator ?q rest)"
  proof (cases "rp_terminator_bytes ?q < 2 \<and> rest \<noteq> []")
    case True
    then show ?thesis using Cons.IH [of ?q] Cons.prems(1) by (simp add: moves_more)
  next
    case False
    then have "round_rest (bulk_terminator ?q rest) = rest" by (cases rest) simp_all
    then show ?thesis by (intro movesI [of _ "[v]"]) simp_all
  qed
  moreover have "moves (v # rest) (Return out q rest)" for q out by (rule movesI [of _ "[v]"]) simp_all
  ultimately show ?case using Cons.prems by (auto simp: after_consume_eq)
qed simp

lemma bulk_terminator_advances:
  assumes "rp_state p = kBulkTerminator" "rp_terminator_bytes p \<le> 2" "input \<noteq> []"
  shows "advances p input (bulk_terminator p input)"
proof (cases "rp_terminator_bytes p = 2")
  case True
  have "\<forall>q r. bulk_terminator p input = Continue q r \<longrightarrow> rp_state q = kArgumentStart \<and> r = input"
    using True assms(3)
    by (cases input) (auto simp: bulk_end_def argument_end_def Let_def split: if_splits sum.splits)
  moreover have "round_rest (bulk_terminator p input) = input" using True assms(3) by (cases input) simp_all
  ultimately show ?thesis using assms(1) by (auto simp: advances_def distance_def)
next
  case False
  with assms show ?thesis by (intro moves_advances bulk_terminator_moves) simp_all
qed

lemma parse_round_advances:
  assumes "parser_ok p" "input \<noteq> []"
  shows "advances p input (parse_round p input)"
proof -
  have "rp_terminator_bytes p \<le> 2" using assms(1) by (simp add: parser_ok_def)
  with assms(2) show ?thesis
    by (cases "rp_state p")
      (simp_all add: parse_round_def array_start_advances bulk_data_advances bulk_terminator_advances
        moves_advances inline_start_moves line_argument_moves length_loop_moves argument_start_moves)
qed

lemma parse_loop_returns:
  assumes "parser_ok p"
  shows "\<exists>out p' rest taken. parse_loop p input = Some (out, p', rest) \<and> input = taken @ rest \<and> parser_ok p'"
  using assms
proof (induction "distance p input" arbitrary: p input rule: less_induct)
  case less
  show ?case
  proof (cases "input = []")
    case True
    with less.prems show ?thesis by (simp add: parse_loop.simps)
  next
    case False
    note a = parse_round_advances [OF less.prems False] and ok = parse_round_ok [OF less.prems, of input]
    show ?thesis
    proof (cases "parse_round p input")
      case (Continue q rest)
      with a obtain taken where t: "input = taken @ rest" "distance q rest < distance p input" by (auto simp: advances_def)
      from less.hyps [OF t(2)] ok Continue obtain out p' rest' taken' where
        "parse_loop q rest = Some (out, p', rest')" "rest = taken' @ rest'" "parser_ok p'" by auto
      moreover from this have "parse_loop p input = Some (out, p', rest')"
        using False Continue by (simp add: parse_loop.simps [of p])
      ultimately show ?thesis using t(1) by (metis append_assoc)
    next
      case (Return out q rest)
      with a ok False show ?thesis by (auto simp: advances_def parse_loop.simps [of p])
    qed
  qed
qed

section \<open>Chunks\<close>

text \<open>
  Two results agree when they are equal or both report that the request is too large: where
  that is noticed depends on the chunks.
\<close>

definition agree :: "(outcome \<times> RespCommandParser \<times> string) option \<Rightarrow> (outcome \<times> RespCommandParser \<times> string) option \<Rightarrow> bool" where
  "agree x y \<longleftrightarrow> x = y \<or> (\<exists>p r q s. x = Some (Error ResourceExhausted, p, r) \<and> y = Some (Error ResourceExhausted, q, s))"

lemma agree_refl [simp]: "agree x x"
  by (simp add: agree_def)

lemma agree_Error [simp]: "agree (Some (Error ResourceExhausted, p, r)) (Some (Error ResourceExhausted, q, s))"
  by (simp add: agree_def)

lemma agree_trans: "agree x y \<Longrightarrow> agree y z \<Longrightarrow> agree x z"
  by (auto simp: agree_def)

fun resume :: "string \<Rightarrow> round \<Rightarrow> (outcome \<times> RespCommandParser \<times> string) option" where
  "resume b (Continue p a) = parse_loop p (a @ b)"
| "resume b (Return NeedMoreData p a) = parse_loop p (a @ b)"
| "resume b (Return out p a) = Some (out, p, a @ b)"

fun shift :: "string \<Rightarrow> round \<Rightarrow> round" where
  "shift b (Continue p rest) = Continue p (rest @ b)"
| "shift b (Return out p rest) = Return out p (rest @ b)"

definition never_waits :: "round \<Rightarrow> bool" where
  "never_waits r \<longleftrightarrow> (\<forall>p rest. r \<noteq> Return NeedMoreData p rest)"

definition run_round :: "round \<Rightarrow> (outcome \<times> RespCommandParser \<times> string) option" where
  "run_round r = (case r of Continue p rest \<Rightarrow> parse_loop p rest | Return out p rest \<Rightarrow> Some (out, p, rest))"

lemma run_round_simps [simp]:
  "run_round (Continue p rest) = parse_loop p rest" "run_round (Return out p rest) = Some (out, p, rest)"
  by (simp_all add: run_round_def)

lemma parse_loop_round: "input \<noteq> [] \<Longrightarrow> parse_loop p input = run_round (parse_round p input)"
  by (simp add: parse_loop.simps [of p] run_round_def)

lemma run_shift: "never_waits r \<Longrightarrow> run_round (shift b r) = resume b r"
  by (cases "(b, r)" rule: resume.cases) (auto simp: never_waits_def)

lemma parse_loop_Nil [simp]: "parse_loop p [] = Some (NeedMoreData, p, [])"
  by (simp add: parse_loop.simps)

lemma shift_argument_end: "argument_end p (rest @ b) = shift b (argument_end p rest)"
  unfolding argument_end_def Let_def
  by (cases "PushArgument (rp_command p) (rp_current_argument p)") (simp_all only: sum.case if_distrib [of "shift b"] shift.simps)

lemma shift_length_done: "length_done c p (rest @ b) = shift b (length_done c p rest)"
  by (simp add: length_done_def Let_def split: option.split sum.split)

lemma shift_line_argument_end: "line_argument_end p (rest @ b) = shift b (line_argument_end p rest)"
  unfolding line_argument_end_def Let_def shift_argument_end by (simp only: if_distrib [of "shift b"] shift.simps)

lemma shift_bulk_end: "bulk_end p (rest @ b) = shift b (bulk_end p rest)"
  unfolding bulk_end_def shift_argument_end by (simp only: if_distrib [of "shift b"] shift.simps)

lemma shift_inline_line: "inline_line p (rest @ b) = shift b (inline_line p rest)"
  by (cases "ParseInlineArguments (strip_cr (butlast (rp_current_argument p)))") (simp_all add: inline_line_def Let_def)

lemma shift_bulk_data_end: "bulk_data_end p (rest @ b) = shift b (bulk_data_end p rest)"
  by (simp add: bulk_data_end_def)

lemmas shift_ends = shift_line_argument_end shift_bulk_end shift_inline_line shift_bulk_data_end

lemma waits_argument_end [simp]: "never_waits (argument_end p rest)"
  by (auto simp: never_waits_def argument_end_def Let_def split: sum.splits if_splits)

lemma waits_length_done [simp]: "never_waits (length_done c p rest)"
  by (auto simp: never_waits_def length_done_def Let_def split: option.splits sum.splits if_splits)

lemma waits_ends [simp]: "never_waits (Continue p rest)" "never_waits (Return (Error e) p rest)"
  "never_waits (Return (Ok args) p rest)"
  by (simp_all add: never_waits_def)

lemma waits_line_ends [simp]: "never_waits (line_argument_end p rest)" "never_waits (bulk_end p rest)"
  "never_waits (inline_line p rest)" "never_waits (bulk_data_end p rest)"
  by (simp_all add: line_argument_end_def bulk_end_def inline_line_def bulk_data_end_def Let_def split: sum.split)

section \<open>Chunks of a line\<close>

text \<open>Inline commands and scalar arguments collect a line in the same way.\<close>

definition collect :: "(RespCommandParser \<Rightarrow> string \<Rightarrow> round) \<Rightarrow> RespCommandParser \<Rightarrow> string \<Rightarrow> round" where
  "collect k p input =
     (case split_line input of (newline, line, rest) \<Rightarrow>
        (case AppendArgument (rp_current_argument p) line of
           Inl e \<Rightarrow> Return (Error e) p input
         | Inr argument \<Rightarrow>
             after_consume (length line) (p\<lparr>rp_current_argument := argument\<rparr>) rest
               (\<lambda>p. if newline then k p rest else Continue p rest)))"

lemma split_line_True:
  assumes "split_line a = (True, l, r)"
  shows "split_line (a @ b) = (True, l, r @ b)"
proof -
  define n where "n = length (takeWhile (\<lambda>c. c \<noteq> LF) a)"
  have n: "n < length a" "l = take (n + 1) a" "r = drop (n + 1) a"
    using assms unfolding split_line_def Let_def n_def [symmetric] by (simp_all split: if_splits)
  have "a ! n = LF" using nth_length_takeWhile [of "\<lambda>c. c \<noteq> LF" a] n(1) unfolding n_def by simp
  then have "takeWhile (\<lambda>c. c \<noteq> LF) (a @ b) = takeWhile (\<lambda>c. c \<noteq> LF) a"
    using nth_mem [OF n(1)] by (auto simp: takeWhile_append)
  then show ?thesis using n by (simp add: split_line_def Let_def n_def)
qed

lemma split_line_False:
  assumes "split_line a = (False, l, r)"
  shows "l = a \<and> r = [] \<and> split_line (a @ b) = (case split_line b of (nl, l, r) \<Rightarrow> (nl, a @ l, r))"
proof -
  define n where "n = length (takeWhile (\<lambda>c. c \<noteq> LF) a)"
  have n: "\<not> n < length a" "l = a" "r = []"
    using assms unfolding split_line_def Let_def n_def [symmetric] by (simp_all split: if_splits)
  then have "takeWhile (\<lambda>c. c \<noteq> LF) a = a" unfolding n_def
    by (metis length_takeWhile_le nat_less_le takeWhile_eq_take take_all_iff not_le)
  then have "takeWhile (\<lambda>c. c \<noteq> LF) (a @ b) = a @ takeWhile (\<lambda>c. c \<noteq> LF) b"
    by (metis takeWhile_append2 takeWhile_eq_all_conv)
  then show ?thesis using n(2,3) by (simp add: split_line_def Let_def)
qed

lemma AppendArgument_split:
  "AppendArgument s (a @ l) = (case AppendArgument s a of Inl e \<Rightarrow> Inl ResourceExhausted | Inr t \<Rightarrow> AppendArgument t l)"
  by (auto simp: AppendArgument_def size_max_def string_max_size_def)

lemma AppendArgument_Inl: "AppendArgument s a = Inl e \<Longrightarrow> e = ResourceExhausted"
  by (simp add: AppendArgument_def split: if_splits)

lemma collect_chunk:
  assumes k: "\<And>q r. k q (r @ b) = shift b (k q r)" "\<And>q r. never_waits (k q r)"
    and s: "rp_state p \<noteq> kArrayStart" "\<And>q x. rp_state q = rp_state p \<Longrightarrow> parse_round q x = collect k q x"
    and a: "a \<noteq> []"
  shows "agree (parse_loop p (a @ b)) (resume b (collect k p a))"
proof -
  have e: "parse_loop p (a @ b) = run_round (collect k p (a @ b))" using a s(2) [of p] by (simp add: parse_loop_round)
  obtain newline l r where l: "split_line a = (newline, l, r)" by (cases "split_line a")
  show ?thesis
  proof (cases newline)
    case True
    have l1: "split_line a = (True, l, r)" using l True by simp
    note l' = split_line_True [OF l1, of b]
    show ?thesis
      using s(1) k unfolding e
      by (auto simp: collect_def l1 l' after_consume_eq run_shift split: sum.split)
  next
    case False
    have l1: "split_line a = (False, l, r)" using l False by simp
    have l': "l = a" "r = []" "split_line (a @ b) = (case split_line b of (nl, l, r) \<Rightarrow> (nl, a @ l, r))"
      using split_line_False [OF l1, of b] by simp_all
    obtain nl lb rb where lb: "split_line b = (nl, lb, rb)" by (cases "split_line b")
    show ?thesis
    proof (cases "\<exists>t. AppendArgument (rp_current_argument p) a = Inr t \<and> fits (length a) p")
      case False
      then have "\<exists>q x. collect k p a = Return (Error ResourceExhausted) q x"
        using s(1) by (auto simp: collect_def l1 l'(1,2) after_consume_eq split: sum.split dest: AppendArgument_Inl)
      moreover have "\<exists>q x. collect k p (a @ b) = Return (Error ResourceExhausted) q x"
        using False s(1)
        by (auto simp: collect_def l'(3) lb AppendArgument_split after_consume_eq fits_def split: sum.split dest: AppendArgument_Inl)
      ultimately show ?thesis unfolding e by auto
    next
      case True
      then obtain t where t: "AppendArgument (rp_current_argument p) a = Inr t" "fits (length a) p" by blast
      define q where "q = charge (length a) (p\<lparr>rp_current_argument := t\<rparr>)"
      have qa: "collect k p a = Continue q []"
        using t s(1) by (simp add: collect_def l1 l'(1,2) after_consume_eq q_def)
      have "run_round (collect k p (a @ b)) = parse_loop q b"  if "b = []"
        using qa that by simp
      moreover have "agree (run_round (collect k p (a @ b))) (run_round (collect k q b))"
      proof (cases "AppendArgument t lb")
        case (Inl e)
        then have "e = ResourceExhausted" by (rule AppendArgument_Inl)
        with Inl show ?thesis by (simp add: collect_def l'(3) lb AppendArgument_split t q_def)
      next
        case (Inr u)
        have f: "fits (length a + length lb) p \<longleftrightarrow> fits (length lb) q" by (simp add: fits_def q_def add.assoc)
        have c: "charge (length a + length lb) (p\<lparr>rp_current_argument := u\<rparr>) = charge (length lb) (q\<lparr>rp_current_argument := u\<rparr>)"
          by (simp add: charge_def q_def)
        have q: "rp_state q \<noteq> kArrayStart" "rp_current_argument q = t" using s(1) by (simp_all add: q_def)
        show ?thesis
          using s(1) q by (simp add: collect_def l'(3) lb AppendArgument_split t Inr after_consume_eq f c)
      qed
      moreover have "run_round (collect k q b) = parse_loop q b" if "b \<noteq> []"
        using that s(2) [of q] by (simp add: parse_loop_round q_def)
      ultimately show ?thesis unfolding e qa by (cases "b = []") auto
    qed
  qed
qed

section \<open>Chunks of the other states\<close>

lemma array_start_chunk:
  assumes "rp_state p = kArrayStart" "a \<noteq> []"
  shows "parse_loop p (a @ b) = resume b (array_start p a)"
proof -
  let ?f = "\<lambda>c. c = CR \<or> c = LF"
  have e: "parse_loop p x = run_round (array_start p x)" if "x \<noteq> []" for x
    using that assms(1) by (simp add: parse_loop_round parse_round_def)
  show ?thesis
  proof (cases "dropWhile ?f a")
    case Nil
    then have n: "array_start p (a @ b) = array_start p b" "array_start p a = Continue p []"
      by (simp_all add: array_start_def)
    show ?thesis
    proof (cases "b = []")
      case True
      then show ?thesis using e [of a] assms(2) by (simp add: n(2))
    next
      case False
      then show ?thesis using e [of "a @ b"] e [of b] by (simp add: n)
    qed
  next
    case (Cons c rest)
    then have "\<not> (\<forall>x\<in>set a. ?f x)" by (metis (mono_tags, lifting) dropWhile_eq_Nil_conv list.distinct(1))
    then have "dropWhile ?f (a @ b) = c # rest @ b" using Cons by (auto simp: dropWhile_append)
    then show ?thesis using e [of "a @ b"] assms(2) Cons by (simp add: array_start_def Let_def)
  qed
qed

text \<open>
  The length and terminator loops take one character at a time: after a prefix they go on in the
  same state, or have left it.
\<close>

fun go_on :: "(RespCommandParser \<Rightarrow> string \<Rightarrow> round) \<Rightarrow> State \<Rightarrow> string \<Rightarrow> round \<Rightarrow> round" where
  "go_on f s b (Continue p a) = (if rp_state p = s then f p b else Continue p (a @ b))"
| "go_on f s b (Return out p a) = (if out = NeedMoreData then f p (a @ b) else Return out p (a @ b))"

lemma go_on_shift:
  "never_waits r \<Longrightarrow> (\<And>p a. r = Continue p a \<Longrightarrow> rp_state p \<noteq> s) \<Longrightarrow> go_on f s b r = shift b r"
  by (cases r) (auto simp: never_waits_def)

lemma go_on_resume:
  assumes "\<And>q x. rp_state q = s \<Longrightarrow> parse_round q x = f q x"
    and "\<And>p a. r = Continue p a \<Longrightarrow> rp_state p = s \<Longrightarrow> a = [] \<and> run_round (f p []) = parse_loop p []"
    and "\<And>p a. r = Return NeedMoreData p a \<Longrightarrow> rp_state p = s \<and> a \<noteq> []"
  shows "run_round (go_on f s b r) = resume b r"
proof (cases r)
  case (Continue p a)
  show ?thesis
  proof (cases "rp_state p = s")
    case True
    then have a: "a = []" "run_round (f p []) = parse_loop p []" using assms(2) [OF Continue] by simp_all
    have "run_round (f p b) = parse_loop p b"
      using a(2) assms(1) [OF True, of b] parse_loop_round [of b p] by (cases "b = []") simp_all
    then show ?thesis using True by (simp only: Continue a go_on.simps resume.simps simp_thms if_True append_Nil)
  next
    case False
    then show ?thesis by (simp only: Continue go_on.simps resume.simps if_False run_round_simps)
  qed
next
  case (Return out p a)
  show ?thesis
  proof (cases "out = NeedMoreData")
    case True
    then have "rp_state p = s" "a @ b \<noteq> []" using Return assms(3) [of p a] by simp_all
    then have "run_round (f p (a @ b)) = parse_loop p (a @ b)" using assms(1) [of p] parse_loop_round by metis
    then show ?thesis using True by (simp only: Return go_on.simps resume.simps simp_thms if_True)
  next
    case False
    then show ?thesis using Return by (cases out) simp_all
  qed
qed

lemma length_done_leaves: "length_done c p r = Continue p' a \<Longrightarrow> rp_state p' \<noteq> kArrayLength \<and> rp_state p' \<noteq> kBulkLength"
  by (auto simp: length_done_def Let_def split: option.splits sum.splits if_splits)

lemma length_loop_append:
  assumes "rp_state p = (if c then kArrayLength else kBulkLength)"
  shows "length_loop c p (a @ b) = go_on (length_loop c) (rp_state p) b (length_loop c p a)"
  using assms
proof (induction a arbitrary: p)
  case (Cons v a)
  have s: "rp_state p \<noteq> kArrayStart" using Cons.prems by (simp split: if_splits)
  show ?case
  proof (cases "v = CR")
    case True
    have "length_done c (charge 2 p) (r @ b) = go_on (length_loop c) (rp_state p) b (length_done c (charge 2 p) r)" for r
      unfolding shift_length_done
    proof (rule go_on_shift [OF waits_length_done, symmetric])
      fix q x
      assume "length_done c (charge 2 p) r = Continue q x"
      from length_done_leaves [OF this] Cons.prems show "rp_state q \<noteq> rp_state p" by (simp split: if_splits)
    qed
    then have d: "after_consume 2 p (r @ b) (\<lambda>p. length_done c p (r @ b)) =
        go_on (length_loop c) (rp_state p) b (after_consume 2 p r (\<lambda>p. length_done c p r))" for r
      using s by (cases "fits 2 p") (simp_all add: after_consume_eq)
    show ?thesis
    proof (cases a)
      case Nil
      then show ?thesis using True by simp
    next
      case (Cons x r)
      then show ?thesis using True d [of r] by (cases "x = LF") simp_all
    qed
  next
    case False
    let ?p = "p\<lparr>rp_length_text := rp_length_text p @ [v]\<rparr>"
    have i: "length_loop c (charge n ?p) (a @ b) = go_on (length_loop c) (rp_state p) b (length_loop c (charge n ?p) a)" for n
      using Cons.IH [of "charge n ?p"] Cons.prems by simp
    have "after_consume 1 ?p (a @ b) (\<lambda>p. length_loop c p (a @ b)) =
        go_on (length_loop c) (rp_state p) b (after_consume 1 ?p a (\<lambda>p. length_loop c p a))"
      using s i by (cases "fits 1 p") (simp_all add: after_consume_eq)
    then show ?thesis using False by (cases "v = LF \<or> kMaxLengthTextBytes \<le> length (rp_length_text p)") simp_all
  qed
qed simp

lemma length_loop_shape:
  assumes "rp_state p = (if c then kArrayLength else kBulkLength)"
  shows "(length_loop c p a = Continue p' x \<longrightarrow> rp_state p' = rp_state p \<longrightarrow> x = []) \<and>
    (length_loop c p a = Return NeedMoreData p' x \<longrightarrow> rp_state p' = rp_state p \<and> x = [CR])"
  using assms
proof (induction a arbitrary: p)
  case (Cons v a)
  have s: "rp_state p \<noteq> kArrayStart" using Cons.prems by (simp split: if_splits)
  let ?q = "charge 1 (p\<lparr>rp_length_text := rp_length_text p @ [v]\<rparr>)"
  show ?case
  proof (cases "v = CR")
    case True
    have "length_done c (charge 2 p) r \<noteq> Return NeedMoreData p' x" for r
      using waits_length_done [of c "charge 2 p" r] by (simp add: never_waits_def)
    then show ?thesis
      using True s length_done_leaves [of c "charge 2 p"] Cons.prems by (cases a) (auto simp: after_consume_eq)
  next
    case False
    then show ?thesis using s Cons.IH [of ?q] Cons.prems by (simp add: after_consume_eq)
  qed
qed simp

lemma length_loop_chunk:
  assumes "rp_state p = (if c then kArrayLength else kBulkLength)" "a \<noteq> []"
  shows "parse_loop p (a @ b) = resume b (length_loop c p a)"
proof -
  have r: "parse_round q x = length_loop c q x" if "rp_state q = rp_state p" for q x
    using that assms(1) by (cases c) (simp_all add: parse_round_def)
  have "parse_loop p (a @ b) = run_round (go_on (length_loop c) (rp_state p) b (length_loop c p a))"
    using assms(2) r [of p] length_loop_append [OF assms(1)] by (simp add: parse_loop_round)
  also have "\<dots> = resume b (length_loop c p a)"
    by (rule go_on_resume [OF r]) (use length_loop_shape [OF assms(1)] in auto)
  finally show ?thesis .
qed

lemma bulk_end_leaves:
  "bulk_end p r = Continue p' a \<Longrightarrow> rp_state p = kBulkTerminator \<Longrightarrow>
     rp_state p' \<noteq> kBulkTerminator \<or> rp_terminator_bytes p \<noteq> 2 \<and> p' = p"
  by (auto simp: bulk_end_def argument_end_def Let_def split: sum.splits if_splits)

lemma bulk_end_go_on:
  assumes "rp_state p = kBulkTerminator" "rp_terminator_bytes p = 2"
  shows "bulk_end p (r @ b) = go_on f kBulkTerminator b (bulk_end p r)"
  unfolding shift_bulk_end
proof (rule go_on_shift [symmetric])
  fix q x
  assume "bulk_end p r = Continue q x"
  from bulk_end_leaves [OF this assms(1)] assms(2) show "rp_state q \<noteq> kBulkTerminator" by simp
qed simp

lemma bulk_terminator_append:
  assumes "rp_state p = kBulkTerminator" "rp_terminator_bytes p \<le> 2"
  shows "bulk_terminator p (a @ b) = go_on bulk_terminator kBulkTerminator b (bulk_terminator p a)"
  using assms
proof (induction a arbitrary: p)
  case Nil
  show ?case
  proof (cases "rp_terminator_bytes p = 2")
    case True
    then have "bulk_terminator p b = bulk_end p ([] @ b)" by (cases b) simp_all
    also have "\<dots> = go_on bulk_terminator kBulkTerminator b (bulk_end p [])"
      by (rule bulk_end_go_on [OF Nil.prems(1) True])
    finally show ?thesis by (simp only: append_Nil bulk_terminator.simps(1))
  next
    case False
    with Nil show ?thesis by (simp add: bulk_end_def)
  qed
next
  case (Cons v a)
  let ?p = "p\<lparr>rp_terminator_bytes := rp_terminator_bytes p + 1\<rparr>"
  show ?case
  proof (cases "rp_terminator_bytes p < 2")
    case True
    then have i: "bulk_terminator (charge 1 ?p) (a @ b) = go_on bulk_terminator kBulkTerminator b (bulk_terminator (charge 1 ?p) a)"
      by (intro Cons.IH) (use Cons.prems in simp_all)
    have "after_consume 1 ?p (a @ b) (\<lambda>p. bulk_terminator p (a @ b)) =
        go_on bulk_terminator kBulkTerminator b (after_consume 1 ?p a (\<lambda>p. bulk_terminator p a))"
      using Cons.prems(1) by (subst (1 2) after_consume_eq) (simp, cases "fits 1 ?p", simp_all only: i if_True if_False go_on.simps, simp)
    then show ?thesis
      using True by (cases "v = (if rp_terminator_bytes p = 0 then CR else LF)") (simp_all only: append_Cons bulk_terminator.simps simp_thms if_True if_False, simp)
  next
    case False
    then have "rp_terminator_bytes p = 2" using Cons.prems by simp
    from bulk_end_go_on [OF Cons.prems(1) this, of "v # a"] False show ?thesis
      by (simp only: append_Cons bulk_terminator.simps if_False)
  qed
qed

lemma bulk_terminator_shape:
  assumes "rp_state p = kBulkTerminator" "rp_terminator_bytes p \<le> 2"
  shows "(bulk_terminator p a = Continue p' x \<longrightarrow> rp_state p' = kBulkTerminator \<longrightarrow> x = [] \<and> rp_terminator_bytes p' \<noteq> 2) \<and>
    bulk_terminator p a \<noteq> Return NeedMoreData p' x"
  using assms
proof (induction a arbitrary: p)
  case Nil
  have "bulk_end p [] \<noteq> Return NeedMoreData p' x" using waits_line_ends(2) [of p "[]"] by (simp add: never_waits_def)
  moreover have "round_rest (bulk_end p []) = []" by simp
  ultimately show ?case using bulk_end_leaves [of p "[]" p' x] Nil by (metis bulk_terminator.simps(1) round_rest.simps(1))
next
  case (Cons v a)
  let ?q = "charge 1 (p\<lparr>rp_terminator_bytes := rp_terminator_bytes p + 1\<rparr>)"
  show ?case
  proof (cases "rp_terminator_bytes p < 2")
    case True
    then show ?thesis using Cons.IH [of ?q] Cons.prems by (auto simp: after_consume_eq)
  next
    case False
    have "bulk_end p (v # a) \<noteq> Return NeedMoreData p' x"
      using waits_line_ends(2) [of p "v # a"] by (simp add: never_waits_def)
    then show ?thesis using False bulk_end_leaves [of p "v # a" p' x] Cons.prems by auto
  qed
qed

lemma bulk_terminator_chunk:
  assumes "rp_state p = kBulkTerminator" "rp_terminator_bytes p \<le> 2" "a \<noteq> []"
  shows "parse_loop p (a @ b) = resume b (bulk_terminator p a)"
proof -
  have r: "parse_round q x = bulk_terminator q x" if "rp_state q = kBulkTerminator" for q x
    using that by (simp add: parse_round_def)
  have "parse_loop p (a @ b) = run_round (go_on bulk_terminator kBulkTerminator b (bulk_terminator p a))"
    using assms r [of p] bulk_terminator_append [OF assms(1,2)] by (simp add: parse_loop_round)
  also have "\<dots> = resume b (bulk_terminator p a)"
    by (rule go_on_resume [OF r]) (use bulk_terminator_shape [OF assms(1,2), of a] in \<open>auto simp: bulk_end_def\<close>)
  finally show ?thesis .
qed

lemma bulk_data_chunk:
  assumes "rp_state p = kBulkData" "a \<noteq> []"
  shows "agree (parse_loop p (a @ b)) (resume b (bulk_data p a))"
proof -
  have e: "parse_loop q x = run_round (bulk_data q x)" if "x \<noteq> []" "rp_state q = kBulkData" for q x
    using that by (simp add: parse_loop_round parse_round_def)
  show ?thesis
  proof (cases "rp_bulk_remaining p \<le> length a")
    case True
    then have "bulk_data p (a @ b) = shift b (bulk_data p a) \<and> never_waits (bulk_data p a)"
      using assms(1) by (auto simp: bulk_data_def Let_def after_consume_eq shift_bulk_data_end)
    then show ?thesis using e [of "a @ b" p] assms by (simp add: run_shift)
  next
    case False
    define q where "q = charge (length a) (p\<lparr>rp_current_argument := rp_current_argument p @ a,
        rp_bulk_remaining := rp_bulk_remaining p - length a\<rparr>)"
    have n: "min (length a) (rp_bulk_remaining p) = length a" using False by simp
    show ?thesis
    proof (cases "fits (length a) p")
      case True
      then have qa: "bulk_data p a = Continue q []"
        using n assms False by (simp add: bulk_data_def bulk_data_end_def after_consume_eq Let_def q_def)
      show ?thesis
      proof (cases "b = []")
        case True
        then show ?thesis using e [OF assms(2,1)] qa by simp
      next
        case b: False
        let ?m = "min (length b) (rp_bulk_remaining p - length a)"
        have m: "min (length a + length b) (rp_bulk_remaining p) = length a + ?m" "?m \<noteq> 0" using False b by auto
        have f: "fits (length a + ?m) p \<longleftrightarrow> fits ?m q" by (simp add: fits_def q_def add.assoc)
        have c: "charge (length a + ?m) (p\<lparr>rp_current_argument := rp_current_argument p @ a @ take ?m b,
              rp_bulk_remaining := rp_bulk_remaining p - (length a + ?m)\<rparr>) =
            charge ?m (q\<lparr>rp_current_argument := rp_current_argument q @ take ?m b,
              rp_bulk_remaining := rp_bulk_remaining q - ?m\<rparr>)"
          by (simp add: charge_def q_def)
        have "bulk_data q b = (if fits ?m q then bulk_data_end (charge ?m (q\<lparr>rp_current_argument := rp_current_argument q @ take ?m b,
              rp_bulk_remaining := rp_bulk_remaining q - ?m\<rparr>)) (drop ?m b)
            else Return (Error ResourceExhausted) (q\<lparr>rp_current_argument := rp_current_argument q @ take ?m b,
              rp_bulk_remaining := rp_bulk_remaining q - ?m\<rparr>) (drop ?m b))"
          using m(2) assms(1) by (simp add: bulk_data_def Let_def after_consume_eq q_def)
        moreover have "bulk_data p (a @ b) = (if fits ?m q then bulk_data_end (charge (length a + ?m)
              (p\<lparr>rp_current_argument := rp_current_argument p @ a @ take ?m b,
                 rp_bulk_remaining := rp_bulk_remaining p - (length a + ?m)\<rparr>)) (drop ?m b)
            else Return (Error ResourceExhausted) (p\<lparr>rp_current_argument := rp_current_argument p @ a @ take ?m b,
                 rp_bulk_remaining := rp_bulk_remaining p - (length a + ?m)\<rparr>) (drop ?m b))"
          using m assms(1) by (simp add: bulk_data_def Let_def after_consume_eq f)
        ultimately have "agree (run_round (bulk_data p (a @ b))) (run_round (bulk_data q b))" by (simp add: c)
        then show ?thesis using e [of "a @ b" p] e [of b q] assms b by (simp add: qa q_def)
      qed
    next
      case f: False
      then have "\<exists>q x. bulk_data p a = Return (Error ResourceExhausted) q x"
        using n assms by (simp add: bulk_data_def after_consume_eq)
      moreover have "\<not> fits (min (length (a @ b)) (rp_bulk_remaining p)) p" using f False by (auto simp: fits_def)
      then have "\<exists>q x. bulk_data p (a @ b) = Return (Error ResourceExhausted) q x"
        using assms False by (simp add: bulk_data_def after_consume_eq Let_def)
      ultimately show ?thesis using e [of "a @ b" p] assms by auto
    qed
  qed
qed

lemma argument_start_chunk:
  assumes "rp_state p = kArgumentStart" "a \<noteq> []"
  shows "parse_loop p (a @ b) = resume b (argument_start p a)"
proof -
  obtain c r where a: "a = c # r" using assms(2) by (cases a) simp_all
  let ?p = "p\<lparr>rp_argument_type := c\<rparr>"
  let ?k = "\<lambda>p rest. Continue (p\<lparr>rp_current_argument := [],
      rp_state := if rp_argument_type p \<in> set ''$='' then kBulkLength else kLineArgument\<rparr>) rest"
  have s: "argument_start p (c # x) = (if c \<notin> set ''$=+:,(#'' then Return (Error InvalidArgument) ?p (c # x)
      else if fits 1 p then ?k (charge 1 ?p) x else Return (Error ResourceExhausted) ?p x)" for x
    unfolding argument_start_def Let_def using assms(1) by (subst after_consume_eq) (simp, simp only: fits_simps list.sel)
  have "argument_start p (a @ b) = shift b (argument_start p a)" "never_waits (argument_start p a)"
    unfolding a append_Cons s by (simp_all only: if_distrib [of "shift b"] if_distrib [of never_waits] shift.simps append_Cons waits_ends if_cancel)
  then show ?thesis using assms by (simp add: parse_loop_round parse_round_def run_shift)
qed

lemma round_chunk:
  assumes "parser_ok p" "a \<noteq> []"
  shows "agree (parse_loop p (a @ b)) (resume b (parse_round p a))"
proof -
  have t: "rp_terminator_bytes p \<le> 2" using assms(1) by (simp add: parser_ok_def)
  have i: "inline_start = collect inline_line" "line_argument = collect line_argument_end"
    by (rule ext, rule ext, simp add: inline_start_def line_argument_def collect_def)+
  show ?thesis
  proof (cases "rp_state p")
    case kInline
    then have "agree (parse_loop p (a @ b)) (resume b (collect inline_line p a))"
      using assms(2) by (intro collect_chunk) (simp_all add: shift_ends parse_round_def i)
    with kInline show ?thesis by (simp add: parse_round_def i)
  next
    case kLineArgument
    then have "agree (parse_loop p (a @ b)) (resume b (collect line_argument_end p a))"
      using assms(2) by (intro collect_chunk) (simp_all add: shift_ends parse_round_def i)
    with kLineArgument show ?thesis by (simp add: parse_round_def i)
  next
    case kBulkData
    then show ?thesis using bulk_data_chunk [OF kBulkData assms(2)] by (simp add: parse_round_def)
  qed (use assms(2) t array_start_chunk [of p a b] length_loop_chunk [of p True a b] length_loop_chunk [of p False a b]
      argument_start_chunk [of p a b] bulk_terminator_chunk [of p a b] in \<open>simp_all add: parse_round_def\<close>)
qed

lemma loop_chunk:
  assumes "parser_ok p" "parse_loop p a = Some (out, q, rest)"
  shows "agree (parse_loop p (a @ b)) (resume b (Return out q rest))"
  using assms
proof (induction "distance p a" arbitrary: p a rule: less_induct)
  case less
  show ?case
  proof (cases "a = []")
    case True
    with less.prems show ?thesis by auto
  next
    case False
    note c = round_chunk [OF less.prems(1) False, of b] and adv = parse_round_advances [OF less.prems(1) False]
    show ?thesis
    proof (cases "parse_round p a")
      case (Continue p' a')
      then have "distance p' a' < distance p a" "parse_loop p' a' = Some (out, q, rest)"
        using adv less.prems(2) parse_loop_round [OF False, of p] by (simp_all add: advances_def)
      moreover have "parser_ok p'" using parse_round_ok [OF less.prems(1), of a] Continue by simp
      ultimately have "agree (parse_loop p' (a' @ b)) (resume b (Return out q rest))" by (intro less.hyps)
      with c Continue show ?thesis by (simp add: agree_trans)
    next
      case (Return out' p' a')
      with less.prems(2) parse_loop_round [OF False, of p] c show ?thesis by simp
    qed
  qed
qed

lemma wait_leaves:
  assumes "parser_ok p" "parse_loop p a = Some (NeedMoreData, q, rest)"
  shows "rest = [] \<or> rest = [CR]"
  using assms
proof (induction "distance p a" arbitrary: p a rule: less_induct)
  case less
  show ?case
  proof (cases "a = []")
    case False
    note adv = parse_round_advances [OF less.prems(1) False]
    show ?thesis
    proof (cases "parse_round p a")
      case (Continue p' a')
      then have "distance p' a' < distance p a" "parse_loop p' a' = Some (NeedMoreData, q, rest)"
        using adv less.prems(2) parse_loop_round [OF False, of p] by (simp_all add: advances_def)
      moreover have "parser_ok p'" using parse_round_ok [OF less.prems(1), of a] Continue by simp
      ultimately show ?thesis by (intro less.hyps)
    next
      case (Return out' p' a')
      then have w: "parse_round p a = Return NeedMoreData q rest"
        using less.prems(2) parse_loop_round [OF False, of p] by simp
      then have "\<not> never_waits (parse_round p a)" by (simp add: never_waits_def)
      moreover have "rp_state p = kBulkTerminator \<Longrightarrow> never_waits (bulk_terminator p a)"
        using bulk_terminator_shape [of p a] less.prems(1) by (simp add: never_waits_def parser_ok_def)
      ultimately obtain c where "rp_state p = (if c then kArrayLength else kBulkLength)"
        using False
        by (cases "rp_state p")
          (auto simp: parse_round_def array_start_def inline_start_def line_argument_def argument_start_def bulk_data_def
            after_consume_eq Let_def split: prod.splits sum.splits if_splits)
      with length_loop_shape [OF this, of a q rest] w show ?thesis by (cases c) (simp_all add: parse_round_def)
    qed
  qed (use less.prems in simp)
qed

section \<open>Retained bytes\<close>

text \<open>The bytes a parser keeps between two calls, and the states that keep at most what they have accounted for.\<close>

definition retained :: "RespCommandParser \<Rightarrow> nat" where
  "retained p =
     length (rp_length_text p) + sum_list (map length (rc_args (rp_command p))) + length (rp_current_argument p)"

definition within :: "nat \<Rightarrow> RespCommandParser \<Rightarrow> bool" where
  "within bound p \<longleftrightarrow>
     retained p \<le> rp_command_bytes p \<and> rp_command_bytes p \<le> bound \<and> rp_query_buffer_limit p \<le> bound \<and>
     (rp_state p = kArrayStart \<longrightarrow> retained p = 0)"

definition fails :: "round \<Rightarrow> bool" where
  "fails r \<longleftrightarrow> (\<exists>e p rest. r = Return (Error e) p rest)"

lemma fails_simps [simp]:
  "fails (Return (Error e) p rest)" "\<not> fails (Return (Ok args) p rest)" "\<not> fails (Return NeedMoreData p rest)"
  "\<not> fails (Continue p rest)"
  by (simp_all add: fails_def)

lemma within_Reset [simp]: "rp_query_buffer_limit p \<le> bound \<Longrightarrow> within bound (ResetCommand p)"
  by (simp add: within_def retained_def)

lemma within_charge: "fits n p \<Longrightarrow> rp_query_buffer_limit p \<le> bound \<Longrightarrow> retained p \<le> rp_command_bytes p + n \<Longrightarrow>
    rp_state p \<noteq> kArrayStart \<Longrightarrow> within bound (charge n p)"
  by (simp add: within_def retained_def fits_def)

lemma retained_Push: "PushArgument c a = Inr c' \<Longrightarrow> sum_list (map length (rc_args c')) = sum_list (map length (rc_args c)) + length a"
  by (auto simp: PushArgument_def ReserveArguments_def Let_def split: sum.splits if_splits)

lemma AppendArgument_Inr: "AppendArgument s a = Inr t \<Longrightarrow> t = s @ a"
  by (simp add: AppendArgument_def split: if_splits)

lemma ReserveArguments_args: "ReserveArguments c n = Inr c' \<Longrightarrow> rc_args c' = rc_args c"
  by (auto simp: ReserveArguments_def Let_def split: if_splits)

lemma retained_control:
  "retained (p\<lparr>rp_command_bytes := n\<rparr>) = retained p" "retained (p\<lparr>rp_state := s\<rparr>) = retained p"
  "retained (p\<lparr>rp_current_argument := []\<rparr>) \<le> retained p"
  by (simp_all add: retained_def)

lemma array_start_within:
  assumes "within bound p" "0 < bound" "rp_state p = kArrayStart"
  shows "within bound (round_parser (array_start p input))"
proof -
  have "retained p = 0" "retained (p\<lparr>rp_current_argument := []\<rparr>) = 0"
    using assms(1,3) retained_control(3) [of p] by (simp_all add: within_def)
  moreover have "retained (p\<lparr>rp_command_bytes := n, rp_current_argument := [], rp_state := s\<rparr>) = retained (p\<lparr>rp_current_argument := []\<rparr>)" for n s
    by (simp add: retained_def)
  ultimately show ?thesis
    using assms
    by (cases "dropWhile (\<lambda>c. c = CR \<or> c = LF) input") (simp_all add: array_start_def Let_def within_def retained_control)
qed

lemma argument_end_within:
  assumes "within bound p" "rp_state p \<noteq> kArrayStart" "\<not> fails (argument_end p rest)"
  shows "within bound (round_parser (argument_end p rest))"
  using assms retained_Push [of "rp_command p" "rp_current_argument p"]
  by (auto simp: argument_end_def Let_def within_def retained_def split: sum.splits)

lemma shorter_argument_within:
  "within bound p \<Longrightarrow> rp_state p \<noteq> kArrayStart \<Longrightarrow> length a \<le> length (rp_current_argument p) \<Longrightarrow>
     within bound (p\<lparr>rp_current_argument := a\<rparr>)"
  by (simp add: within_def retained_def)

lemma line_argument_end_within:
  assumes "within bound p" "rp_state p = kLineArgument" "\<not> fails (line_argument_end p rest)"
  shows "within bound (round_parser (line_argument_end p rest))"
  using assms
  by (auto simp: line_argument_end_def Let_def intro!: argument_end_within shorter_argument_within split: if_splits)

lemma collect_within:
  assumes "within bound p" "rp_state p \<noteq> kArrayStart" "\<not> fails (collect k p input)"
    and "\<And>q r. within bound q \<Longrightarrow> rp_state q = rp_state p \<Longrightarrow> \<not> fails (k q r) \<Longrightarrow> within bound (round_parser (k q r))"
  shows "within bound (round_parser (collect k p input))"
proof -
  obtain newline line rest where l: "split_line input = (newline, line, rest)" by (cases "split_line input")
  obtain t where t: "AppendArgument (rp_current_argument p) line = Inr t"
    using assms(3) by (cases "AppendArgument (rp_current_argument p) line") (simp_all add: collect_def l)
  let ?q = "charge (length line) (p\<lparr>rp_current_argument := t\<rparr>)"
  have f: "fits (length line) p" using assms(2,3) by (simp add: collect_def l t after_consume_eq split: if_splits)
  have "within bound ?q"
    using assms(1,2) AppendArgument_Inr [OF t] f by (intro within_charge) (simp_all add: within_def retained_def)
  moreover have "collect k p input = (if newline then k ?q rest else Continue ?q rest)"
    using assms(2) f by (simp add: collect_def l t after_consume_eq)
  ultimately show ?thesis using assms(3,4) by (cases newline) simp_all
qed

lemma inline_line_within:
  assumes "within bound p" "\<not> fails (inline_line p rest)"
  shows "within bound (round_parser (inline_line p rest))"
  using assms by (auto simp: inline_line_def Let_def within_def [of bound p] split: sum.splits)

lemma length_done_within:
  assumes "within bound p" "rp_state p \<noteq> kArrayStart" "\<not> fails (length_done c p rest)"
  shows "within bound (round_parser (length_done c p rest))"
  using assms ReserveArguments_args [of "rp_command p"]
  by (auto simp: length_done_def Let_def within_def retained_def split: option.splits sum.splits if_splits)

lemma length_loop_within:
  assumes "within bound p" "rp_state p \<noteq> kArrayStart" "\<not> fails (length_loop c p input)"
  shows "within bound (round_parser (length_loop c p input))"
  using assms
proof (induction input arbitrary: p)
  case (Cons v rest)
  let ?p = "p\<lparr>rp_length_text := rp_length_text p @ [v]\<rparr>"
  have w: "within bound (charge n ?p)" if "fits n p" "1 \<le> n" for n
    using Cons.prems(1,2) that by (intro within_charge) (simp_all add: within_def retained_def)
  have w2: "within bound (charge 2 p)" if "fits 2 p"
    using Cons.prems(1,2) that by (intro within_charge) (simp_all add: within_def retained_def)
  show ?case
  proof (cases "v = CR")
    case True
    then show ?thesis
      using Cons.prems w2 length_done_within [of bound "charge 2 p"]
      by (cases rest) (auto simp: after_consume_eq split: if_splits)
  next
    case False
    then show ?thesis using Cons.prems Cons.IH [of "charge 1 ?p"] w [of 1] by (auto simp: after_consume_eq split: if_splits)
  qed
qed simp

lemma argument_start_within:
  assumes "within bound p" "rp_state p = kArgumentStart" "\<not> fails (argument_start p input)"
  shows "within bound (round_parser (argument_start p input))"
  using assms by (auto simp: argument_start_def Let_def after_consume_eq within_def retained_def fits_def split: if_splits)

lemma bulk_data_within:
  assumes "within bound p" "rp_state p = kBulkData" "\<not> fails (bulk_data p input)"
  shows "within bound (round_parser (bulk_data p input))"
  using assms
  by (auto simp: bulk_data_def bulk_data_end_def Let_def after_consume_eq within_def retained_def fits_def split: if_splits)

lemma bulk_end_within:
  assumes "within bound p" "rp_state p = kBulkTerminator" "\<not> fails (bulk_end p rest)"
  shows "within bound (round_parser (bulk_end p rest))"
  using assms by (auto simp: bulk_end_def intro!: argument_end_within shorter_argument_within split: if_splits)

lemma bulk_terminator_within:
  assumes "within bound p" "rp_state p = kBulkTerminator" "\<not> fails (bulk_terminator p input)"
  shows "within bound (round_parser (bulk_terminator p input))"
  using assms
proof (induction input arbitrary: p)
  case (Cons v rest)
  let ?p = "p\<lparr>rp_terminator_bytes := rp_terminator_bytes p + 1\<rparr>"
  have "within bound (charge 1 ?p)" if "fits 1 p"
    using Cons.prems(1,2) that by (intro within_charge) (simp_all add: within_def retained_def)
  then show ?case
    using Cons.prems Cons.IH [of "charge 1 ?p"] bulk_end_within [of bound p "v # rest"] by (auto simp: after_consume_eq split: if_splits)
qed (simp add: bulk_end_within)

lemma parse_round_within:
  assumes "within bound p" "0 < bound" "\<not> fails (parse_round p input)"
  shows "within bound (round_parser (parse_round p input))"
proof -
  have i: "inline_start = collect inline_line" "line_argument = collect line_argument_end"
    by (rule ext, rule ext, simp add: inline_start_def line_argument_def collect_def)+
  show ?thesis
    using assms
    by (cases "rp_state p")
      (simp_all add: parse_round_def i array_start_within length_loop_within argument_start_within bulk_data_within
        bulk_terminator_within collect_within inline_line_within line_argument_end_within)
qed

lemma parse_loop_within:
  assumes "parser_ok p" "within bound p" "0 < bound" "parse_loop p a = Some (out, q, rest)" "\<And>e. out \<noteq> Error e"
  shows "within bound q"
  using assms(1,2,4)
proof (induction "distance p a" arbitrary: p a rule: less_induct)
  case less
  show ?case
  proof (cases "a = []")
    case False
    note l = less.prems(3) [unfolded parse_loop_round [OF False]]
    show ?thesis
    proof (cases "parse_round p a")
      case (Continue p' a')
      then have "distance p' a' < distance p a" "parse_loop p' a' = Some (out, q, rest)"
        using parse_round_advances [OF less.prems(1) False] l by (simp_all add: advances_def)
      moreover have "parser_ok p'" using parse_round_ok [OF less.prems(1), of a] Continue by simp
      moreover have "within bound p'" using parse_round_within [OF less.prems(2) assms(3), of a] Continue by simp
      ultimately show ?thesis by (intro less.hyps)
    next
      case (Return out' p' a')
      then have "\<not> fails (parse_round p a)" using l assms(5) by (auto simp: fails_def)
      from parse_round_within [OF less.prems(2) assms(3) this] Return l show ?thesis by simp
    qed
  qed (use less.prems in simp)
qed

section \<open>A lowered limit\<close>

text \<open>
  A parser that keeps more than its limit allows, after the limit was lowered, cannot take another
  byte of the request. The terminator count is below two whenever a round begins.
\<close>

definition settled :: "RespCommandParser \<Rightarrow> bool" where
  "settled p \<longleftrightarrow> (rp_state p = kBulkTerminator \<longrightarrow> rp_terminator_bytes p < 2)"

definition over_limit :: "RespCommandParser \<Rightarrow> bool" where
  "over_limit p \<longleftrightarrow> rp_state p \<noteq> kArrayStart \<and> rp_query_buffer_limit p < rp_command_bytes p"

lemma over_limit_fits: "over_limit p \<Longrightarrow> \<not> fits n p"
  by (simp add: over_limit_def fits_def)

lemma over_limit_collect: "over_limit p \<Longrightarrow> fails (collect k p input)"
  using over_limit_fits [of p]
  by (auto simp: collect_def after_consume_eq over_limit_def split: prod.splits sum.splits)

lemma over_limit_length:
  assumes "over_limit p" "input \<noteq> []" "\<not> fails (length_loop c p input)"
  shows "length_loop c p input = Return NeedMoreData p input"
proof -
  obtain v rest where i: "input = v # rest" using assms(2) by (cases input) auto
  show ?thesis
    using assms(1,3) over_limit_fits [OF assms(1)] unfolding i
    by (cases rest) (auto simp: after_consume_eq over_limit_def split: if_splits)
qed

lemma over_limit_round:
  assumes "over_limit p" "settled p" "input \<noteq> []" "\<not> fails (parse_round p input)"
  shows "parse_round p input = Return NeedMoreData p input \<or>
    parse_round p input = Continue (p\<lparr>rp_terminator_bytes := 0, rp_state := kBulkTerminator\<rparr>) input \<and> rp_state p = kBulkData"
proof -
  have i: "inline_start = collect inline_line" "line_argument = collect line_argument_end"
    by (rule ext, rule ext, simp add: inline_start_def line_argument_def collect_def)+
  note no = over_limit_fits [OF assms(1)]
  have active: "rp_state p \<noteq> kArrayStart" using assms(1) by (simp add: over_limit_def)
  show ?thesis
  proof (cases "rp_state p")
    case kArgumentStart
    then show ?thesis using assms(4) no by (auto simp: parse_round_def argument_start_def Let_def after_consume_eq split: if_splits)
  next
    case kBulkData
    then show ?thesis using assms(3,4) no
      by (auto simp: parse_round_def bulk_data_def bulk_data_end_def Let_def after_consume_eq split: if_splits)
  next
    case kBulkTerminator
    then show ?thesis using assms(2-4) no by (cases input) (auto simp: parse_round_def settled_def after_consume_eq split: if_splits)
  qed (use assms active over_limit_collect over_limit_length in \<open>auto simp: parse_round_def i\<close>)
qed

lemma over_limit_loop:
  assumes "parser_ok p" "over_limit p" "settled p" "parse_loop p a = Some (out, q, rest)"
  shows "(\<exists>e. out = Error e) \<or> rest = a \<and> retained q = retained p"
  using assms
proof (induction "distance p a" arbitrary: p rule: less_induct)
  case less
  show ?case
  proof (cases "a = [] \<or> fails (parse_round p a)")
    case True
    then show ?thesis
    proof (cases "a = []")
      case False
      with True show ?thesis using less.prems(4) by (auto simp: parse_loop_round [OF False] fails_def)
    qed (use less.prems(4) in simp)
  next
    case False
    then have a: "a \<noteq> []" by simp
    from over_limit_round [OF less.prems(2,3) a] False
    consider "parse_round p a = Return NeedMoreData p a"
      | "parse_round p a = Continue (p\<lparr>rp_terminator_bytes := 0, rp_state := kBulkTerminator\<rparr>) a" "rp_state p = kBulkData" by blast
    then show ?thesis
    proof cases
      case 1
      then show ?thesis using less.prems(4) by (simp add: parse_loop_round [OF a])
    next
      case 2
      let ?q = "p\<lparr>rp_terminator_bytes := 0, rp_state := kBulkTerminator\<rparr>"
      have "distance ?q a < distance p a" using parse_round_advances [OF less.prems(1) a] 2(1) by (simp add: advances_def)
      moreover have "parser_ok ?q" using parse_round_ok [OF less.prems(1), of a] 2(1) by simp
      moreover have "over_limit ?q" using less.prems(2) by (simp add: over_limit_def)
      moreover have "parse_loop ?q a = Some (out, q, rest)" using less.prems(4) 2(1) by (simp add: parse_loop_round [OF a])
      ultimately have "(\<exists>e. out = Error e) \<or> rest = a \<and> retained q = retained ?q" by (intro less.hyps) (simp_all add: settled_def)
      then show ?thesis by (simp add: retained_def)
    qed
  qed
qed

text \<open>Rounds leave the terminator count below two.\<close>

lemma settled_simps [simp]: "settled (ResetCommand p)" "settled (charge n p) = settled p" "settled (p\<lparr>rp_state := kArgumentStart\<rparr>)"
  by (simp_all add: settled_def)

lemma argument_end_settled: "\<not> fails (argument_end p rest) \<Longrightarrow> settled (round_parser (argument_end p rest))"
  by (auto simp: argument_end_def Let_def settled_def split: sum.splits)

lemma bulk_end_settled:
  assumes "rp_terminator_bytes p \<le> 2" "\<not> fails (bulk_end p rest)"
  shows "settled (round_parser (bulk_end p rest))"
  using assms argument_end_settled by (auto simp: bulk_end_def settled_def split: if_splits)

lemma bulk_terminator_settled:
  assumes "rp_terminator_bytes p \<le> 2" "rp_state p = kBulkTerminator" "\<not> fails (bulk_terminator p input)"
  shows "settled (round_parser (bulk_terminator p input))"
  using assms
  by (induction input arbitrary: p) (auto simp: bulk_end_settled after_consume_eq split: if_splits)

lemma length_done_state:
  "rp_state p \<noteq> kBulkTerminator \<Longrightarrow> rp_state (round_parser (length_done c p rest)) \<noteq> kBulkTerminator"
  by (auto simp: length_done_def Let_def split: option.splits sum.splits)

lemma length_loop_state:
  "rp_state p \<noteq> kBulkTerminator \<Longrightarrow> rp_state p \<noteq> kArrayStart \<Longrightarrow> rp_state (round_parser (length_loop c p input)) \<noteq> kBulkTerminator"
  by (induction input arbitrary: p) (auto simp: after_consume_eq length_done_state split: list.splits)

lemma collect_settled:
  assumes "rp_state p \<noteq> kArrayStart" "rp_state p \<noteq> kBulkTerminator" "\<not> fails (collect k p input)"
    and "\<And>q r. rp_state q = rp_state p \<Longrightarrow> \<not> fails (k q r) \<Longrightarrow> settled (round_parser (k q r))"
  shows "settled (round_parser (collect k p input))"
  using assms
  by (auto simp: collect_def after_consume_eq settled_def [of "charge _ _"] settled_def [of "_\<lparr>rp_current_argument := _\<rparr>"]
      split: prod.splits sum.splits if_splits)

lemma parse_round_settled:
  assumes "parser_ok p" "settled p" "\<not> fails (parse_round p input)"
  shows "settled (round_parser (parse_round p input))"
proof -
  have i: "inline_start = collect inline_line" "line_argument = collect line_argument_end"
    by (rule ext, rule ext, simp add: inline_start_def line_argument_def collect_def)+
  have t: "rp_terminator_bytes p \<le> 2" using assms(1) by (simp add: parser_ok_def)
  show ?thesis
  proof (cases "rp_state p")
    case kInline
    then show ?thesis using assms(3)
      by (auto simp: parse_round_def i inline_line_def Let_def intro!: collect_settled split: sum.splits)
  next
    case kLineArgument
    then show ?thesis using assms(3)
      by (auto simp: parse_round_def i line_argument_end_def Let_def intro!: collect_settled argument_end_settled split: if_splits)
  next
    case kBulkTerminator
    then show ?thesis using assms(3) bulk_terminator_settled [OF t] by (simp add: parse_round_def)
  next
    case kArrayLength
    then show ?thesis using length_loop_state [of p True input] by (simp add: parse_round_def settled_def)
  next
    case kBulkLength
    then show ?thesis using length_loop_state [of p False input] by (simp add: parse_round_def settled_def)
  qed (use assms(3) in \<open>auto simp: parse_round_def array_start_def argument_start_def bulk_data_def bulk_data_end_def Let_def
      settled_def after_consume_eq split: if_splits\<close>)
qed

lemma parse_loop_settled:
  assumes "parser_ok p" "settled p" "parse_loop p a = Some (out, q, rest)" "\<And>e. out \<noteq> Error e"
  shows "settled q"
  using assms(1-3)
proof (induction "distance p a" arbitrary: p a rule: less_induct)
  case less
  show ?case
  proof (cases "a = []")
    case False
    note l = less.prems(3) [unfolded parse_loop_round [OF False]]
    show ?thesis
    proof (cases "parse_round p a")
      case (Continue p' a')
      then have "distance p' a' < distance p a" "parse_loop p' a' = Some (out, q, rest)"
        using parse_round_advances [OF less.prems(1) False] l by (simp_all add: advances_def)
      moreover have "parser_ok p'" using parse_round_ok [OF less.prems(1), of a] Continue by simp
      moreover have "settled p'" using parse_round_settled [OF less.prems(1,2), of a] Continue by simp
      ultimately show ?thesis by (intro less.hyps)
    next
      case (Return out' p' a')
      then have "\<not> fails (parse_round p a)" using l assms(4) by (auto simp: fails_def)
      from parse_round_settled [OF less.prems(1,2) this] Return l show ?thesis by simp
    qed
  qed (use less.prems in simp)
qed

text \<open>What holds of a parser between two calls, and what a call keeps of it.\<close>

definition covered :: "RespCommandParser \<Rightarrow> bool" where
  "covered p \<longleftrightarrow> parser_ok p \<and> settled p \<and> retained p \<le> rp_command_bytes p \<and> (rp_state p = kArrayStart \<longrightarrow> retained p = 0)"

lemma covered_within: "covered p \<Longrightarrow> rp_command_bytes p \<le> bound \<Longrightarrow> rp_query_buffer_limit p \<le> bound \<Longrightarrow> within bound p"
  by (simp add: covered_def within_def)

lemma covered_parse:
  assumes "covered p" "parse_loop p a = Some (out, q, rest)" "\<And>e. out \<noteq> Error e"
  shows "covered q"
proof -
  have ok: "parser_ok p" "settled p" using assms(1) by (simp_all add: covered_def)
  let ?bound = "rp_command_bytes p + rp_query_buffer_limit p + 1"
  have "within ?bound q" using parse_loop_within [OF ok(1) covered_within [OF assms(1)] _ assms(2,3), of ?bound] by simp
  moreover have "parser_ok q" using parse_loop_returns [OF ok(1), of a] assms(2) by auto
  ultimately show ?thesis using parse_loop_settled [OF ok assms(2,3)] by (simp add: covered_def within_def)
qed

lemma idle_parse:
  assumes "covered p" "rp_state p = kArrayStart" "0 < rp_query_buffer_limit p" "parse_loop p a = Some (out, q, rest)" "\<And>e. out \<noteq> Error e"
  shows "retained q \<le> rp_query_buffer_limit p"
proof (cases "dropWhile (\<lambda>c. c = CR \<or> c = LF) a")
  case Nil
  then have "q = p" using assms(2,4) by (cases "a = []") (simp_all add: parse_loop_round parse_round_def array_start_def)
  then show ?thesis using assms(1,2) by (simp add: covered_def)
next
  case (Cons c b)
  then have a: "a \<noteq> []" by auto
  have p: "parser_ok p" "retained p = 0" using assms(1,2) by (simp_all add: covered_def)
  obtain p' b' where r: "parse_round p a = Continue p' b'" "rp_command_bytes p' \<le> 1" "retained p' = 0" "rp_state p' \<noteq> kArrayStart"
      "rp_query_buffer_limit p' = rp_query_buffer_limit p"
  proof (cases "c = CHR ''*''")
    case True
    then show ?thesis using Cons assms(2) p(2)
      by (intro that [of "p\<lparr>rp_command_bytes := 1, rp_state := kArrayLength\<rparr>" b])
        (simp_all add: parse_round_def array_start_def Let_def retained_def)
  next
    case False
    then show ?thesis using Cons assms(2) p(2)
      by (intro that [of "p\<lparr>rp_command_bytes := 0, rp_current_argument := [], rp_state := kInline\<rparr>" "c # b"])
        (simp_all add: parse_round_def array_start_def Let_def retained_def)
  qed
  have "within (rp_query_buffer_limit p) p'" using r(2-5) assms(3) by (simp add: within_def)
  moreover have "parser_ok p'" using parse_round_ok [OF p(1), of a] r(1) by simp
  moreover have "parse_loop p' b' = Some (out, q, rest)" using assms(4) r(1) by (simp add: parse_loop_round [OF a])
  ultimately have "within (rp_query_buffer_limit p) q" using parse_loop_within [OF _ _ assms(3) _ assms(5)] by blast
  then show ?thesis by (simp add: within_def)
qed

text \<open>The parsers of a connection: after an error only a reset one is used again.\<close>

inductive parsing :: "RespCommandParser \<Rightarrow> bool" where
  fresh: "parsing (new_parser limit)"
| relimit: "parsing p \<Longrightarrow> parsing (SetQueryBufferLimit limit p)"
| reset: "parsing p \<Longrightarrow> parsing (Reset p)"
| parsed: "parsing p \<Longrightarrow> Parse p input = Some (r, p') \<Longrightarrow> (\<And>e. pr_outcome r \<noteq> Error e) \<Longrightarrow> parsing p'"
| refused: "parsing p \<Longrightarrow> Parse p input = Some (r, p') \<Longrightarrow> pr_outcome r = Error e \<Longrightarrow> parsing (Reset p')"

lemma covered_Reset [simp]: "covered (Reset p)"
  by (simp add: covered_def Reset_def retained_def)

lemma covered_new [simp]: "covered (new_parser limit)"
  unfolding covered_def by (intro conjI) (rule parser_ok_new, simp_all add: settled_def retained_def new_parser_def)

lemma covered_limit [simp]: "covered (SetQueryBufferLimit limit p) = covered p"
  unfolding covered_def by (simp only: parser_ok_limit) (simp add: SetQueryBufferLimit_def settled_def retained_def)

lemma parsing_covered: "parsing p \<Longrightarrow> covered p"
proof (induction rule: parsing.induct)
  case (parsed p input r p')
  then obtain rest where "parse_loop p input = Some (pr_outcome r, p', rest)" by (auto simp: Parse_def split: option.splits)
  from covered_parse [OF parsed.IH this parsed.hyps(3)] show ?case .
qed simp_all

section \<open>Properties\<close>

text \<open>
  (C25) The parser always returns. From every well-formed state and for every input the loop of
  \<open>Parse\<close> ends; the result never claims more than the input, the new state is well formed again,
  and when more data is needed at most a carriage return is left unread.
\<close>

theorem parse_returns:
  assumes "parser_ok p"
  shows "\<exists>r p'. Parse p input = Some (r, p') \<and> parser_ok p' \<and> pr_consumed r \<le> length input \<and>
    (pr_outcome r = NeedMoreData \<longrightarrow> drop (pr_consumed r) input \<in> {[], [CR]})"
proof -
  obtain out p' rest taken where l: "parse_loop p input = Some (out, p', rest)" "input = taken @ rest" "parser_ok p'"
    using parse_loop_returns [OF assms] by blast
  then show ?thesis using wait_leaves [OF assms, of input p' rest] by (auto simp: Parse_def)
qed

theorem parse_returns_witness:
  "\<exists>r p'. Parse (new_parser 100) ''*1 '' = Some (r, p') \<and> pr_consumed r \<le> 3"
  using parse_returns [of "new_parser 100" "''*1 ''"] by auto

text \<open>
  (C22) Requests do not depend on packet boundaries. Let the parser take a chunk and ask for more,
  and let it then take what was left of the chunk followed by the next one. The outcome, with its
  arguments or its error, is the one of parsing both chunks at once. The state and the number of
  bytes consumed are the same too, unless the outcome is the error that the request is too large,
  which may be noticed at a different byte.
\<close>

theorem parse_chunks:
  assumes "parser_ok p" "Parse p a = Some (r1, p1)" "pr_outcome r1 = NeedMoreData"
    and "Parse p1 (drop (pr_consumed r1) a @ b) = Some (r2, p2)"
  shows "\<exists>r p'. Parse p (a @ b) = Some (r, p') \<and> pr_outcome r = pr_outcome r2 \<and>
    (pr_outcome r2 = Error ResourceExhausted \<or> p' = p2 \<and> pr_consumed r = pr_consumed r1 + pr_consumed r2)"
proof -
  obtain rest where l: "parse_loop p a = Some (NeedMoreData, p1, rest)" "r1 = \<lparr>pr_outcome = NeedMoreData, pr_consumed = length a - length rest\<rparr>"
    using assms(2,3) by (auto simp: Parse_def split: option.splits)
  obtain taken where a: "a = taken @ rest" using parse_loop_returns [OF assms(1), of a] l(1) by auto
  have "agree (parse_loop p (a @ b)) (parse_loop p1 (rest @ b))" using loop_chunk [OF assms(1) l(1), of b] by simp
  moreover obtain rest2 where l2: "parse_loop p1 (rest @ b) = Some (pr_outcome r2, p2, rest2)"
      "pr_consumed r2 = length (rest @ b) - length rest2"
    using assms(4) l(2) a by (auto simp: Parse_def split: option.splits)
  moreover have "length rest2 \<le> length (rest @ b)"
  proof -
    have "parser_ok p1" using parse_loop_returns [OF assms(1), of a] l(1) by auto
    from parse_loop_returns [OF this, of "rest @ b"] l2(1) show ?thesis by (metis length_append le_add2 option.inject prod.inject)
  qed
  ultimately show ?thesis by (auto simp: agree_def Parse_def l(2) a)
qed

lemmas parse_evals = new_parser_def parse_round_def array_start_def inline_start_def split_line_def AppendArgument_def
  after_consume_def consume_def Account_def CR_def LF_def TAB_def NUL_def size_max_def string_max_size_def inline_line_def strip_cr_def
  ParseInlineArguments_def inline_arguments.simps next_argument_def blank_def inline_argument.simps PushArgument_def ReserveArguments_def
  new_command_def vector_max_size_def ResetCommand_def Let_def

theorem parse_chunks_witness:
  "\<exists>r p'. Parse (new_parser 100) (''PI'' @ ''NG'' @ [LF]) = Some (r, p') \<and> pr_outcome r = Ok [''PING''] \<and> pr_consumed r = 5"
proof -
  let ?p = "(new_parser 100)\<lparr>rp_state := kInline, rp_current_argument := ''PI'', rp_command_bytes := 2\<rparr>"
  let ?r1 = "\<lparr>pr_outcome = NeedMoreData, pr_consumed = 2\<rparr>" and ?r2 = "\<lparr>pr_outcome = Ok [''PING''], pr_consumed = 3\<rparr>"
  have "parse_loop (new_parser 100) ''PI'' = Some (NeedMoreData, ?p, [])" by (simp add: parse_loop.simps parse_evals)
  then have 1: "Parse (new_parser 100) ''PI'' = Some (?r1, ?p)" by (simp add: Parse_def)
  have "parse_loop ?p (''NG'' @ [LF]) = Some (Ok [''PING''], new_parser 100, [])" by (simp add: parse_loop.simps parse_evals)
  then have 2: "Parse ?p (drop (pr_consumed ?r1) ''PI'' @ ''NG'' @ [LF]) = Some (?r2, new_parser 100)" by (simp add: Parse_def)
  from parse_chunks [OF _ 1 _ 2] show ?thesis by auto
qed

text \<open>
  (C36) Parser states are well typed and bounded. Take any parser of a connection, also one whose
  limit was lowered in the middle of a request, though not to zero, and let it parse a chunk. Its counters fit the
  arguments still to come, no bulk string is longer than the protocol limit and no push can overflow
  the argument vector, also when it reports an error. Unless it reports an error, the bytes it
  keeps are at most the query buffer limit in force, or it took no byte and keeps what it had. A
  parser in the middle of a request that has already accounted for more than a lowered limit takes
  no further byte without reporting an error.
\<close>

theorem parser_state_bounded:
  assumes "parsing p" "0 < rp_query_buffer_limit p" "Parse p input = Some (r, p')"
  shows "parser_ok p' \<and>
    ((\<exists>e. pr_outcome r = Error e) \<or> retained p' \<le> rp_query_buffer_limit p \<or> pr_consumed r = 0 \<and> retained p' = retained p) \<and>
    (\<not> parser_idle p \<and> rp_query_buffer_limit p < rp_command_bytes p \<longrightarrow> (\<exists>e. pr_outcome r = Error e) \<or> pr_consumed r = 0)"
proof -
  have c: "covered p" using parsing_covered [OF assms(1)] .
  then have ok: "parser_ok p" "settled p" by (simp_all add: covered_def)
  obtain rest where l: "parse_loop p input = Some (pr_outcome r, p', rest)" "pr_consumed r = length input - length rest"
    using assms(3) by (auto simp: Parse_def split: option.splits)
  have over: "(\<exists>e. pr_outcome r = Error e) \<or> pr_consumed r = 0 \<and> retained p' = retained p" if "over_limit p"
    using over_limit_loop [OF ok(1) that ok(2) l(1)] l(2) by auto
  have "retained p' \<le> rp_query_buffer_limit p" if "\<not> over_limit p" "\<And>e. pr_outcome r \<noteq> Error e"
  proof (cases "rp_state p = kArrayStart")
    case True
    from idle_parse [OF c True assms(2) l(1) that(2)] show ?thesis .
  next
    case False
    then have "within (rp_query_buffer_limit p) p" using that(1) c by (intro covered_within) (simp_all add: over_limit_def)
    from parse_loop_within [OF ok(1) this assms(2) l(1) that(2)] show ?thesis by (simp add: within_def)
  qed
  moreover have "parser_ok p'" using parse_loop_returns [OF ok(1), of input] l(1) by auto
  ultimately show ?thesis using over by (auto simp: over_limit_def parser_idle_def)
qed

theorem parser_state_bounded_witness:
  "\<exists>r p'. Parse (new_parser 100) ''PI'' = Some (r, p') \<and> pr_outcome r = NeedMoreData \<and> pr_consumed r = 2 \<and> parser_ok p' \<and>
     retained p' \<le> 100"
proof -
  let ?p = "(new_parser 100)\<lparr>rp_state := kInline, rp_current_argument := ''PI'', rp_command_bytes := 2\<rparr>"
  have "parse_loop (new_parser 100) ''PI'' = Some (NeedMoreData, ?p, [])" by (simp add: parse_loop.simps parse_evals)
  then have p: "Parse (new_parser 100) ''PI'' = Some (\<lparr>pr_outcome = NeedMoreData, pr_consumed = 2\<rparr>, ?p)" by (simp add: Parse_def)
  have "0 < rp_query_buffer_limit (new_parser 100)" by (simp add: new_parser_def)
  from parser_state_bounded [OF parsing.fresh this p] have "parser_ok ?p \<and> retained ?p \<le> rp_query_buffer_limit (new_parser 100)" by simp
  then show ?thesis using p by (simp add: new_parser_def)
qed

end
