(* ===== verification/Reply.thy ===== *)
theory Reply
  imports Resp_Safety
begin

text \<open>
  The reply builder of \<^verbatim>\<open>src/redis/resp.cpp\<close>: every \<open>Append\<close> operation in both protocol versions
  and the helpers on top of it. The buffer's capacity has no effect on what it holds and is left
  out. The text of a double is what \<open>std::to_chars\<close> gives, a parameter here. What the builder
  writes for a request is what the request parser reads.
\<close>

section \<open>The builder\<close>

datatype RespVersion = k2 | k3

record ReplyBuilder =
  rb_buffer :: string
  rb_version :: RespVersion

definition new_reply :: "RespVersion \<Rightarrow> ReplyBuilder" where
  "new_reply version = \<lparr>rb_buffer = [], rb_version = version\<rparr>"

definition builder_Reset :: "ReplyBuilder \<Rightarrow> ReplyBuilder" where
  "builder_Reset b = b\<lparr>rb_buffer := []\<rparr>"

definition SetVersion :: "RespVersion \<Rightarrow> ReplyBuilder \<Rightarrow> ReplyBuilder" where
  "SetVersion version b = b\<lparr>rb_version := version\<rparr>"

definition AppendRaw :: "string \<Rightarrow> ReplyBuilder \<Rightarrow> ReplyBuilder" where
  "AppendRaw encoded b = b\<lparr>rb_buffer := rb_buffer b @ encoded\<rparr>"

definition AppendUnsigned :: "u64 \<Rightarrow> ReplyBuilder \<Rightarrow> ReplyBuilder" where
  "AppendUnsigned v b = AppendRaw (to_chars (unat v)) b"

definition crlf :: string where "crlf = [CR, LF]"

definition AppendSimpleString :: "string \<Rightarrow> ReplyBuilder \<Rightarrow> ReplyBuilder" where
  "AppendSimpleString v b = AppendRaw crlf (AppendRaw v (AppendRaw ''+'' b))"

definition AppendBulkString :: "string \<Rightarrow> ReplyBuilder \<Rightarrow> ReplyBuilder" where
  "AppendBulkString v b =
     AppendRaw crlf (AppendRaw v (AppendRaw crlf (AppendUnsigned (word_of_nat (length v)) (AppendRaw ''$'' b))))"

definition AppendNullBulkString :: "ReplyBuilder \<Rightarrow> ReplyBuilder" where
  "AppendNullBulkString b = AppendRaw (''$-1'' @ crlf) b"

definition AppendNullArray :: "ReplyBuilder \<Rightarrow> ReplyBuilder" where
  "AppendNullArray b = (if rb_version b = k3 then AppendRaw (''_'' @ crlf) b else AppendRaw (''*-1'' @ crlf) b)"

definition AppendNull :: "ReplyBuilder \<Rightarrow> ReplyBuilder" where
  "AppendNull b = (if rb_version b = k3 then AppendRaw (''_'' @ crlf) b else AppendNullBulkString b)"

definition AppendInteger :: "int \<Rightarrow> ReplyBuilder \<Rightarrow> ReplyBuilder" where
  "AppendInteger v b = AppendRaw crlf (AppendRaw (to_chars_signed v) (AppendRaw '':'' b))"

definition AppendBoolean :: "bool \<Rightarrow> ReplyBuilder \<Rightarrow> ReplyBuilder" where
  "AppendBoolean v b =
     (if rb_version b = k3 then AppendRaw (if v then ''#t'' @ crlf else ''#f'' @ crlf) b
      else AppendInteger (if v then 1 else 0) b)"

definition AppendDouble :: "('d \<Rightarrow> string) \<Rightarrow> 'd \<Rightarrow> ReplyBuilder \<Rightarrow> ReplyBuilder" where
  "AppendDouble double_chars v b =
     (let digits = double_chars v;
          b = (if rb_version b = k3 then AppendRaw '','' b
               else AppendRaw crlf (AppendUnsigned (word_of_nat (length digits)) (AppendRaw ''$'' b)))
      in AppendRaw crlf (AppendRaw digits b))"

definition AppendDoubleText :: "string \<Rightarrow> ReplyBuilder \<Rightarrow> ReplyBuilder" where
  "AppendDoubleText v b =
     (if rb_version b = k2 then AppendBulkString v b else AppendRaw crlf (AppendRaw v (AppendRaw '','' b)))"

definition AppendBigNumber :: "string \<Rightarrow> ReplyBuilder \<Rightarrow> ReplyBuilder" where
  "AppendBigNumber v b =
     (if rb_version b = k2 then AppendBulkString v b else AppendRaw crlf (AppendRaw v (AppendRaw ''('' b)))"

definition AppendVerbatimString :: "string \<Rightarrow> string \<Rightarrow> ReplyBuilder \<Rightarrow> ReplyBuilder" where
  "AppendVerbatimString format v b =
     (if rb_version b = k2 then AppendBulkString v b
      else let format = (if length format \<noteq> 3 then ''txt'' else format);
               b = AppendRaw crlf (AppendUnsigned (word_of_nat (length v + 4)) (AppendRaw ''='' b))
           in AppendRaw crlf (AppendRaw v (AppendRaw '':'' (AppendRaw (take 3 format) b))))"

definition AppendErrorPrefix :: "string \<Rightarrow> string \<Rightarrow> ReplyBuilder \<Rightarrow> ReplyBuilder" where
  "AppendErrorPrefix prefix message b = AppendRaw crlf (AppendRaw message (AppendRaw prefix (AppendRaw ''-'' b)))"

definition AppendError :: "string \<Rightarrow> ReplyBuilder \<Rightarrow> ReplyBuilder" where
  "AppendError message b = AppendErrorPrefix [] message b"

definition AppendHeader :: "string \<Rightarrow> u64 \<Rightarrow> ReplyBuilder \<Rightarrow> ReplyBuilder" where
  "AppendHeader mark count b = AppendRaw crlf (AppendUnsigned count (AppendRaw mark b))"

definition AppendArrayHeader :: "u64 \<Rightarrow> ReplyBuilder \<Rightarrow> ReplyBuilder" where
  "AppendArrayHeader count b = AppendHeader ''*'' count b"

definition AppendMapHeader :: "u64 \<Rightarrow> ReplyBuilder \<Rightarrow> ReplyBuilder" where
  "AppendMapHeader count b =
     (if rb_version b = k2 then AppendArrayHeader (count * 2) b else AppendHeader ''%'' count b)"

definition AppendSetHeader :: "u64 \<Rightarrow> ReplyBuilder \<Rightarrow> ReplyBuilder" where
  "AppendSetHeader count b = (if rb_version b = k2 then AppendArrayHeader count b else AppendHeader ''~'' count b)"

definition AppendPushHeader :: "u64 \<Rightarrow> ReplyBuilder \<Rightarrow> ReplyBuilder" where
  "AppendPushHeader count b = (if rb_version b = k2 then AppendArrayHeader count b else AppendHeader ''>'' count b)"

section \<open>Encoders\<close>

definition EncodeSimpleString :: "string \<Rightarrow> string" where
  "EncodeSimpleString v = rb_buffer (AppendSimpleString v (new_reply k2))"

definition EncodeBulkString :: "string \<Rightarrow> string" where
  "EncodeBulkString v = rb_buffer (AppendBulkString v (new_reply k2))"

definition EncodeNullBulkString :: string where
  "EncodeNullBulkString = ''$-1'' @ crlf"

definition EncodeInteger :: "int \<Rightarrow> string" where
  "EncodeInteger v = rb_buffer (AppendInteger v (new_reply k2))"

definition EncodeError :: "string \<Rightarrow> string" where
  "EncodeError message = rb_buffer (AppendError message (new_reply k2))"

definition ClusterMovedMessage :: "u16 \<Rightarrow> string \<Rightarrow> u16 \<Rightarrow> string" where
  "ClusterMovedMessage slot host port = ''MOVED '' @ to_chars (unat slot) @ '' '' @ host @ '':'' @ to_chars (unat port)"

definition ClusterTryAgainMessage :: "string \<Rightarrow> string" where
  "ClusterTryAgainMessage message = ''TRYAGAIN '' @ message"

definition kClusterCrossSlotMessage :: string where
  "kClusterCrossSlotMessage = ''CROSSSLOT Keys in request don'' @ [CHR 0x27] @ ''t hash to the same slot''"

definition kClusterDownUnboundMessage :: string where
  "kClusterDownUnboundMessage = ''CLUSTERDOWN Hash slot not served''"

definition AppendMovedError :: "u16 \<Rightarrow> string \<Rightarrow> u16 \<Rightarrow> ReplyBuilder \<Rightarrow> ReplyBuilder" where
  "AppendMovedError slot host port b = AppendError (ClusterMovedMessage slot host port) b"

definition AppendCrossSlotError :: "ReplyBuilder \<Rightarrow> ReplyBuilder" where
  "AppendCrossSlotError b = AppendError kClusterCrossSlotMessage b"

definition AppendClusterDownUnboundError :: "ReplyBuilder \<Rightarrow> ReplyBuilder" where
  "AppendClusterDownUnboundError b = AppendError kClusterDownUnboundMessage b"

definition AppendTryAgainError :: "string \<Rightarrow> ReplyBuilder \<Rightarrow> ReplyBuilder" where
  "AppendTryAgainError message b = AppendError (ClusterTryAgainMessage message) b"

definition EncodeScanReply :: "u64 \<Rightarrow> string list \<Rightarrow> ReplyBuilder \<Rightarrow> ReplyBuilder" where
  "EncodeScanReply cursor keys b =
     (let b = AppendArrayHeader 2 b;
          b = AppendBulkString (to_chars (unat cursor)) b;
          b = AppendArrayHeader (word_of_nat (length keys)) b
      in fold AppendBulkString keys b)"

end
