(* ===== verification/Resp_Roundtrip.thy ===== *)
theory Resp_Roundtrip
  imports Reply
begin

text \<open>
  A request written with the reply builder as an array of bulk strings is read back by the
  request parser, argument for argument, whatever the arguments hold.
\<close>

section \<open>What the builder writes\<close>

definition bulk :: "string \<Rightarrow> string" where
  "bulk s = CHR ''$'' # to_chars (length s) @ CR # LF # s @ [CR, LF]"

definition array_header :: "nat \<Rightarrow> string" where
  "array_header n = CHR ''*'' # to_chars n @ [CR, LF]"

lemma AppendBulkString_buffer:
  assumes "length s < 2 ^ 64"
  shows "AppendBulkString s b = b\<lparr>rb_buffer := rb_buffer b @ bulk s\<rparr>"
  using assms
  by (simp add: AppendBulkString_def AppendUnsigned_def AppendRaw_def crlf_def bulk_def unsigned_of_nat take_bit_eq_mod)

lemma AppendArrayHeader_buffer:
  assumes "n < 2 ^ 64"
  shows "AppendArrayHeader (word_of_nat n) b = b\<lparr>rb_buffer := rb_buffer b @ array_header n\<rparr>"
  using assms
  by (simp add: AppendArrayHeader_def AppendHeader_def AppendUnsigned_def AppendRaw_def crlf_def array_header_def
      unsigned_of_nat take_bit_eq_mod)

lemma fold_bulk_buffer:
  assumes "\<forall>s\<in>set ss. length s < 2 ^ 64"
  shows "rb_buffer (fold AppendBulkString ss b) = rb_buffer b @ concat (map bulk ss)"
  using assms by (induction ss arbitrary: b) (simp_all add: AppendBulkString_buffer)

section \<open>What the parser reads\<close>

lemma charge_charge [simp]: "charge m (charge n p) = charge (n + m) p"
  by (simp add: charge_def)

lemma charge_updates [simp]:
  "charge n (p\<lparr>rp_length_text := t\<rparr>) = (charge n p)\<lparr>rp_length_text := t\<rparr>"
  "charge n (p\<lparr>rp_state := s\<rparr>) = (charge n p)\<lparr>rp_state := s\<rparr>"
  "charge n (p\<lparr>rp_argument_type := c\<rparr>) = (charge n p)\<lparr>rp_argument_type := c\<rparr>"
  "charge n (p\<lparr>rp_current_argument := a\<rparr>) = (charge n p)\<lparr>rp_current_argument := a\<rparr>"
  "charge n (p\<lparr>rp_bulk_remaining := m\<rparr>) = (charge n p)\<lparr>rp_bulk_remaining := m\<rparr>"
  "charge n (p\<lparr>rp_terminator_bytes := m\<rparr>) = (charge n p)\<lparr>rp_terminator_bytes := m\<rparr>"
  by (simp_all add: charge_def)

lemma fits_charge [simp]: "fits m (charge n p) = fits (n + m) p"
  by (simp add: fits_def add.assoc)

lemma fits_state [simp]: "fits n (p\<lparr>rp_state := s\<rparr>) = fits n p"
  by (simp add: fits_def)

lemma fits_le: "fits n p \<Longrightarrow> m \<le> n \<Longrightarrow> fits m p"
  by (simp add: fits_def)

lemma length_loop_text:
  assumes "rp_state p \<noteq> kArrayStart" "\<forall>c\<in>set ds. is_digit 10 c" "length (rp_length_text p) + length ds \<le> kMaxLengthTextBytes"
    and "fits (length ds + 2) p"
  shows "length_loop c p (ds @ CR # LF # rest) =
    length_done c ((charge (length ds + 2) p)\<lparr>rp_length_text := rp_length_text p @ ds\<rparr>) rest"
  using assms
proof (induction ds arbitrary: p)
  case Nil
  have e: "(charge (Suc (Suc 0)) p)\<lparr>rp_length_text := rp_length_text p\<rparr> = charge (Suc (Suc 0)) p" by (cases p) (simp add: charge_def)
  from Nil show ?case by (simp add: after_consume_eq numeral_2_eq_2 e)
next
  case (Cons d ds)
  have d: "d \<noteq> CR" "d \<noteq> LF"
    using Cons.prems(2) by (auto simp: is_digit_def digit_of_def code_of_def CR_def LF_def)
  let ?p = "(charge 1 p)\<lparr>rp_length_text := rp_length_text p @ [d]\<rparr>"
  have "length_loop c ?p (ds @ CR # LF # rest) =
      length_done c ((charge (length ds + 2) ?p)\<lparr>rp_length_text := rp_length_text ?p @ ds\<rparr>) rest"
    using Cons.prems by (intro Cons.IH) simp_all
  moreover have "fits 1 p" using Cons.prems(4) by (rule fits_le) simp
  ultimately show ?case using d Cons.prems by (simp add: after_consume_eq)
qed

lemma length_to_chars_small: "n < 2 ^ 32 \<Longrightarrow> length (to_chars n) \<le> kMaxLengthTextBytes"
  using length_to_chars_le [of n 32] by (simp add: kMaxLengthTextBytes_def)

lemma length_done_text:
  assumes "rp_length_text p = to_chars n" "n < 2 ^ 32"
  shows "length_done c p rest =
    (let p = p\<lparr>rp_length_text := []\<rparr> in
     if c then
       (if kMaxArrayLen < n then Return (Error InvalidArgument) p rest
        else if n = 0 then Continue (ResetCommand p) rest
        else let p = p\<lparr>rp_arguments_remaining := n\<rparr> in
          case ReserveArguments (rp_command p) (min (rp_arguments_remaining p) kInitialArgCapacity) of
            Inl e \<Rightarrow> Return (Error e) p rest
          | Inr command \<Rightarrow> Continue (p\<lparr>rp_command := command, rp_state := kArgumentStart\<rparr>) rest)
     else if kMaxBulkLen < n \<or> string_max_size < n then Return (Error OutOfRange) p rest
     else Continue (p\<lparr>rp_bulk_remaining := n, rp_current_argument := [], rp_state := kBulkData\<rparr>) rest)"
proof -
  have "from_chars_signed int64_min int64_max (to_chars n) = Some (int n, length (to_chars n))"
    using assms(2) by (intro from_chars_to_chars) (simp add: int64_max_def)
  then show ?thesis using assms(1) by (simp add: length_done_def Let_def)
qed

lemma parse_array_header:
  assumes "0 < n" "n \<le> kMaxArrayLen" "length (array_header n) \<le> limit" "rest \<noteq> []"
  shows "parse_loop (new_parser limit) (array_header n @ rest) =
    parse_loop ((new_parser limit)\<lparr>rp_command_bytes := length (array_header n), rp_arguments_remaining := n,
      rp_command := \<lparr>rc_args = [], rc_capacity = min n kInitialArgCapacity\<rparr>, rp_state := kArgumentStart\<rparr>) rest"
proof -
  let ?p = "(new_parser limit)\<lparr>rp_command_bytes := 1, rp_state := kArrayLength\<rparr>"
  have n: "n < 2 ^ 32" using assms(2) by (simp add: kMaxArrayLen_def)
  have "array_start (new_parser limit) (array_header n @ rest) = Continue ?p (to_chars n @ CR # LF # rest)"
    by (simp add: array_start_def array_header_def Let_def CR_def LF_def)
  then have "parse_loop (new_parser limit) (array_header n @ rest) = parse_loop ?p (to_chars n @ CR # LF # rest)"
    by (subst parse_loop_round) (simp_all add: array_header_def parse_round_def new_parser_def)
  also have "\<dots> = run_round (length_loop True ?p (to_chars n @ CR # LF # rest))"
    by (simp add: parse_loop_round parse_round_def)
  also have "length_loop True ?p (to_chars n @ CR # LF # rest) =
      length_done True ((charge (length (to_chars n) + 2) ?p)\<lparr>rp_length_text := rp_length_text ?p @ to_chars n\<rparr>) rest"
    using assms(3) length_to_chars_small [OF n] to_chars_digits [of n]
    by (intro length_loop_text) (simp_all add: new_parser_def fits_def array_header_def)
  also have "run_round \<dots> = parse_loop ((new_parser limit)\<lparr>rp_command_bytes := length (array_header n), rp_arguments_remaining := n,
      rp_command := \<lparr>rc_args = [], rc_capacity = min n kInitialArgCapacity\<rparr>, rp_state := kArgumentStart\<rparr>) rest"
    using assms(1,2) n reserve_ok [of n]
    by (subst length_done_text [OF _ n]) (simp_all add: new_parser_def charge_def array_header_def)
  finally show ?thesis .
qed

lemma parse_bulk_length:
  assumes "rp_state p = kArgumentStart" "rp_length_text p = []" "length s \<le> kMaxBulkLen" "fits (length (bulk s)) p"
  shows "parse_loop p (bulk s @ rest) =
    parse_loop ((charge (length (to_chars (length s)) + 3) p)\<lparr>rp_argument_type := CHR ''$'', rp_length_text := [],
      rp_bulk_remaining := length s, rp_current_argument := [], rp_state := kBulkData\<rparr>) (s @ CR # LF # rest)"
proof -
  let ?ds = "to_chars (length s)"
  let ?p = "(charge 1 p)\<lparr>rp_argument_type := CHR ''$'', rp_current_argument := [], rp_state := kBulkLength\<rparr>"
  have n: "length s < 2 ^ 32" using assms(3) by (simp add: kMaxBulkLen_def)
  have "fits 1 p" using assms(4) by (rule fits_le) (simp add: bulk_def)
  then have "argument_start p (bulk s @ rest) = Continue ?p (?ds @ CR # LF # s @ CR # LF # rest)"
    using assms(1) by (simp add: argument_start_def bulk_def after_consume_eq)
  then have "parse_loop p (bulk s @ rest) = parse_loop ?p (?ds @ CR # LF # s @ CR # LF # rest)"
    using assms(1) by (subst parse_loop_round) (simp_all add: bulk_def parse_round_def)
  also have "\<dots> = run_round (length_loop False ?p (?ds @ CR # LF # s @ CR # LF # rest))"
    by (simp add: parse_loop_round parse_round_def)
  also have "length_loop False ?p (?ds @ CR # LF # s @ CR # LF # rest) =
      length_done False ((charge (length ?ds + 2) ?p)\<lparr>rp_length_text := rp_length_text ?p @ ?ds\<rparr>) (s @ CR # LF # rest)"
    using assms(2,4) length_to_chars_small [OF n] to_chars_digits [of "length s"]
    by (intro length_loop_text) (auto simp: bulk_def elim!: fits_le)
  also have "run_round \<dots> = parse_loop ((charge (length ?ds + 3) p)\<lparr>rp_argument_type := CHR ''$'', rp_length_text := [],
      rp_bulk_remaining := length s, rp_current_argument := [], rp_state := kBulkData\<rparr>) (s @ CR # LF # rest)"
    using assms(2,3)
    by (cases p) (subst length_done_text [OF _ n], simp_all add: string_max_size_def kMaxBulkLen_def charge_def numeral_3_eq_3)
  finally show ?thesis .
qed

lemma parse_bulk_data:
  assumes "rp_state p = kBulkData" "rp_bulk_remaining p = length s" "rp_current_argument p = []" "fits (length s + 2) p"
  shows "parse_loop p (s @ CR # LF # rest) =
    run_round (bulk_end ((charge (length s + 2) p)\<lparr>rp_current_argument := s, rp_bulk_remaining := 0, rp_terminator_bytes := 2,
      rp_state := kBulkTerminator\<rparr>) rest)"
proof -
  let ?q = "(charge (length s) p)\<lparr>rp_current_argument := s, rp_bulk_remaining := 0, rp_terminator_bytes := 0, rp_state := kBulkTerminator\<rparr>"
  have f: "fits (length s) p" "fits (length s + 1) p" using assms(4) by (auto elim: fits_le)
  have "bulk_data p (s @ CR # LF # rest) = Continue ?q (CR # LF # rest)"
  proof (cases "s = []")
    case True
    have "p\<lparr>rp_terminator_bytes := 0, rp_state := kBulkTerminator\<rparr> = ?q"
      using True assms(2,3) by (simp add: charge_def)
    then show ?thesis using True assms(2) by (simp add: bulk_data_def bulk_data_end_def)
  next
    case False
    then show ?thesis using assms f by (simp add: bulk_data_def bulk_data_end_def Let_def after_consume_eq)
  qed
  then have "parse_loop p (s @ CR # LF # rest) = parse_loop ?q (CR # LF # rest)"
    using assms(1) by (simp add: parse_loop_round parse_round_def)
  also have "\<dots> = run_round (bulk_terminator ?q (CR # LF # rest))" by (simp add: parse_loop_round parse_round_def)
  also have "bulk_terminator ?q (CR # LF # rest) =
      bulk_terminator ((charge (length s + 2) p)\<lparr>rp_current_argument := s, rp_bulk_remaining := 0, rp_terminator_bytes := 2,
        rp_state := kBulkTerminator\<rparr>) rest"
    using assms(4) f by (cases p) (simp add: after_consume_eq numeral_2_eq_2 fits_def charge_def)
  also have "\<dots> = bulk_end ((charge (length s + 2) p)\<lparr>rp_current_argument := s, rp_bulk_remaining := 0, rp_terminator_bytes := 2,
        rp_state := kBulkTerminator\<rparr>) rest" by (cases rest) simp_all
  finally show ?thesis .
qed

lemma parse_bulk:
  assumes "rp_state p = kArgumentStart" "rp_length_text p = []" "length s \<le> kMaxBulkLen" "fits (length (bulk s)) p"
  shows "parse_loop p (bulk s @ rest) =
    run_round (argument_end ((charge (length (bulk s)) p)\<lparr>rp_argument_type := CHR ''$'', rp_length_text := [],
      rp_bulk_remaining := 0, rp_current_argument := s, rp_terminator_bytes := 2, rp_state := kBulkTerminator\<rparr>) rest)"
proof -
  let ?p = "(charge (length (to_chars (length s)) + 3) p)\<lparr>rp_argument_type := CHR ''$'', rp_length_text := [],
      rp_bulk_remaining := length s, rp_current_argument := [], rp_state := kBulkData\<rparr>"
  let ?q = "(charge (length s + 2) ?p)\<lparr>rp_current_argument := s, rp_bulk_remaining := 0, rp_terminator_bytes := 2,
      rp_state := kBulkTerminator\<rparr>"
  let ?e = "(charge (length (bulk s)) p)\<lparr>rp_argument_type := CHR ''$'', rp_length_text := [],
      rp_bulk_remaining := 0, rp_current_argument := s, rp_terminator_bytes := 2, rp_state := kBulkTerminator\<rparr>"
  have "fits (length s + 2) ?p" using assms(4) by (simp add: fits_def bulk_def)
  then have "parse_loop ?p (s @ CR # LF # rest) = run_round (bulk_end ?q rest)"
    by (intro parse_bulk_data) simp_all
  moreover have "?q = ?e" by (simp add: charge_def bulk_def)
  moreover have "bulk_end ?e rest = argument_end ?e rest" by (simp add: bulk_end_def)
  ultimately show ?thesis using parse_bulk_length [OF assms] by metis
qed

lemma parse_bulks:
  assumes "parser_ok p" "rp_state p = kArgumentStart" "rp_length_text p = []" "ss \<noteq> []"
    and "rp_arguments_remaining p = length ss" "\<forall>s\<in>set ss. length s \<le> kMaxBulkLen"
    and "fits (length (concat (map bulk ss))) p"
  shows "parse_loop p (concat (map bulk ss) @ rest) =
    Some (Ok (rc_args (rp_command p) @ ss), new_parser (rp_query_buffer_limit p), rest)"
  using assms
proof (induction ss arbitrary: p)
  case (Cons s ss)
  have "length (rc_args (rp_command p)) < kMaxArrayLen" "rc_capacity (rp_command p) \<le> 2 ^ 32"
    using Cons.prems(1,2,5) by (auto simp: parser_ok_def)
  from push_ok [OF this, of s] obtain c where c: "PushArgument (rp_command p) s = Inr c" "rc_args c = rc_args (rp_command p) @ [s]"
      "rc_capacity c \<le> 2 ^ 32" by blast
  let ?q = "(charge (length (bulk s)) p)\<lparr>rp_argument_type := CHR ''$'', rp_length_text := [], rp_bulk_remaining := 0,
      rp_current_argument := [], rp_terminator_bytes := 2, rp_command := c, rp_arguments_remaining := length ss,
      rp_state := kArgumentStart\<rparr>"
  have f: "fits (length (bulk s)) p" using Cons.prems(7) by (rule fits_le) simp
  have e: "parse_loop p (bulk s @ x) = (if ss = [] then Some (Ok (rc_args c), new_parser (rp_query_buffer_limit p), x) else parse_loop ?q x)" for x
  proof -
    have "argument_end ((charge (length (bulk s)) p)\<lparr>rp_argument_type := CHR ''$'', rp_length_text := [],
        rp_bulk_remaining := 0, rp_current_argument := s, rp_terminator_bytes := 2, rp_state := kBulkTerminator\<rparr>) x =
      (if ss = [] then Return (Ok (rc_args c)) (new_parser (rp_query_buffer_limit p)) x else Continue ?q x)"
      using Cons.prems(5) c(1)
      by (cases p) (simp add: argument_end_def Let_def size_dec_def ResetCommand_def new_parser_def charge_def)
    then show ?thesis using parse_bulk [OF Cons.prems(2,3) _ f, of x] Cons.prems(6) by simp
  qed
  show ?case
  proof (cases "ss = []")
    case True
    then show ?thesis using e [of rest] c(2) by simp
  next
    case False
    have "parse_loop ?q (concat (map bulk ss) @ rest) =
        Some (Ok (rc_args (rp_command ?q) @ ss), new_parser (rp_query_buffer_limit ?q), rest)"
    proof (rule Cons.IH)
      show "parser_ok ?q" using Cons.prems(1,2,5) c(2,3) False by (simp add: parser_ok_def)
      show "fits (length (concat (map bulk ss))) ?q" using Cons.prems(7) by (simp add: fits_def)
    qed (use Cons.prems(6) False in simp_all)
    then show ?thesis using e [of "concat (map bulk ss) @ rest"] False c(2) by simp
  qed
qed simp

section \<open>Property\<close>

text \<open>
  (C24) Requests survive the round trip through the protocol. Any list of one or more arguments
  within the protocol limits, written as an array of bulk strings by the reply builder in either
  version, is parsed back to exactly these arguments, whatever bytes they contain and whatever
  follows in the stream; the parser takes exactly the bytes of the request and is as new
  afterwards.
\<close>

theorem request_roundtrip:
  assumes "args \<noteq> []" "length args \<le> kMaxArrayLen" "\<forall>a\<in>set args. length a \<le> kMaxBulkLen"
    and "request = rb_buffer (fold AppendBulkString args (AppendArrayHeader (word_of_nat (length args)) (new_reply version)))"
    and "length request \<le> limit"
  shows "Parse (new_parser limit) (request @ rest) =
    Some (\<lparr>pr_outcome = Ok args, pr_consumed = length request\<rparr>, new_parser limit)"
proof -
  have "\<forall>a\<in>set args. length a < 2 ^ 64" using assms(3) by (fastforce simp: kMaxBulkLen_def)
  moreover have "length args < 2 ^ 64" using assms(2) by (simp add: kMaxArrayLen_def)
  ultimately have r: "request = array_header (length args) @ concat (map bulk args)"
    by (simp add: assms(4) fold_bulk_buffer AppendArrayHeader_buffer new_reply_def)
  let ?p = "(new_parser limit)\<lparr>rp_command_bytes := length (array_header (length args)), rp_arguments_remaining := length args,
      rp_command := \<lparr>rc_args = [], rc_capacity = min (length args) kInitialArgCapacity\<rparr>, rp_state := kArgumentStart\<rparr>"
  have "concat (map bulk args) \<noteq> []" using assms(1) by (cases args) (simp_all add: bulk_def)
  then have "parse_loop (new_parser limit) (array_header (length args) @ concat (map bulk args) @ rest) =
      parse_loop ?p (concat (map bulk args) @ rest)"
    using assms(1,2,5) r by (intro parse_array_header) simp_all
  also have "\<dots> = Some (Ok (rc_args (rp_command ?p) @ args), new_parser (rp_query_buffer_limit ?p), rest)"
  proof (rule parse_bulks)
    show "parser_ok ?p" using assms(1,2) by (simp add: parser_ok_def new_parser_def)
    show "fits (length (concat (map bulk args))) ?p" using assms(5) r by (simp add: fits_def new_parser_def)
  qed (use assms(1,3) in \<open>simp_all add: new_parser_def\<close>)
  finally show ?thesis by (simp add: Parse_def r new_parser_def)
qed

theorem request_roundtrip_witness:
  "Parse (new_parser 1048576) (rb_buffer (fold AppendBulkString [''SET'', [], [CR, LF]] (AppendArrayHeader 3 (new_reply k3))) @ ''*'') =
     Some (\<lparr>pr_outcome = Ok [''SET'', [], [CR, LF]], pr_consumed = 27\<rparr>, new_parser 1048576)"
proof -
  let ?args = "[''SET'', [], [CR, LF]]"
  let ?request = "rb_buffer (fold AppendBulkString ?args (AppendArrayHeader (word_of_nat (length ?args)) (new_reply k3)))"
  have t: "length (to_chars n) = 1" if "n < 10" for n using that by (simp add: to_chars.simps [of n])
  have "length ?request = 27"
    by (simp add: AppendArrayHeader_buffer [of 3, simplified] AppendBulkString_buffer new_reply_def array_header_def bulk_def t)
  then show ?thesis
    using request_roundtrip [of ?args ?request k3 1048576 "''*''"] by (simp add: kMaxArrayLen_def kMaxBulkLen_def)
qed

end
