(* ===== verification/Glob.thy ===== *)
theory Glob
  imports Decimal
begin

text \<open>
  The glob matcher of \<^verbatim>\<open>include/lavik/glob.h\<close>. Positions in the pattern and in the text are the
  suffixes that start there. The matcher is an iterative one with a single backtracking point; it
  is compared with the usual recursive meaning of a pattern.
\<close>

section \<open>The matcher\<close>

text \<open>The loop of \<open>MatchGlobCharacterClass\<close>: whether the class matched so far and what follows it.\<close>

function class_loop :: "char \<Rightarrow> bool \<Rightarrow> string \<Rightarrow> bool \<times> string" where
  "class_loop v matched pattern =
     (case pattern of
        [] \<Rightarrow> (matched, [])
      | c # rest \<Rightarrow>
          if c = CHR '']'' then (matched, rest)
          else let escaped = (c = CHR 0x5C \<and> rest \<noteq> []);
                   first = (if escaped then hd rest else c);
                   rest = (if escaped then tl rest else rest)
               in if \<not> escaped \<and> 2 \<le> length rest \<and> hd rest = CHR ''-'' then
                    (let last = rest ! 1;
                         lo = min (code_of first) (code_of last);
                         hi = max (code_of first) (code_of last)
                     in class_loop v (matched \<or> lo \<le> code_of v \<and> code_of v \<le> hi) (drop 2 rest))
                  else class_loop v (matched \<or> v = first) rest)"
  by pat_completeness auto
termination
  by (relation "measure (\<lambda>(v, matched, pattern). length pattern)") (auto simp: Let_def split: if_splits)

declare class_loop.simps [simp del]

text \<open>\<open>pattern\<close> is what follows the opening bracket.\<close>

definition MatchGlobCharacterClass :: "string \<Rightarrow> char \<Rightarrow> bool \<times> string" where
  "MatchGlobCharacterClass pattern v =
     (let negate = (pattern \<noteq> [] \<and> hd pattern = CHR ''^'');
          (matched, next) = class_loop v False (if negate then tl pattern else pattern)
      in (if negate then \<not> matched else matched, next))"

text \<open>One comparison of the main loop: whether the character matched and the next pattern position.\<close>

definition glob_token :: "string \<Rightarrow> char \<Rightarrow> bool \<times> string" where
  "glob_token p c =
     (case p of
        [] \<Rightarrow> (False, p)
      | x # rest \<Rightarrow>
          if x = CHR ''?'' then (True, rest)
          else if x = CHR ''['' then MatchGlobCharacterClass rest c
          else if x = CHR 0x5C \<and> rest \<noteq> [] then (hd rest = c, tl rest)
          else (x = c, rest))"

definition skip_stars :: "string \<Rightarrow> string" where
  "skip_stars p = dropWhile (\<lambda>x. x = CHR ''*'') p"

lemma class_loop_shorter: "length (snd (class_loop v m pattern)) \<le> length pattern"
proof (induction v m pattern rule: class_loop.induct)
  case (1 v m pattern)
  show ?case
  proof (cases pattern)
    case Nil
    then show ?thesis by (simp add: class_loop.simps)
  next
    case (Cons c rest)
    show ?thesis using 1 [OF Cons] by (subst class_loop.simps) (fastforce simp: Cons Let_def)
  qed
qed

lemma glob_token_shorter: "p \<noteq> [] \<Longrightarrow> length (snd (glob_token p c)) < length p"
  using class_loop_shorter [of c False "tl p"] class_loop_shorter [of c False "tl (tl p)"]
  by (auto simp: glob_token_def MatchGlobCharacterClass_def Let_def split: list.split prod.split)

lemma glob_token_le: "length (snd (glob_token p c)) \<le> length p"
  using glob_token_shorter [of p c] by (cases "p = []") (simp_all add: glob_token_def)

lemma skip_stars_shorter: "p \<noteq> [] \<Longrightarrow> hd p = CHR ''*'' \<Longrightarrow> length (skip_stars p) < length p"
  by (cases p) (simp_all add: skip_stars_def le_imp_less_Suc length_dropWhile_le)

text \<open>
  The main loop. The backtracking point is the pattern behind the last star and the text from
  which it was last tried.
\<close>

function glob_loop :: "string \<Rightarrow> string \<Rightarrow> (string \<times> string) option \<Rightarrow> bool" where
  "glob_loop p t star =
     (if t = [] then skip_stars p = []
      else if p \<noteq> [] \<and> hd p = CHR ''*'' then
        (if skip_stars p = [] then True else glob_loop (skip_stars p) t (Some (skip_stars p, t)))
      else if fst (glob_token p (hd t)) then glob_loop (snd (glob_token p (hd t))) (tl t) star
      else (case star of
              None \<Rightarrow> False
            | Some s \<Rightarrow> if snd s \<noteq> [] then glob_loop (fst s) (tl (snd s)) (Some (fst s, tl (snd s))) else False))"
  by pat_completeness auto
termination
proof (relation "measures [\<lambda>(p, t, star). max (length p) (case star of None \<Rightarrow> 0 | Some s \<Rightarrow> length (fst s)),
    \<lambda>(p, t, star). case star of None \<Rightarrow> 0 | Some s \<Rightarrow> length (snd s), \<lambda>(p, t, star). length t]", goal_cases)
  case (2 p t star)
  then show ?case using skip_stars_shorter [of p] by (auto split: option.split)
next
  case (3 p t star)
  then have "length (snd (glob_token p (hd t))) \<le> length p" "length (tl t) < length t"
    by (simp_all add: glob_token_le)
  then show ?case by (cases star) auto
next
  case (4 p t star s)
  then show ?case by auto
qed simp

declare glob_loop.simps [simp del]

definition RedisGlobMatch :: "string \<Rightarrow> string \<Rightarrow> bool" where
  "RedisGlobMatch pattern text = (if text = [] then pattern = [] else glob_loop pattern text None)"

section \<open>The meaning of a pattern\<close>

text \<open>
  A star stands for any string, every other token for one character of a set.
\<close>

function glob_spec :: "string \<Rightarrow> string \<Rightarrow> bool" where
  "glob_spec p t =
     (if p = [] then t = []
      else if hd p = CHR ''*'' then (if t = [] then glob_spec (tl p) t else glob_spec (tl p) t \<or> glob_spec p (tl t))
      else if t = [] then False
      else if fst (glob_token p (hd t)) then glob_spec (snd (glob_token p (hd t))) (tl t)
      else False)"
  by pat_completeness auto
termination
proof (relation "measure (\<lambda>(p, t). length p + length t)", goal_cases)
  case (5 p t)
  then show ?case using glob_token_shorter [of p "hd t"] by simp
qed auto

declare glob_spec.simps [simp del]

definition is_star :: "string \<Rightarrow> bool" where
  "is_star p \<longleftrightarrow> p \<noteq> [] \<and> hd p = CHR ''*''"

lemma glob_spec_Nil: "glob_spec [] t = (t = [])"
  by (simp add: glob_spec.simps)

lemma glob_spec_star: "is_star p \<Longrightarrow> glob_spec p t = (glob_spec (tl p) t \<or> t \<noteq> [] \<and> glob_spec p (tl t))"
  by (subst glob_spec.simps) (simp add: is_star_def)

lemma glob_spec_token: "\<not> is_star p \<Longrightarrow> t \<noteq> [] \<Longrightarrow>
    glob_spec p t = (fst (glob_token p (hd t)) \<and> glob_spec (snd (glob_token p (hd t))) (tl t))"
  by (subst glob_spec.simps) (auto simp: is_star_def glob_token_def)

lemma glob_spec_token_Nil: "\<not> is_star p \<Longrightarrow> glob_spec p [] = (p = [])"
  by (subst glob_spec.simps) (auto simp: is_star_def)

lemma glob_spec_star_iff: "is_star p \<Longrightarrow> glob_spec p t = (\<exists>k\<le>length t. glob_spec (tl p) (drop k t))"
proof (induction t)
  case (Cons c t)
  have "glob_spec p (c # t) = (glob_spec (tl p) (c # t) \<or> (\<exists>k\<le>length t. glob_spec (tl p) (drop k t)))"
    using Cons glob_spec_star [OF Cons.prems, of "c # t"] by simp
  also have "\<dots> = (\<exists>k<Suc (Suc (length t)). glob_spec (tl p) (drop k (c # t)))"
    by (subst Ex_less_Suc2) (simp add: less_Suc_eq_le)
  also have "\<dots> = (\<exists>k\<le>length (c # t). glob_spec (tl p) (drop k (c # t)))" by (simp add: less_Suc_eq_le)
  finally show ?case .
qed (use glob_spec_star [of p "[]"] in simp)

lemma glob_spec_star_suffix:
  assumes "is_star p" "glob_spec p (drop k t)"
  shows "glob_spec p t"
proof -
  obtain j where "j \<le> length (drop k t)" "glob_spec (tl p) (drop j (drop k t))"
    using assms glob_spec_star_iff by blast
  then show ?thesis
    by (cases "k \<le> length t") (auto simp: glob_spec_star_iff [OF assms(1)] intro: exI [of _ "j + k"] exI [of _ "length t"])
qed

lemma star_step: "is_star p \<Longrightarrow> glob_spec p t = glob_spec (CHR ''*'' # skip_stars p) t"
proof (induction p arbitrary: t)
  case (Cons c p)
  then have c: "c = CHR ''*''" by (simp add: is_star_def)
  show ?case
  proof (cases "is_star p")
    case True
    then have s: "skip_stars (c # p) = skip_stars p" by (simp add: skip_stars_def c)
    have "glob_spec (c # p) t = (\<exists>k\<le>length t. glob_spec p (drop k t))"
      using glob_spec_star_iff [OF Cons.prems] by simp
    also have "\<dots> = glob_spec p t"
      using glob_spec_star_suffix [OF True] by (metis drop0 zero_le)
    finally show ?thesis using Cons.IH [OF True] s by simp
  next
    case False
    then have "skip_stars (c # p) = p" by (cases p) (simp_all add: skip_stars_def c is_star_def)
    then show ?thesis by (simp add: c)
  qed
qed (simp add: is_star_def)

lemma spec_stars_Nil: "skip_stars p = [] \<Longrightarrow> is_star p \<Longrightarrow> glob_spec p t"
  using star_step [of p t] glob_spec_star_iff [of "''*''" t]
  by (auto simp: is_star_def glob_spec_Nil intro: exI [of _ "length t"])

lemma spec_at_end: "glob_spec p [] = (skip_stars p = [])"
proof (induction p)
  case (Cons c p)
  show ?case
  proof (cases "c = CHR ''*''")
    case True
    then show ?thesis using Cons glob_spec_star [of "c # p" "[]"] by (simp add: is_star_def skip_stars_def)
  next
    case False
    then show ?thesis using glob_spec_token_Nil [of "c # p"] by (simp add: is_star_def skip_stars_def)
  qed
qed (simp add: glob_spec_Nil skip_stars_def)

section \<open>Tokens take one character each\<close>

lemma class_loop_next: "snd (class_loop v m pattern) = snd (class_loop w m' pattern)"
proof (induction "length pattern" arbitrary: pattern m m' rule: less_induct)
  case less
  show ?case
  proof (cases pattern)
    case Nil
    then show ?thesis by (simp add: class_loop.simps)
  next
    case (Cons c rest)
    define escaped where "escaped = (c = CHR 0x5C \<and> rest \<noteq> [])"
    define first where "first = (if escaped then hd rest else c)"
    define x where "x = (if escaped then tl rest else rest)"
    have l: "length x < length pattern" "length (drop 2 x) < length pattern" by (auto simp: x_def Cons)
    have "class_loop u k pattern = (if c = CHR '']'' then (k, rest)
        else if \<not> escaped \<and> 2 \<le> length x \<and> hd x = CHR ''-''
          then class_loop u (k \<or> min (code_of first) (code_of (x ! 1)) \<le> code_of u \<and>
            code_of u \<le> max (code_of first) (code_of (x ! 1))) (drop 2 x)
          else class_loop u (k \<or> u = first) x)" for u k
      unfolding Cons
      by (subst class_loop.simps) (simp only: list.case Let_def flip: escaped_def first_def x_def)
    then show ?thesis
      using less.hyps [OF l(1)] less.hyps [OF l(2)] by (cases "c = CHR '']''") (simp_all split: if_split)
  qed
qed

definition advance :: "string \<Rightarrow> string" where
  "advance p = snd (glob_token p CHR ''x'')"

lemma glob_token_next: "snd (glob_token p c) = advance p"
  using class_loop_next [of c False _ "CHR ''x''" False]
  by (auto simp: advance_def glob_token_def MatchGlobCharacterClass_def Let_def split: list.split prod.split)
    (metis snd_conv)+

text \<open>
  From the pattern behind the last star and the text it is tried on, the loop has advanced over
  as many tokens as characters, none of them a star.
\<close>

definition plain :: "string \<Rightarrow> bool" where
  "plain p \<longleftrightarrow> p \<noteq> [] \<and> \<not> is_star p"

definition reached :: "string \<Rightarrow> string \<Rightarrow> string \<Rightarrow> string \<Rightarrow> bool" where
  "reached sp st p t \<longleftrightarrow>
     (\<exists>n\<le>length st. p = (advance ^^ n) sp \<and> t = drop n st \<and> (\<forall>i<n. plain ((advance ^^ i) sp)))"

lemma reached_refl: "reached p t p t"
  by (auto simp: reached_def intro: exI [of _ 0])

lemma reached_next:
  assumes "reached sp st p t" "plain p" "t \<noteq> []"
  shows "reached sp st (advance p) (tl t)"
proof -
  obtain n where n: "n \<le> length st" "p = (advance ^^ n) sp" "t = drop n st" "\<forall>i<n. plain ((advance ^^ i) sp)"
    using assms(1) by (auto simp: reached_def)
  have "Suc n \<le> length st" using assms(3) n(3) by simp
  moreover have "tl t = drop (Suc n) st" unfolding n(3) by (simp only: drop_Suc tl_drop)
  moreover have "\<forall>i<Suc n. plain ((advance ^^ i) sp)" using n(2,4) assms(2) by (simp add: less_Suc_eq)
  moreover have "advance p = (advance ^^ Suc n) sp" using n(2) by simp
  ultimately show ?thesis unfolding reached_def by blast
qed

lemma spec_advance:
  "\<forall>i<n. plain ((advance ^^ i) p) \<Longrightarrow> glob_spec p y \<Longrightarrow> n \<le> length y \<and> glob_spec ((advance ^^ n) p) (drop n y)"
proof (induction n)
  case (Suc n)
  then have n: "n \<le> length y" "glob_spec ((advance ^^ n) p) (drop n y)" "plain ((advance ^^ n) p)" by auto
  then have "drop n y \<noteq> []" using glob_spec_token_Nil [of "(advance ^^ n) p"] by (auto simp: plain_def)
  then show ?case
    using n glob_spec_token [of "(advance ^^ n) p" "drop n y"] tl_drop [of n y] drop_Suc [of n y]
    by (simp add: plain_def glob_token_next)
qed simp

text \<open>A later match behind the last star gives a later match at the current position.\<close>

lemma reached_later:
  assumes "reached sp st p t" "glob_spec sp (drop (Suc k) st)" "k < length st"
  shows "t \<noteq> [] \<and> glob_spec p (drop (Suc k) t)"
proof -
  obtain n where n: "n \<le> length st" "p = (advance ^^ n) sp" "t = drop n st" "\<forall>i<n. plain ((advance ^^ i) sp)"
    using assms(1) by (auto simp: reached_def)
  have l: "n \<le> length (drop (Suc k) st)" "glob_spec p (drop n (drop (Suc k) st))"
    using spec_advance [OF n(4) assms(2)] n(2) by simp_all
  have "drop n (drop (Suc k) st) = drop (Suc k) t" unfolding n(3) drop_drop by (simp add: add.commute)
  moreover have "t \<noteq> []" using l(1) n(3) assms(3) by simp
  ultimately show ?thesis using l(2) by simp
qed

section \<open>The loop computes the meaning\<close>

fun retry :: "(string \<times> string) option \<Rightarrow> bool" where
  "retry None = False"
| "retry (Some s) = (\<exists>k<length (snd s). glob_spec (fst s) (drop (Suc k) (snd s)))"

fun loop_ok :: "string \<Rightarrow> string \<Rightarrow> (string \<times> string) option \<Rightarrow> bool" where
  "loop_ok p t None = True"
| "loop_ok p t (Some s) = reached (fst s) (snd s) p t"

lemma retry_unfold:
  assumes "st \<noteq> []"
  shows "retry (Some (sp, st)) = (glob_spec sp (tl st) \<or> retry (Some (sp, tl st)))"
proof -
  obtain c x where st: "st = c # x" using assms by (cases st) simp_all
  show ?thesis unfolding st
    by (simp only: retry.simps fst_conv snd_conv length_Cons drop_Suc_Cons Ex_less_Suc2 drop0 list.sel)
qed

lemma spec_or_retry: "(glob_spec p t \<or> retry (Some (p, t))) = glob_spec (CHR ''*'' # p) t"
proof -
  have "glob_spec (CHR ''*'' # p) t = (\<exists>k<Suc (length t). glob_spec p (drop k t))"
    using glob_spec_star_iff [of "CHR ''*'' # p" t] by (simp add: is_star_def less_Suc_eq_le)
  also have "\<dots> = (glob_spec p t \<or> retry (Some (p, t)))"
    by (simp only: Ex_less_Suc2 drop0 retry.simps fst_conv snd_conv)
  finally show ?thesis by simp
qed

lemma retry_star:
  assumes "is_star p" "loop_ok p t star" "retry star"
  shows "glob_spec p t"
proof (cases star)
  case (Some s)
  then obtain k where "k < length (snd s)" "glob_spec (fst s) (drop (Suc k) (snd s))" using assms(3) by auto
  then have "glob_spec p (drop (Suc k) t)" using reached_later [of "fst s" "snd s" p t k] assms(2) Some by simp
  then show ?thesis by (rule glob_spec_star_suffix [OF assms(1)])
qed (use assms(3) in simp)

lemma retry_end: "loop_ok p [] star \<Longrightarrow> \<not> retry star"
  by (cases star) (auto dest: reached_later)

lemma glob_loop_star:
  "t \<noteq> [] \<Longrightarrow> is_star p \<Longrightarrow>
     glob_loop p t star = (skip_stars p = [] \<or> glob_loop (skip_stars p) t (Some (skip_stars p, t)))"
  by (subst glob_loop.simps) (simp add: is_star_def)

lemma glob_loop_hit:
  "t \<noteq> [] \<Longrightarrow> \<not> is_star p \<Longrightarrow> fst (glob_token p (hd t)) \<Longrightarrow>
     glob_loop p t star = glob_loop (snd (glob_token p (hd t))) (tl t) star"
  by (subst glob_loop.simps) (auto simp: is_star_def)

lemma glob_loop_miss:
  "t \<noteq> [] \<Longrightarrow> \<not> is_star p \<Longrightarrow> \<not> fst (glob_token p (hd t)) \<Longrightarrow>
     glob_loop p t star =
       (case star of
          None \<Rightarrow> False
        | Some s \<Rightarrow> snd s \<noteq> [] \<and> glob_loop (fst s) (tl (snd s)) (Some (fst s, tl (snd s))))"
  by (subst glob_loop.simps) (auto simp: is_star_def split: option.split)

lemma glob_loop_spec:
  "loop_ok p t star \<Longrightarrow> glob_loop p t star = (glob_spec p t \<or> retry star)"
proof (induction p t star rule: glob_loop.induct)
  case (1 p t star)
  consider (last) "t = []" | (star) "t \<noteq> []" "is_star p" | (hit) "t \<noteq> []" "\<not> is_star p" "fst (glob_token p (hd t))"
    | (miss) "t \<noteq> []" "\<not> is_star p" "\<not> fst (glob_token p (hd t))"
    by blast
  then show ?case
  proof cases
    case last
    then show ?thesis using retry_end [of p star] "1.prems" glob_loop.simps [of p t star] by (simp add: spec_at_end)
  next
    case star
    let ?p = "skip_stars p"
    have "glob_loop ?p t (Some (?p, t)) = (glob_spec ?p t \<or> retry (Some (?p, t)))" if "?p \<noteq> []"
      using "1.IH"(1) that star reached_refl [of ?p t] by (simp add: is_star_def)
    then have "glob_loop p t star = (?p = [] \<or> glob_spec p t)"
      using glob_loop_star [OF star, of star] star_step [OF star(2), of t] spec_or_retry [of ?p t] by blast
    also have "\<dots> = (glob_spec p t \<or> retry star)"
      using spec_stars_Nil [of p t] retry_star [OF star(2) "1.prems"] star(2) by blast
    finally show ?thesis .
  next
    case hit
    have p: "plain p" using hit by (auto simp: plain_def glob_token_def)
    have "loop_ok (snd (glob_token p (hd t))) (tl t) star"
      using "1.prems" reached_next [OF _ p hit(1)] by (cases star) (simp_all add: glob_token_next)
    then have "glob_loop (snd (glob_token p (hd t))) (tl t) star = (glob_spec (snd (glob_token p (hd t))) (tl t) \<or> retry star)"
      by (intro "1.IH"(2)) (use hit in \<open>simp_all add: is_star_def\<close>)
    then show ?thesis using glob_loop_hit [OF hit] glob_spec_token [OF hit(2,1)] hit(3) by simp
  next
    case miss
    have f: "\<not> glob_spec p t" using miss glob_spec_token [OF miss(2,1)] by simp
    show ?thesis
    proof (cases star)
      case None
      then show ?thesis using f glob_loop_miss [OF miss, of star] by simp
    next
      case (Some s)
      then have st: "snd s \<noteq> []" using "1.prems" miss(1) by (auto simp: reached_def)
      have "glob_loop (fst s) (tl (snd s)) (Some (fst s, tl (snd s))) =
          (glob_spec (fst s) (tl (snd s)) \<or> retry (Some (fst s, tl (snd s))))"
        by (rule "1.IH"(3)) (use miss Some st reached_refl in \<open>simp_all add: is_star_def\<close>)
      then show ?thesis
        using f glob_loop_miss [OF miss, of star] retry_unfold [OF st, of "fst s"] Some st by simp
    qed
  qed
qed

text \<open>
  (C34) The glob matcher is right. For every pattern and every text, the iterative matcher with
  its single backtracking point returns, and returns exactly what the recursive meaning of the
  pattern says: stars stand for any string, the other tokens (a question mark, a class, an
  escaped or a plain character) for one character each. The one deviation is the empty text,
  which only the empty pattern matches.
\<close>

theorem glob_match_correct:
  "RedisGlobMatch pattern text = (if text = [] then pattern = [] else glob_spec pattern text)"
  using glob_loop_spec [of pattern "text" None] by (simp add: RedisGlobMatch_def)

end
