(* ===== verification/Redis_Parse.thy ===== *)
theory Redis_Parse
  imports Decimal
begin

text \<open>
  Command arguments: the integer grammar of \<^verbatim>\<open>include/lavik/redis_parse.h\<close>, expiration deadlines
  of \<^verbatim>\<open>include/lavik/expiration.h\<close> and numeric endpoints of \<^verbatim>\<open>include/lavik/numeric_endpoint.h\<close>.
  The clock is an argument; the address conversions \<open>inet_pton\<close> and \<open>inet_ntop\<close> are parameters.
\<close>

section \<open>Integers\<close>

definition lower :: "char \<Rightarrow> nat" where
  "lower c = (let n = code_of c in if 65 \<le> n \<and> n \<le> 90 then n + 32 else n)"

definition RedisEqualsIgnoreCase :: "string \<Rightarrow> string \<Rightarrow> bool" where
  "RedisEqualsIgnoreCase left right \<longleftrightarrow>
     length left = length right \<and> list_all2 (\<lambda>a b. lower a = lower b) left right"

definition ParseRedisInt64 :: "string \<Rightarrow> int option" where
  "ParseRedisInt64 input =
     (if input = [] then None
      else let magnitude = (if hd input = CHR ''-'' then tl input else input) in
        if magnitude = [] \<or> 1 < length magnitude \<and> hd magnitude = CHR ''0'' \<or>
           hd input = CHR ''-'' \<and> magnitude = ''0'' \<or> code_of (hd magnitude) < 49 \<or> 57 < code_of (hd magnitude)
        then (if input = ''0'' then Some 0 else None)
        else if list_ex (\<lambda>digit. code_of digit < 48 \<or> 57 < code_of digit) magnitude then None
        else (case from_chars_signed int64_min int64_max input of
                None \<Rightarrow> None
              | Some (v, n) \<Rightarrow> if n = length input then Some v else None))"

section \<open>Expiration deadlines\<close>

datatype PastExpirationPolicy = kExpireImmediately | kRejectNonPositive

text \<open>\<open>count\<close> is what the system clock counts, in milliseconds.\<close>

definition RedisUnixTimeMillis :: "int \<Rightarrow> int" where
  "RedisUnixTimeMillis count = (if 0 < count then count else 0)"

text \<open>The multiplication and the addition are those of 64-bit signed integers.\<close>

definition int64_wrap :: "int \<Rightarrow> int" where
  "int64_wrap v = (v + 2 ^ 63) mod 2 ^ 64 - 2 ^ 63"

definition ParseRedisExpirationDeadline ::
    "int \<Rightarrow> string \<Rightarrow> bool \<Rightarrow> bool \<Rightarrow> PastExpirationPolicy \<Rightarrow> int status_or" where
  "ParseRedisExpirationDeadline count txt seconds absolute past_policy =
     (case ParseRedisInt64 txt of
        None \<Rightarrow> Inl InvalidArgument
      | Some v \<Rightarrow>
          if past_policy = kRejectNonPositive \<and> v \<le> 0 then Inl InvalidArgument
          else if seconds \<and> (int64_max div 1000 < v \<or> v < - (- int64_min div 1000)) then Inl InvalidArgument
          else let v = (if seconds then int64_wrap (v * 1000) else v);
                   now = RedisUnixTimeMillis count
               in if \<not> absolute \<and> int64_max - now < v then Inl InvalidArgument
                  else let v = (if absolute then v else int64_wrap (v + now)) in
                    if past_policy = kExpireImmediately \<and> v \<le> now then Inr 1
                    else if v \<le> 0 then Inl InvalidArgument
                    else Inr v)"

section \<open>Numeric endpoints\<close>

record NumericEndpoint =
  ne_host :: string
  ne_port :: u16

text \<open>
  The address family code outside the repository: text to address and address to text for both
  families. A C string ends at its first NUL.
\<close>

record ('a, 'b) inet =
  pton4 :: "string \<Rightarrow> 'a option"
  ntop4 :: "'a \<Rightarrow> string option"
  pton6 :: "string \<Rightarrow> 'b option"
  ntop6 :: "'b \<Rightarrow> string option"

definition c_str :: "string \<Rightarrow> string" where
  "c_str s = takeWhile (\<lambda>c. c \<noteq> CHR 0x00) s"

definition find_char :: "char \<Rightarrow> string \<Rightarrow> nat option" where
  "find_char c s = (let n = length (takeWhile (\<lambda>x. x \<noteq> c) s) in if n < length s then Some n else None)"

definition split_endpoint :: "string \<Rightarrow> (string \<times> string) option" where
  "split_endpoint endpoint =
     (if endpoint \<noteq> [] \<and> hd endpoint = CHR ''['' then
        (case find_char CHR '']'' endpoint of
           None \<Rightarrow> None
         | Some close \<Rightarrow>
             if length endpoint \<le> close + 1 \<or> endpoint ! (close + 1) \<noteq> CHR '':'' then None
             else Some (take (close - 1) (drop 1 endpoint), drop (close + 2) endpoint))
      else
        (case find_char CHR '':'' endpoint of
           None \<Rightarrow> None
         | Some colon \<Rightarrow>
             if CHR '':'' \<in> set (drop (colon + 1) endpoint) then None
             else Some (take colon endpoint, drop (colon + 1) endpoint)))"

definition parse_port :: "string \<Rightarrow> nat option" where
  "parse_port port_text =
     (case from_chars_unsigned 10 (2 ^ 32 - 1) port_text of
        None \<Rightarrow> None
      | Some (port, n) \<Rightarrow> if n \<noteq> length port_text \<or> port = 0 \<or> 65535 < port then None else Some port)"

definition normalize_host :: "('a, 'b) inet \<Rightarrow> string \<Rightarrow> string option" where
  "normalize_host net host_text =
     (case pton4 net (c_str host_text) of
        Some address4 \<Rightarrow> ntop4 net address4
      | None \<Rightarrow> (case pton6 net (c_str host_text) of Some address6 \<Rightarrow> ntop6 net address6 | None \<Rightarrow> None))"

definition ParseNumericEndpoint :: "('a, 'b) inet \<Rightarrow> string \<Rightarrow> NumericEndpoint option" where
  "ParseNumericEndpoint net endpoint =
     (case split_endpoint endpoint of
        None \<Rightarrow> None
      | Some (host, port_text) \<Rightarrow>
          if host = [] \<or> port_text = [] then None
          else (case parse_port port_text of
                  None \<Rightarrow> None
                | Some port \<Rightarrow>
                    (case normalize_host net host of
                       None \<Rightarrow> None
                     | Some normalized \<Rightarrow> Some \<lparr>ne_host = c_str normalized, ne_port = word_of_nat port\<rparr>)))"

definition FormatNumericEndpoint :: "NumericEndpoint \<Rightarrow> string" where
  "FormatNumericEndpoint endpoint =
     (if find_char CHR '':'' (ne_host endpoint) \<noteq> None
      then ''['' @ ne_host endpoint @ '']:'' @ to_chars (unat (ne_port endpoint))
      else ne_host endpoint @ '':'' @ to_chars (unat (ne_port endpoint)))"

section \<open>The integer grammar\<close>

lemma digit_value: "is_digit 10 c \<longleftrightarrow> 48 \<le> code_of c \<and> code_of c \<le> 57"
  by (auto simp: is_digit_def digit_of_def Let_def)

lemma the_digit: "is_digit 10 c \<Longrightarrow> digit_char (the (digit_of 10 c)) = c \<and> the (digit_of 10 c) < 10"
  by (auto simp: digit_value digit_of_def Let_def digit_char_def code_of_def)

lemma digits_value_snoc: "digits_value 10 acc (ds @ [d]) = digits_value 10 acc ds * 10 + the (digit_of 10 d)"
  by (simp add: digits_value_append)

lemma digits_value_pos: "ds \<noteq> [] \<Longrightarrow> \<forall>c\<in>set ds. is_digit 10 c \<Longrightarrow> hd ds \<noteq> CHR ''0'' \<Longrightarrow> 0 < digits_value 10 0 ds"
proof (induction ds rule: rev_induct)
  case (snoc d ds)
  show ?case
  proof (cases "ds = []")
    case True
    then have "is_digit 10 d" "d \<noteq> CHR ''0''" using snoc.prems by simp_all
    moreover have "digit_char 0 = CHR ''0''" by (simp add: digit_char_def char_of_eq_iff)
    ultimately have "the (digit_of 10 d) \<noteq> 0" using the_digit [of d] by metis
    then show ?thesis using True by simp
  next
    case False
    then show ?thesis using snoc by (simp add: digits_value_snoc)
  qed
qed simp

lemma to_chars_digits_value:
  "ds \<noteq> [] \<Longrightarrow> \<forall>c\<in>set ds. is_digit 10 c \<Longrightarrow> hd ds \<noteq> CHR ''0'' \<or> length ds = 1 \<Longrightarrow> to_chars (digits_value 10 0 ds) = ds"
proof (induction ds rule: rev_induct)
  case (snoc d ds)
  note d = the_digit [of d]
  show ?case
  proof (cases "ds = []")
    case True
    then show ?thesis using snoc.prems d by (simp add: to_chars.simps [of "the (digit_of 10 d)"])
  next
    case False
    then have h: "hd ds \<noteq> CHR ''0''" using snoc.prems(3) by (auto simp: neq_Nil_conv)
    let ?v = "digits_value 10 0 ds"
    have "0 < ?v" using digits_value_pos [of ds] False h snoc.prems(2) by simp
    moreover have "to_chars ?v = ds" using snoc.IH False h snoc.prems(2) by simp
    ultimately show ?thesis
      using d snoc.prems(2) by (simp add: digits_value_snoc to_chars.simps [of "?v * 10 + the (digit_of 10 d)"])
  qed
qed simp

lemma hd_to_chars_pos: "0 < n \<Longrightarrow> hd (to_chars n) \<noteq> CHR ''0''"
proof (induction n rule: to_chars.induct)
  case (1 n)
  show ?case
  proof (cases "n < 10")
    case True
    then show ?thesis
      using 1 by (auto simp: to_chars.simps [of n] digit_char_def char_of_eq_iff take_bit_eq_mod)
  next
    case False
    then show ?thesis using 1 by (simp add: to_chars.simps [of n])
  qed
qed

lemma magnitude_digits:
  "s \<noteq> [] \<Longrightarrow> \<forall>c\<in>set s. is_digit 10 c \<Longrightarrow> magnitude 10 s = Some (digits_value 10 0 s, length s)"
  by (simp add: magnitude_def takeWhile_eq_all_conv [THEN iffD2])

lemma not_digits: "list_ex (\<lambda>d. code_of d < 48 \<or> 57 < code_of d) s \<longleftrightarrow> \<not> (\<forall>c\<in>set s. is_digit 10 c)"
  by (auto simp: list_ex_iff digit_value not_le)

lemma minus_zero_chars: "code_of CHR ''0'' = 48" "code_of CHR ''-'' = 45"
  by (simp_all add: code_of_def)

lemma code_of_zero: "code_of c = 48 \<longleftrightarrow> c = CHR ''0''"
  by (metis code_of_def minus_zero_chars(1) of_char_eq_iff)

lemma parse_int64_natural:
  assumes "s \<noteq> []" "hd s \<noteq> CHR ''-''" "hd s \<noteq> CHR ''0''"
  shows "ParseRedisInt64 s = Some v \<longleftrightarrow> (\<forall>c\<in>set s. is_digit 10 c) \<and> v = int (digits_value 10 0 s) \<and> v \<le> int64_max"
proof (cases "\<forall>c\<in>set s. is_digit 10 c")
  case True
  then have h: "48 \<le> code_of (hd s)" "code_of (hd s) \<le> 57" using assms(1) by (auto simp: digit_value)
  moreover have "code_of (hd s) \<noteq> 48" using assms(3) by (simp add: code_of_zero)
  ultimately have "ParseRedisInt64 s = (case from_chars_signed int64_min int64_max s of
      None \<Rightarrow> None | Some (v, n) \<Rightarrow> if n = length s then Some v else None)"
    using assms True by (auto simp: ParseRedisInt64_def Let_def not_digits)
  also have "from_chars_signed int64_min int64_max s =
      (if int64_max < int (digits_value 10 0 s) then None else Some (int (digits_value 10 0 s), length s))"
    using assms True magnitude_digits [of s] by (cases s) (simp_all add: from_chars_signed_def)
  finally show ?thesis using True by auto
next
  case False
  then show ?thesis using assms by (auto simp: ParseRedisInt64_def Let_def not_digits)
qed

lemma parse_int64_negative:
  "ParseRedisInt64 (CHR ''-'' # s) = Some v \<longleftrightarrow>
     s \<noteq> [] \<and> hd s \<noteq> CHR ''0'' \<and> (\<forall>c\<in>set s. is_digit 10 c) \<and> v = - int (digits_value 10 0 s) \<and> int64_min \<le> v"
proof (cases "s \<noteq> [] \<and> hd s \<noteq> CHR ''0'' \<and> (\<forall>c\<in>set s. is_digit 10 c)")
  case True
  then have h: "48 \<le> code_of (hd s)" "code_of (hd s) \<le> 57" by (auto simp: digit_value)
  moreover have "code_of (hd s) \<noteq> 48" using True by (simp add: code_of_zero)
  ultimately have "ParseRedisInt64 (CHR ''-'' # s) = (case from_chars_signed int64_min int64_max (CHR ''-'' # s) of
      None \<Rightarrow> None | Some (v, n) \<Rightarrow> if n = length (CHR ''-'' # s) then Some v else None)"
    using True by (auto simp: ParseRedisInt64_def Let_def not_digits)
  also have "from_chars_signed int64_min int64_max (CHR ''-'' # s) =
      (if - int (digits_value 10 0 s) < int64_min then None else Some (- int (digits_value 10 0 s), length s + 1))"
    using True magnitude_digits [of s] by (simp add: from_chars_signed_def)
  finally show ?thesis using True by auto
next
  case False
  then have "ParseRedisInt64 (CHR ''-'' # s) = None"
    by (cases s) (auto simp: ParseRedisInt64_def Let_def not_digits minus_zero_chars)
  then show ?thesis using False by auto
qed

lemma int64_parse_iff:
  "ParseRedisInt64 s = Some v \<longleftrightarrow> int64_min \<le> v \<and> v \<le> int64_max \<and> s = to_chars_signed v"
proof -
  consider (empty) "s = []" | (neg) x where "s = CHR ''-'' # x" | (zero) "s \<noteq> []" "hd s = CHR ''0''"
    | (nat) "s \<noteq> []" "hd s \<noteq> CHR ''-''" "hd s \<noteq> CHR ''0''"
    by (cases s) auto
  then show ?thesis
  proof cases
    case empty
    then show ?thesis by (simp add: ParseRedisInt64_def to_chars_signed_def eq_commute [of "[]"])
  next
    case neg
    have "s = to_chars_signed v \<longleftrightarrow> v < 0 \<and> x = to_chars (nat (- v))"
      using hd_to_chars_not_minus [of "nat v"] by (auto simp: neg to_chars_signed_def dest: arg_cong [of _ _ hd])
    moreover have "x \<noteq> [] \<and> hd x \<noteq> CHR ''0'' \<and> (\<forall>c\<in>set x. is_digit 10 c) \<and> v = - int (digits_value 10 0 x) \<longleftrightarrow>
        v < 0 \<and> x = to_chars (nat (- v))"
      using to_chars_digits_value [of x] digits_value_pos [of x] hd_to_chars_pos [of "nat (- v)"] to_chars_digits [of "nat (- v)"]
      by auto
    ultimately show ?thesis unfolding neg parse_int64_negative by (auto simp: int64_max_def)
  next
    case zero
    have "ParseRedisInt64 s = Some v \<longleftrightarrow> s = ''0'' \<and> v = 0"
      using zero by (cases s) (auto simp: ParseRedisInt64_def Let_def minus_zero_chars)
    moreover have "s = to_chars_signed v \<longleftrightarrow> s = ''0'' \<and> v = 0"
    proof (cases "v = 0")
      case True
      then show ?thesis by (simp add: to_chars_signed_def to_chars.simps [of 0] digit_chars)
    next
      case False
      then have "s \<noteq> to_chars_signed v" using zero hd_to_chars_pos [of "nat v"] by (auto simp: to_chars_signed_def)
      then show ?thesis using False by simp
    qed
    ultimately show ?thesis by (auto simp: int64_max_def int64_min_def)
  next
    case nat
    have "(\<forall>c\<in>set s. is_digit 10 c) \<and> v = int (digits_value 10 0 s) \<longleftrightarrow> 0 < v \<and> s = to_chars (nat v)"
      using nat to_chars_digits_value [of s] digits_value_pos [of s] to_chars_digits [of "nat v"] by auto
    moreover have "s = to_chars_signed v \<longleftrightarrow> 0 < v \<and> s = to_chars (nat v)"
      using nat by (cases "v = 0") (auto simp: to_chars_signed_def to_chars.simps [of 0] digit_chars)
    ultimately show ?thesis unfolding parse_int64_natural [OF nat] by (auto simp: int64_min_def)
  qed
qed

text \<open>
  (C38) The integer grammar is canonical: a text is accepted as \<open>v\<close> exactly when \<open>v\<close> is a 64-bit
  signed integer and the text is its decimal representation. No value has a second spelling, and
  every representable value has one, the smallest included.
\<close>

theorem int64_canonical:
  "ParseRedisInt64 s = Some v \<longleftrightarrow> int64_min \<le> v \<and> v \<le> int64_max \<and> s = to_chars_signed v"
  by (rule int64_parse_iff)

section \<open>Deadlines\<close>

lemma int64_wrap_id: "int64_min \<le> v \<Longrightarrow> v \<le> int64_max \<Longrightarrow> int64_wrap v = v"
  by (simp add: int64_wrap_def int64_min_def int64_max_def)

lemma guard_scaled:
  "int64_max div 1000 < v \<longleftrightarrow> int64_max < v * 1000" "v < - (- int64_min div 1000) \<longleftrightarrow> v * 1000 < int64_min"
  by (auto simp: int64_max_def int64_min_def)

text \<open>
  (C39) Expiration deadlines are computed without overflow. For a clock within the 64-bit range
  and a text that denotes \<open>v\<close>, the answer is the one of unbounded arithmetic on \<open>v\<close> milliseconds
  or seconds from now or from the epoch: refused when a non-positive value is not allowed or when
  the deadline exceeds the largest 64-bit integer, the sentinel 1 when it has already passed and
  that is allowed, the exact deadline otherwise.
\<close>

theorem deadline_exact:
  assumes "ParseRedisInt64 txt = Some v" "count \<le> int64_max"
  shows "ParseRedisExpirationDeadline count txt seconds absolute policy =
    (let unit = (if seconds then 1000 else 1);
         now = max 0 count;
         deadline = (if absolute then v * unit else v * unit + now)
     in if policy = kRejectNonPositive \<and> v \<le> 0 then Inl InvalidArgument
        else if int64_max < v * unit \<or> v * unit < int64_min then Inl InvalidArgument
        else if int64_max < deadline then Inl InvalidArgument
        else if policy = kExpireImmediately \<and> deadline \<le> now then Inr 1
        else if deadline \<le> 0 then Inl InvalidArgument
        else Inr deadline)"
proof -
  let ?unit = "if seconds then 1000 else 1 :: int" and ?now = "max 0 count"
  have v: "int64_min \<le> v" "v \<le> int64_max" using assms(1) by (simp_all add: int64_parse_iff)
  have n: "RedisUnixTimeMillis count = ?now" "0 \<le> ?now" "?now \<le> int64_max"
    using assms(2) by (auto simp: RedisUnixTimeMillis_def int64_max_def)
  have e: "ParseRedisExpirationDeadline count txt seconds absolute policy =
    (if policy = kRejectNonPositive \<and> v \<le> 0 then Inl InvalidArgument
     else if int64_max < v * ?unit \<or> v * ?unit < int64_min then Inl InvalidArgument
     else if \<not> absolute \<and> int64_max - ?now < v * ?unit then Inl InvalidArgument
     else let w = (if absolute then v * ?unit else int64_wrap (v * ?unit + ?now)) in
       if policy = kExpireImmediately \<and> w \<le> ?now then Inr 1 else if w \<le> 0 then Inl InvalidArgument else Inr w)"
    using v int64_wrap_id [of "v * 1000"]
    by (cases seconds) (simp_all add: ParseRedisExpirationDeadline_def assms(1) n(1) Let_def guard_scaled)
  have "int64_wrap (v * ?unit + ?now) = v * ?unit + ?now" if "\<not> int64_max - ?now < v * ?unit" "\<not> v * ?unit < int64_min"
    using that n by (intro int64_wrap_id) linarith+
  then show ?thesis unfolding e using n(2,3) by (cases absolute) (simp_all add: Let_def less_diff_eq diff_less_eq)
qed

theorem deadline_exact_witness:
  "ParseRedisExpirationDeadline 1700000000000 ''100'' True False kRejectNonPositive = Inr 1700000100000"
proof -
  have "ParseRedisInt64 ''100'' = Some 100"
    by (simp add: int64_parse_iff int64_max_def int64_min_def to_chars_signed_def to_chars.simps digit_chars digit_chars(2) [simplified])
  from deadline_exact [OF this, of 1700000000000 True False kRejectNonPositive] show ?thesis
    by (simp add: int64_max_def int64_min_def)
qed

section \<open>Endpoints\<close>

text \<open>
  What is documented of the address conversions: the text of an address is read back, a dotted
  IPv4 text has neither a colon nor a bracket, an IPv6 text has a colon and no bracket and is no
  IPv4 text, and neither has a NUL.
\<close>

definition inet_ok :: "('a, 'b) inet \<Rightarrow> bool" where
  "inet_ok net \<longleftrightarrow>
     (\<forall>a s. ntop4 net a = Some s \<longrightarrow>
        pton4 net s = Some a \<and> s \<noteq> [] \<and> hd s \<noteq> CHR ''['' \<and> CHR '':'' \<notin> set s \<and> CHR 0x00 \<notin> set s) \<and>
     (\<forall>a s. ntop6 net a = Some s \<longrightarrow>
        pton6 net s = Some a \<and> pton4 net s = None \<and> CHR '':'' \<in> set s \<and> CHR '']'' \<notin> set s \<and> CHR 0x00 \<notin> set s)"

lemma find_char_append: "c \<notin> set s \<Longrightarrow> find_char c (s @ c # rest) = Some (length s)"
  by (simp add: find_char_def takeWhile_append)

lemma find_char_None: "find_char c s = None \<longleftrightarrow> c \<notin> set s"
proof
  assume "find_char c s = None"
  then have "length s \<le> length (takeWhile (\<lambda>x. x \<noteq> c) s)" by (simp add: find_char_def Let_def split: if_splits)
  then have "takeWhile (\<lambda>x. x \<noteq> c) s = s" by (metis length_takeWhile_le le_antisym takeWhile_eq_take take_all_iff)
  then show "c \<notin> set s" by (metis (mono_tags) takeWhile_eq_all_conv)
next
  assume "c \<notin> set s"
  then have t: "takeWhile (\<lambda>x. x \<noteq> c) s = s" by (auto simp: takeWhile_eq_all_conv)
  show "find_char c s = None" by (simp only: find_char_def Let_def t less_irrefl if_False)
qed

lemma c_str_id: "CHR 0x00 \<notin> set s \<Longrightarrow> c_str s = s"
  by (auto simp: c_str_def takeWhile_eq_all_conv)

lemma colon_not_digit: "CHR '':'' \<notin> set (to_chars n)"
  using to_chars_digits [of n] by (auto simp: digit_value code_of_def)

lemma parse_port_to_chars: "0 < n \<Longrightarrow> n \<le> 65535 \<Longrightarrow> parse_port (to_chars n) = Some n"
  using magnitude_to_chars [of "[]" n] by (simp add: parse_port_def from_chars_unsigned_def)

lemma parse_formatted_v4:
  assumes "CHR '':'' \<notin> set h" "h \<noteq> []" "hd h \<noteq> CHR ''[''" "CHR 0x00 \<notin> set h" "normalize_host net h = Some h" "0 < p" "p \<le> 65535"
  shows "ParseNumericEndpoint net (h @ '':'' @ to_chars p) = Some \<lparr>ne_host = h, ne_port = word_of_nat p\<rparr>"
  using assms find_char_append [OF assms(1), of "to_chars p"]
  by (simp add: ParseNumericEndpoint_def split_endpoint_def colon_not_digit parse_port_to_chars c_str_id)

lemma parse_formatted_v6:
  assumes "CHR '']'' \<notin> set h" "h \<noteq> []" "CHR 0x00 \<notin> set h" "normalize_host net h = Some h" "0 < p" "p \<le> 65535"
  shows "ParseNumericEndpoint net (''['' @ h @ '']:'' @ to_chars p) = Some \<lparr>ne_host = h, ne_port = word_of_nat p\<rparr>"
proof -
  have "CHR '']'' \<notin> set (CHR ''['' # h)" using assms(1) by simp
  from find_char_append [OF this, of "CHR '':'' # to_chars p"] assms(2-) show ?thesis
    by (simp add: ParseNumericEndpoint_def split_endpoint_def parse_port_to_chars c_str_id nth_append)
qed

text \<open>
  Formatting an endpoint gives its canonical spelling: whatever text was accepted, the
  formatted endpoint is accepted again and denotes the same host and port, so that every accepted
  text has one normal form.
\<close>

theorem endpoint_normal_form:
  assumes "inet_ok net" "ParseNumericEndpoint net txt = Some e"
  shows "ParseNumericEndpoint net (FormatNumericEndpoint e) = Some e \<and> ne_port e \<noteq> 0"
proof -
  obtain h p n where e: "e = \<lparr>ne_host = c_str n, ne_port = word_of_nat p\<rparr>" "normalize_host net h = Some n" "0 < p" "p \<le> 65535"
    using assms(2)
    by (auto simp: ParseNumericEndpoint_def parse_port_def split: option.splits prod.splits if_splits)
  have p: "unat (word_of_nat p :: u16) = p" using e(4) by (simp add: unsigned_of_nat take_bit_eq_mod)
  then have "(word_of_nat p :: u16) \<noteq> 0" using e(3) by auto
  consider (four) a where "ntop4 net a = Some n" | (six) a where "ntop6 net a = Some n"
    using e(2) by (auto simp: normalize_host_def split: option.splits)
  then have "ParseNumericEndpoint net (FormatNumericEndpoint e) = Some e"
  proof cases
    case four
    then have a: "pton4 net n = Some a" "n \<noteq> []" "hd n \<noteq> CHR ''[''" "CHR '':'' \<notin> set n" "CHR 0x00 \<notin> set n"
      using assms(1) unfolding inet_ok_def by blast+
    then have "normalize_host net n = Some n" using four by (simp add: normalize_host_def c_str_id)
    with a e(3,4) have "ParseNumericEndpoint net (n @ '':'' @ to_chars p) = Some \<lparr>ne_host = n, ne_port = word_of_nat p\<rparr>"
      by (intro parse_formatted_v4)
    moreover have "FormatNumericEndpoint e = n @ '':'' @ to_chars p"
      using a(4) find_char_None [of "CHR '':''" n] by (simp add: FormatNumericEndpoint_def e(1) c_str_id a(5) p)
    ultimately show ?thesis by (simp only: e(1) c_str_id [OF a(5)])
  next
    case six
    then have a: "pton6 net n = Some a" "pton4 net n = None" "CHR '':'' \<in> set n" "CHR '']'' \<notin> set n" "CHR 0x00 \<notin> set n"
      using assms(1) unfolding inet_ok_def by blast+
    then have "normalize_host net n = Some n" using six by (simp add: normalize_host_def c_str_id)
    with a e(3,4) have "ParseNumericEndpoint net (''['' @ n @ '']:'' @ to_chars p) = Some \<lparr>ne_host = n, ne_port = word_of_nat p\<rparr>"
      by (intro parse_formatted_v6) auto
    moreover have "FormatNumericEndpoint e = ''['' @ n @ '']:'' @ to_chars p"
      using a(3) find_char_None [of "CHR '':''" n] by (auto simp: FormatNumericEndpoint_def e(1) c_str_id [OF a(5)] p)
    ultimately show ?thesis by (simp only: e(1) c_str_id [OF a(5)])
  qed
  with \<open>word_of_nat p \<noteq> 0\<close> show ?thesis by (simp add: e(1))
qed

definition demo_inet :: "(unit, unit) inet" where
  "demo_inet = \<lparr>pton4 = (\<lambda>s. if s = ''10.0.0.1'' then Some () else None), ntop4 = (\<lambda>_. Some ''10.0.0.1''),
     pton6 = (\<lambda>s. if s = ''::1'' \<or> s = ''0::1'' then Some () else None), ntop6 = (\<lambda>_. Some ''::1'')\<rparr>"

theorem endpoint_normal_form_witness:
  "ParseNumericEndpoint demo_inet ''[0::1]:7'' = Some \<lparr>ne_host = ''::1'', ne_port = 7\<rparr> \<and>
   ParseNumericEndpoint demo_inet ''[::1]:7'' = Some \<lparr>ne_host = ''::1'', ne_port = 7\<rparr>"
proof -
  have "inet_ok demo_inet" by (simp add: inet_ok_def demo_inet_def)
  moreover have d: "digit_of 10 CHR ''7'' = Some 7" by (simp add: digit_of_def code_of_def)
  then have p: "ParseNumericEndpoint demo_inet ''[0::1]:7'' = Some \<lparr>ne_host = ''::1'', ne_port = 7\<rparr>"
    by (simp add: ParseNumericEndpoint_def split_endpoint_def find_char_def parse_port_def from_chars_unsigned_def magnitude_def
        is_digit_def normalize_host_def demo_inet_def c_str_def)
  ultimately have "ParseNumericEndpoint demo_inet (FormatNumericEndpoint \<lparr>ne_host = ''::1'', ne_port = 7\<rparr>) =
      Some \<lparr>ne_host = ''::1'', ne_port = 7\<rparr>"
    using endpoint_normal_form by blast
  with p show ?thesis
    by (simp add: FormatNumericEndpoint_def find_char_def to_chars.simps digit_chars)
qed

text \<open>
  What follows a NUL in the host is ignored: the host is handed on as a C string, so a text that
  is no endpoint by the grammar is accepted for the endpoint in front of the NUL.
\<close>

lemma embedded_nul_ignored:
  assumes "CHR '':'' \<notin> set h" "CHR '':'' \<notin> set junk" "h \<noteq> []" "hd h \<noteq> CHR ''[''" "CHR 0x00 \<notin> set h"
  shows "ParseNumericEndpoint net (h @ CHR 0x00 # junk @ CHR '':'' # port) = ParseNumericEndpoint net (h @ CHR '':'' # port)"
proof -
  have f: "find_char CHR '':'' (h @ CHR 0x00 # junk @ CHR '':'' # port) = Some (length (h @ CHR 0x00 # junk))"
    "find_char CHR '':'' (h @ CHR '':'' # port) = Some (length h)"
    using find_char_append [of "CHR '':''" "h @ CHR 0x00 # junk" port] find_char_append [of "CHR '':''" h port] assms(1,2) by simp_all
  have c: "c_str (h @ CHR 0x00 # junk) = h" "c_str h = h" using assms(5) by (auto simp: c_str_def takeWhile_append)
  have n: "normalize_host net (h @ CHR 0x00 # junk) = normalize_host net h" by (simp only: normalize_host_def c)
  show ?thesis using assms(3,4) by (simp add: ParseNumericEndpoint_def split_endpoint_def f n split: option.split)
qed

end
