(* ===== verification/Frontier.thy ===== *)
theory Frontier
  imports Prelude
begin

text \<open>
  The applied frontier of a replica, \<^verbatim>\<open>src/replication/replica_applied_frontier.cpp\<close>: for every
  source flow the sequence number (LSN) of the next event to apply. A publication that covers
  several flows is bracketed by two increments of its publisher's sequence number, so that a
  snapshot can tell whether it overlapped a publication. Every atomic access of \<open>TrySnapshot\<close> is a
  step of a reader of its own.
\<close>

unbundle bit_operations_syntax

record PublisherSlot =
  ps_published :: u64
  ps_next_sequence :: u64

record ReplicaAppliedFrontier =
  fr_flows :: "u64 list"
  fr_publishers :: "PublisherSlot list"
  fr_poisoned :: bool

record FlowApplied =
  fa_flow_id :: nat
  fa_applied_lsn :: u64

definition kSnapshotAttempts :: nat where
  "kSnapshotAttempts = 64"

definition new_frontier :: "nat \<Rightarrow> nat \<Rightarrow> ReplicaAppliedFrontier" where
  "new_frontier flow_count publisher_count =
     \<lparr>fr_flows = replicate flow_count 1,
      fr_publishers = replicate (max 1 publisher_count) \<lparr>ps_published = 0, ps_next_sequence = 0\<rparr>,
      fr_poisoned = False\<rparr>"

definition InitialAppliedNextLsnsForReconnect :: "nat \<Rightarrow> u64 list \<Rightarrow> bool \<Rightarrow> u64 list status_or" where
  "InitialAppliedNextLsnsForReconnect source_flow_count requested exact_resume_context_matches =
     (if source_flow_count = 0 then Inl InvalidArgument
      else if \<not> exact_resume_context_matches then Inr (replicate source_flow_count 1)
      else if length requested \<noteq> source_flow_count then Inl FailedPrecondition
      else if list_ex (\<lambda>lsn. lsn = 0) requested then Inl InvalidArgument
      else Inr requested)"

section \<open>Publication\<close>

definition ValidateAdvance :: "ReplicaAppliedFrontier \<Rightarrow> nat \<Rightarrow> u64 \<Rightarrow> unit status_or" where
  "ValidateAdvance fr flow_id applied_lsn =
     (if flow_id \<ge> length (fr_flows fr) then Inl InvalidArgument
      else if applied_lsn = 0 then Inl InvalidArgument
      else if applied_lsn = - 1 then Inl OutOfRange
      else if fr_poisoned fr then Inl FailedPrecondition
      else let current = fr_flows fr ! flow_id in
        if current = applied_lsn \<or> current = applied_lsn + 1 then Inr ()
        else Inl FailedPrecondition)"

definition StoreNextLsn :: "nat \<Rightarrow> u64 \<Rightarrow> ReplicaAppliedFrontier \<Rightarrow> ReplicaAppliedFrontier" where
  "StoreNextLsn flow_id next_lsn fr = fr\<lparr>fr_flows := (fr_flows fr)[flow_id := next_lsn]\<rparr>"

definition AdvanceAfterApply ::
  "ReplicaAppliedFrontier \<Rightarrow> nat \<Rightarrow> u64 \<Rightarrow> unit status_or \<times> ReplicaAppliedFrontier" where
  "AdvanceAfterApply fr flow_id applied_lsn =
     (case ValidateAdvance fr flow_id applied_lsn of
        Inl e \<Rightarrow> (Inl e, fr)
      | Inr _ \<Rightarrow>
          if fr_flows fr ! flow_id = applied_lsn + 1 then (Inr (), fr)
          else (Inr (), StoreNextLsn flow_id (applied_lsn + 1) fr))"

definition raise_sequence :: "nat \<Rightarrow> ReplicaAppliedFrontier \<Rightarrow> ReplicaAppliedFrontier" where
  "raise_sequence publisher_id fr =
     (let s = ps_next_sequence (fr_publishers fr ! publisher_id) + 1 in
      fr\<lparr>fr_publishers := (fr_publishers fr)[publisher_id := \<lparr>ps_published = s, ps_next_sequence = s\<rparr>]\<rparr>)"

definition BeginPublication :: "nat \<Rightarrow> ReplicaAppliedFrontier \<Rightarrow> unit status_or \<times> ReplicaAppliedFrontier" where
  "BeginPublication publisher_id fr =
     (if publisher_id \<ge> length (fr_publishers fr) then (Inl InvalidArgument, fr)
      else if ps_next_sequence (fr_publishers fr ! publisher_id) > - 1 - 2
      then (Inl ResourceExhausted, fr\<lparr>fr_poisoned := True\<rparr>)
      else (Inr (), raise_sequence publisher_id fr))"

definition EndPublication :: "nat \<Rightarrow> ReplicaAppliedFrontier \<Rightarrow> ReplicaAppliedFrontier" where
  "EndPublication publisher_id fr = raise_sequence publisher_id fr"

text \<open>The validation loop of a batch: the updates before the current one are \<open>seen\<close>.\<close>

fun validate_batch :: "ReplicaAppliedFrontier \<Rightarrow> FlowApplied list \<Rightarrow> FlowApplied list \<Rightarrow> unit status_or" where
  "validate_batch fr seen [] = Inr ()"
| "validate_batch fr seen (u # us) =
     (case ValidateAdvance fr (fa_flow_id u) (fa_applied_lsn u) of
        Inl e \<Rightarrow> Inl e
      | Inr _ \<Rightarrow>
          if list_ex (\<lambda>v. fa_flow_id v = fa_flow_id u) seen then Inl InvalidArgument
          else validate_batch fr (seen @ [u]) us)"

definition store_update :: "FlowApplied \<Rightarrow> ReplicaAppliedFrontier \<Rightarrow> ReplicaAppliedFrontier" where
  "store_update u fr =
     (if fr_flows fr ! fa_flow_id u = fa_applied_lsn u
      then StoreNextLsn (fa_flow_id u) (fa_applied_lsn u + 1) fr else fr)"

definition AdvanceBatchAfterApply ::
  "nat \<Rightarrow> FlowApplied list \<Rightarrow> ReplicaAppliedFrontier \<Rightarrow> unit status_or \<times> ReplicaAppliedFrontier" where
  "AdvanceBatchAfterApply publisher_id updates fr =
     (if updates = [] then (Inl InvalidArgument, fr)
      else if publisher_id \<ge> length (fr_publishers fr) then (Inl InvalidArgument, fr)
      else case validate_batch fr [] updates of
        Inl e \<Rightarrow> (Inl e, fr)
      | Inr _ \<Rightarrow>
          (case BeginPublication publisher_id fr of
             (Inl e, fr') \<Rightarrow> (Inl e, fr')
           | (Inr _, fr') \<Rightarrow> (Inr (), EndPublication publisher_id (fold store_update updates fr'))))"

definition install_check :: "u64 list \<Rightarrow> ReplicaAppliedFrontier \<Rightarrow> unit status_or" where
  "install_check next_lsns fr =
     (if length next_lsns \<noteq> length (fr_flows fr) then Inl InvalidArgument
      else if list_ex (\<lambda>lsn. lsn = 0) next_lsns then Inl InvalidArgument
      else if fr_poisoned fr then Inl FailedPrecondition
      else Inr ())"

definition InstallNextLsns :: "u64 list \<Rightarrow> ReplicaAppliedFrontier \<Rightarrow> unit status_or \<times> ReplicaAppliedFrontier" where
  "InstallNextLsns next_lsns fr =
     (case install_check next_lsns fr of
        Inl e \<Rightarrow> (Inl e, fr)
      | Inr _ \<Rightarrow>
          (case BeginPublication 0 fr of
             (Inl e, fr') \<Rightarrow> (Inl e, fr')
           | (Inr _, fr') \<Rightarrow>
               (Inr (), EndPublication 0
                  (fold (\<lambda>flow. StoreNextLsn flow (next_lsns ! flow)) [0..<length (fr_flows fr)] fr'))))"

text \<open>The diagnostic total saturates at the largest 64-bit number.\<close>

fun total_loop :: "u64 list \<Rightarrow> u64 \<Rightarrow> u64" where
  "total_loop [] acc = acc"
| "total_loop (next_lsn # rest) acc = (if next_lsn > - 1 - acc then - 1 else total_loop rest (acc + next_lsn))"

definition ApproximateTotalNextLsn :: "ReplicaAppliedFrontier \<Rightarrow> u64" where
  "ApproximateTotalNextLsn fr = total_loop (fr_flows fr) 0"

section \<open>Snapshots\<close>

text \<open>
  A reader between two atomic accesses of \<open>TrySnapshot\<close>: the attempt, the sequence numbers seen
  before the scan, the flows read so far and the number of sequence numbers checked after it.
\<close>

datatype reader =
    RStart
  | RBefore nat "u64 list"
  | RFlows nat "u64 list" "u64 list"
  | RAfter nat "u64 list" "u64 list" nat
  | RFinal nat "u64 list"
  | RDone "u64 list status_or"

definition next_attempt :: "nat \<Rightarrow> reader" where
  "next_attempt attempt =
     (if attempt + 1 < kSnapshotAttempts then RBefore (attempt + 1) [] else RDone (Inl Unavailable))"

fun reader_step :: "ReplicaAppliedFrontier \<Rightarrow> reader \<Rightarrow> reader" where
  "reader_step fr RStart = (if fr_poisoned fr then RDone (Inl FailedPrecondition) else RBefore 0 [])"
| "reader_step fr (RBefore attempt bs) =
     (if length bs < length (fr_publishers fr) then
        let v = ps_published (fr_publishers fr ! length bs) in
        if v AND 1 \<noteq> 0 then next_attempt attempt else RBefore attempt (bs @ [v])
      else RFlows attempt bs [])"
| "reader_step fr (RFlows attempt bs rs) =
     (if length rs < length (fr_flows fr) then RFlows attempt bs (rs @ [fr_flows fr ! length rs])
      else RAfter attempt bs rs 0)"
| "reader_step fr (RAfter attempt bs rs k) =
     (if k < length (fr_publishers fr) then
        let after = ps_published (fr_publishers fr ! k) in
        if after \<noteq> bs ! k \<or> after AND 1 \<noteq> 0 then next_attempt attempt else RAfter attempt bs rs (k + 1)
      else RFinal attempt rs)"
| "reader_step fr (RFinal attempt rs) = (if fr_poisoned fr then next_attempt attempt else RDone (Inr rs))"
| "reader_step fr (RDone x) = RDone x"

text \<open>
  Without other threads, \<open>TrySnapshot\<close> runs its reader to the end; \<^term>\<open>None\<close> would mean that the number of
  steps is not enough.
\<close>

definition reader_steps :: "ReplicaAppliedFrontier \<Rightarrow> nat" where
  "reader_steps fr = 1 + kSnapshotAttempts * (length (fr_flows fr) + 2 * length (fr_publishers fr) + 4)"

definition TrySnapshot :: "ReplicaAppliedFrontier \<Rightarrow> u64 list status_or option" where
  "TrySnapshot fr = (case (reader_step fr ^^ reader_steps fr) RStart of RDone x \<Rightarrow> Some x | _ \<Rightarrow> None)"

section \<open>The batch loops\<close>

lemma ValidateAdvance_iff:
  "ValidateAdvance fr f l = Inr () \<longleftrightarrow>
     f < length (fr_flows fr) \<and> l \<noteq> 0 \<and> l \<noteq> - 1 \<and> \<not> fr_poisoned fr \<and> (fr_flows fr ! f = l \<or> fr_flows fr ! f = l + 1)"
  by (auto simp: ValidateAdvance_def Let_def)

lemma validate_batch_iff:
  "validate_batch fr seen us = Inr () \<longleftrightarrow>
     (\<forall>u\<in>set us. ValidateAdvance fr (fa_flow_id u) (fa_applied_lsn u) = Inr ()) \<and>
     distinct (map fa_flow_id us) \<and> fa_flow_id ` set seen \<inter> fa_flow_id ` set us = {}"
  by (induction us arbitrary: seen) (auto simp: list_ex_iff intro: rev_image_eqI split: sum.splits)

lemma StoreNextLsn_simps [simp]:
  "fr_flows (StoreNextLsn f n fr) = (fr_flows fr)[f := n]"
  "fr_publishers (StoreNextLsn f n fr) = fr_publishers fr"
  "fr_poisoned (StoreNextLsn f n fr) = fr_poisoned fr"
  by (simp_all add: StoreNextLsn_def)

lemma raise_sequence_simps [simp]:
  "fr_flows (raise_sequence p fr) = fr_flows fr"
  "length (fr_publishers (raise_sequence p fr)) = length (fr_publishers fr)"
  "fr_poisoned (raise_sequence p fr) = fr_poisoned fr"
  by (simp_all add: raise_sequence_def Let_def)

lemma store_update_simps [simp]:
  "fr_publishers (store_update u fr) = fr_publishers fr"
  "fr_poisoned (store_update u fr) = fr_poisoned fr"
  "length (fr_flows (store_update u fr)) = length (fr_flows fr)"
  by (simp_all add: store_update_def)

lemma fold_store_update_simps [simp]:
  "fr_publishers (fold store_update us fr) = fr_publishers fr"
  "fr_poisoned (fold store_update us fr) = fr_poisoned fr"
  "length (fr_flows (fold store_update us fr)) = length (fr_flows fr)"
  by (induction us arbitrary: fr) simp_all

lemma AdvanceAfterApply_simps [simp]:
  "fst (AdvanceAfterApply fr f l) = ValidateAdvance fr f l"
  "fr_publishers (snd (AdvanceAfterApply fr f l)) = fr_publishers fr"
  "fr_poisoned (snd (AdvanceAfterApply fr f l)) = fr_poisoned fr"
  "length (fr_flows (snd (AdvanceAfterApply fr f l))) = length (fr_flows fr)"
  by (auto simp: AdvanceAfterApply_def split: sum.splits)

lemma AdvanceAfterApply_flows:
  "fr_flows (snd (AdvanceAfterApply fr f l)) =
     (if ValidateAdvance fr f l = Inr () then (fr_flows fr)[f := l + 1] else fr_flows fr)"
  by (auto simp: AdvanceAfterApply_def split: sum.splits) (metis list_update_id)

lemma fold_store_update_flows:
  assumes "distinct (map fa_flow_id us)" "f < length (fr_flows fr)"
  shows "fr_flows (fold store_update us fr) ! f =
    (if \<exists>u \<in> set us. fa_flow_id u = f \<and> fa_applied_lsn u = fr_flows fr ! f then fr_flows fr ! f + 1 else fr_flows fr ! f)"
  using assms
proof (induction us arbitrary: fr)
  case (Cons u us)
  have other: "fa_flow_id v \<noteq> fa_flow_id u" if "v \<in> set us" for v using Cons.prems(1) that by (auto simp: image_iff)
  have "fr_flows (store_update u fr) ! f =
      (if fa_flow_id u = f \<and> fa_applied_lsn u = fr_flows fr ! f then fr_flows fr ! f + 1 else fr_flows fr ! f)"
    using Cons.prems(2) by (cases "fa_flow_id u = f") (auto simp: store_update_def)
  then show ?case using Cons.IH [of "store_update u fr"] Cons.prems other by auto
qed simp

text \<open>A batch that is accepted moves exactly its flows past their applied events; any other changes no flow.\<close>

lemma AdvanceBatch_iff:
  "fst (AdvanceBatchAfterApply p us fr) = Inr () \<longleftrightarrow>
     us \<noteq> [] \<and> p < length (fr_publishers fr) \<and> \<not> ps_next_sequence (fr_publishers fr ! p) > - 1 - 2 \<and>
     distinct (map fa_flow_id us) \<and> (\<forall>u \<in> set us. ValidateAdvance fr (fa_flow_id u) (fa_applied_lsn u) = Inr ())"
  using validate_batch_iff [of fr "[]" us]
  by (auto simp: AdvanceBatchAfterApply_def BeginPublication_def split: sum.splits)

lemma AdvanceBatch_simps [simp]:
  "length (fr_flows (snd (AdvanceBatchAfterApply p us fr))) = length (fr_flows fr)"
  "length (fr_publishers (snd (AdvanceBatchAfterApply p us fr))) = length (fr_publishers fr)"
  by (auto simp: AdvanceBatchAfterApply_def BeginPublication_def EndPublication_def split: sum.splits)

lemma AdvanceBatch_flows:
  assumes "f < length (fr_flows fr)"
  shows "fr_flows (snd (AdvanceBatchAfterApply p us fr)) ! f =
    (if fst (AdvanceBatchAfterApply p us fr) = Inr () \<and> (\<exists>u \<in> set us. fa_flow_id u = f \<and> fa_applied_lsn u = fr_flows fr ! f)
     then fr_flows fr ! f + 1 else fr_flows fr ! f)"
proof (cases "fst (AdvanceBatchAfterApply p us fr) = Inr ()")
  case True
  note v = True [unfolded AdvanceBatch_iff]
  then have "snd (AdvanceBatchAfterApply p us fr) = EndPublication p (fold store_update us (raise_sequence p fr))"
    using validate_batch_iff [of fr "[]" us] by (simp add: AdvanceBatchAfterApply_def BeginPublication_def)
  then show ?thesis using fold_store_update_flows [of us f "raise_sequence p fr"] v True assms
    by (simp add: EndPublication_def)
next
  case False
  then have "fr_flows (snd (AdvanceBatchAfterApply p us fr)) = fr_flows fr"
    by (auto simp: AdvanceBatchAfterApply_def BeginPublication_def split: sum.splits if_splits)
  then show ?thesis using False by simp
qed

section \<open>Snapshots end, and are exact when nobody publishes\<close>

lemma odd_test: "v AND 1 \<noteq> 0 \<longleftrightarrow> odd (v :: u64)"
  by (simp add: and_one_eq odd_iff_mod_2_eq_one)

definition reader_wf :: "nat \<Rightarrow> nat \<Rightarrow> reader \<Rightarrow> bool" where
  "reader_wf nf np r \<longleftrightarrow>
     (case r of
        RBefore n bs \<Rightarrow> n < kSnapshotAttempts \<and> length bs \<le> np
      | RFlows n bs rs \<Rightarrow> n < kSnapshotAttempts \<and> length rs \<le> nf
      | RAfter n bs rs k \<Rightarrow> n < kSnapshotAttempts \<and> k \<le> np
      | RFinal n rs \<Rightarrow> n < kSnapshotAttempts
      | _ \<Rightarrow> True)"

text \<open>The number of steps a reader has left, whatever it reads.\<close>

definition reader_rank :: "nat \<Rightarrow> nat \<Rightarrow> reader \<Rightarrow> nat" where
  "reader_rank nf np r =
     (let c = nf + 2 * np + 4; left = (\<lambda>n. (kSnapshotAttempts - 1 - n) * c) in
      case r of
        RStart \<Rightarrow> 1 + kSnapshotAttempts * c
      | RBefore n bs \<Rightarrow> left n + (c - length bs)
      | RFlows n bs rs \<Rightarrow> left n + (nf + np + 3 - length rs)
      | RAfter n bs rs k \<Rightarrow> left n + (np + 2 - k)
      | RFinal n rs \<Rightarrow> left n + 1
      | RDone x \<Rightarrow> 0)"

lemma next_attempt_progress:
  assumes "n < kSnapshotAttempts"
  shows "reader_wf nf np (next_attempt n)" "reader_rank nf np (next_attempt n) \<le> (kSnapshotAttempts - 1 - n) * (nf + 2 * np + 4)"
proof -
  have "kSnapshotAttempts - 1 - n = Suc (kSnapshotAttempts - 1 - Suc n)" if "n + 1 < kSnapshotAttempts" using that by simp
  then show "reader_wf nf np (next_attempt n)" "reader_rank nf np (next_attempt n) \<le> (kSnapshotAttempts - 1 - n) * (nf + 2 * np + 4)"
    using assms by (auto simp: next_attempt_def reader_wf_def reader_rank_def Let_def)
qed

lemma reader_progress:
  assumes "reader_wf nf np r" "length (fr_flows fr) = nf" "length (fr_publishers fr) = np"
  shows "reader_wf nf np (reader_step fr r) \<and> (reader_rank nf np (reader_step fr r) < reader_rank nf np r \<or> (\<exists>x. r = RDone x))"
proof (cases r)
  case RStart
  then show ?thesis by (simp add: reader_wf_def reader_rank_def kSnapshotAttempts_def)
next
  case (RBefore n bs)
  then show ?thesis
    using assms next_attempt_progress [of n nf np] by (auto simp: Let_def reader_wf_def reader_rank_def)
next
  case (RFlows n bs rs)
  then show ?thesis using assms by (auto simp: reader_wf_def reader_rank_def)
next
  case (RAfter n bs rs k)
  then show ?thesis
    using assms next_attempt_progress [of n nf np] by (auto simp: Let_def reader_wf_def reader_rank_def)
next
  case (RFinal n rs)
  then show ?thesis
    using assms next_attempt_progress [of n nf np] by (auto simp: reader_wf_def reader_rank_def)
qed (simp add: reader_wf_def)

text \<open>A reader whose loads are answered by a changing frontier.\<close>

primrec reader_run :: "(nat \<Rightarrow> ReplicaAppliedFrontier) \<Rightarrow> nat \<Rightarrow> reader" where
  "reader_run fr 0 = RStart"
| "reader_run fr (Suc t) = reader_step (fr t) (reader_run fr t)"

lemma reader_run_rank:
  assumes "\<And>t. length (fr_flows (fr t)) = nf" "\<And>t. length (fr_publishers (fr t)) = np"
  shows "reader_wf nf np (reader_run fr t) \<and> (reader_rank nf np (reader_run fr t) + t \<le> reader_rank nf np RStart \<or> (\<exists>x. reader_run fr t = RDone x))"
proof (induction t)
  case (Suc t)
  then show ?case
    using reader_progress [of nf np "reader_run fr t" "fr t"] assms by auto
qed (simp add: reader_wf_def)

lemma reader_run_ends:
  assumes "\<And>t. length (fr_flows (fr t)) = nf" "\<And>t. length (fr_publishers (fr t)) = np"
  shows "\<exists>x. reader_run fr (1 + kSnapshotAttempts * (nf + 2 * np + 4)) = RDone x"
proof -
  have "reader_rank nf np RStart = 1 + kSnapshotAttempts * (nf + 2 * np + 4)" by (simp add: reader_rank_def)
  moreover have "reader_rank nf np r = 0 \<Longrightarrow> reader_wf nf np r \<Longrightarrow> \<exists>x. r = RDone x" for r
    by (cases r) (auto simp: reader_rank_def reader_wf_def Let_def)
  ultimately show ?thesis
    using reader_run_rank [of fr nf np "1 + kSnapshotAttempts * (nf + 2 * np + 4)", OF assms] by auto
qed

definition busy :: "ReplicaAppliedFrontier \<Rightarrow> bool" where
  "busy fr \<longleftrightarrow> (\<exists>ps \<in> set (fr_publishers fr). odd (ps_published ps))"

text \<open>The states of a reader when the frontier does not change.\<close>

definition alone :: "ReplicaAppliedFrontier \<Rightarrow> reader \<Rightarrow> bool" where
  "alone fr r \<longleftrightarrow>
     (case r of
        RStart \<Rightarrow> True
      | RBefore n bs \<Rightarrow> \<not> fr_poisoned fr \<and> length bs \<le> length (fr_publishers fr) \<and>
          (\<forall>p < length bs. even (ps_published (fr_publishers fr ! p)) \<and> bs ! p = ps_published (fr_publishers fr ! p))
      | RFlows n bs rs \<Rightarrow> \<not> fr_poisoned fr \<and> \<not> busy fr \<and> (\<forall>p < length (fr_publishers fr). bs ! p = ps_published (fr_publishers fr ! p)) \<and>
          length rs \<le> length (fr_flows fr) \<and> (\<forall>f < length rs. rs ! f = fr_flows fr ! f)
      | RAfter n bs rs k \<Rightarrow> \<not> fr_poisoned fr \<and> \<not> busy fr \<and> (\<forall>p < length (fr_publishers fr). bs ! p = ps_published (fr_publishers fr ! p)) \<and>
          rs = fr_flows fr
      | RFinal n rs \<Rightarrow> \<not> fr_poisoned fr \<and> \<not> busy fr \<and> rs = fr_flows fr
      | RDone x \<Rightarrow> x = (if fr_poisoned fr then Inl FailedPrecondition else if busy fr then Inl Unavailable else Inr (fr_flows fr)))"

lemma alone_step: "alone fr r \<Longrightarrow> alone fr (reader_step fr r)"
proof (cases r)
  case (RBefore n bs)
  assume a: "alone fr r"
  show ?thesis
  proof (cases "length bs < length (fr_publishers fr)")
    case True
    then show ?thesis
      using a RBefore
      by (auto simp: alone_def Let_def odd_test next_attempt_def busy_def nth_append less_Suc_eq)
  next
    case False
    then show ?thesis using a RBefore by (auto simp: alone_def busy_def in_set_conv_nth)
  qed
next
  case (RFlows n bs rs)
  assume "alone fr r"
  then show ?thesis using RFlows by (auto simp: alone_def nth_append less_Suc_eq intro: nth_equalityI)
next
  case (RAfter n bs rs k)
  assume "alone fr r"
  then show ?thesis using RAfter by (auto simp: alone_def busy_def Let_def odd_test)
qed (auto simp: alone_def)

lemma TrySnapshot_eq:
  "TrySnapshot fr = Some (if fr_poisoned fr then Inl FailedPrecondition else if busy fr then Inl Unavailable else Inr (fr_flows fr))"
proof -
  have run: "reader_run (\<lambda>_. fr) t = (reader_step fr ^^ t) RStart" for t by (induction t) simp_all
  obtain x where x: "(reader_step fr ^^ reader_steps fr) RStart = RDone x"
    using reader_run_ends [of "\<lambda>_. fr"] unfolding run reader_steps_def by blast
  have "alone fr ((reader_step fr ^^ t) RStart)" for t by (induction t) (simp_all add: alone_step, simp add: alone_def)
  from this [of "reader_steps fr"] show ?thesis unfolding x TrySnapshot_def by (simp add: alone_def)
qed

end
