(* ===== verification/Frontier_Snapshot.thy ===== *)
theory Frontier_Snapshot
  imports Frontier
begin

text \<open>
  Snapshots of the applied frontier while other threads publish. The threads are interleaved at
  their atomic accesses: a batch begins, stores its flows one by one and ends, a lifecycle
  installation does the same for all flows, and every reader advances by one load. The load and
  the store of one flow by the thread that owns it form one step. Atomic accesses are taken to
  be sequentially consistent.
\<close>

section \<open>The interleaved system\<close>

datatype publication = Quiet | Validated "FlowApplied list" | Publishing "FlowApplied list" | Installing nat "u64 list"

text \<open>
  Auxiliary state for the statement: the lifecycle epoch (the number of installations begun), the
  batches begun so far with the updates that change a flow, and, per reader, the epoch and the
  flows at the start of its scan.
\<close>

record observer =
  ob_reader :: reader
  ob_epoch :: nat
  ob_floor :: "u64 list"

record fworld =
  fw_fr :: ReplicaAppliedFrontier
  fw_pubs :: "nat \<Rightarrow> publication"
  fw_readers :: "nat \<Rightarrow> observer"
  fw_epoch :: nat
  fw_log :: "(nat \<times> FlowApplied list) list"

abbreviation flows :: "fworld \<Rightarrow> u64 list" where
  "flows W \<equiv> fr_flows (fw_fr W)"

abbreviation seq_of :: "fworld \<Rightarrow> nat \<Rightarrow> u64" where
  "seq_of W p \<equiv> ps_published (fr_publishers (fw_fr W) ! p)"

definition effective :: "ReplicaAppliedFrontier \<Rightarrow> FlowApplied \<Rightarrow> bool" where
  "effective fr u \<longleftrightarrow> fr_flows fr ! fa_flow_id u = fa_applied_lsn u"

definition installing :: "fworld \<Rightarrow> bool" where
  "installing W \<longleftrightarrow> (case fw_pubs W 0 of Installing f n \<Rightarrow> True | _ \<Rightarrow> False)"

definition observe :: "fworld \<Rightarrow> observer \<Rightarrow> observer" where
  "observe W ob =
     (case (ob_reader ob, reader_step (fw_fr W) (ob_reader ob)) of
        (RBefore n bs, RFlows m cs rs) \<Rightarrow> \<lparr>ob_reader = RFlows m cs rs, ob_epoch = fw_epoch W, ob_floor = flows W\<rparr>
      | (_, r) \<Rightarrow> ob\<lparr>ob_reader := r\<rparr>)"

inductive fstep :: "fworld \<Rightarrow> fworld \<Rightarrow> bool" where
  advance: "\<not> installing W \<Longrightarrow> fstep W (W\<lparr>fw_fr := snd (AdvanceAfterApply (fw_fr W) f l)\<rparr>)"
| validate: "\<not> installing W \<Longrightarrow> fw_pubs W p = Quiet \<Longrightarrow> p < length (fr_publishers (fw_fr W)) \<Longrightarrow>
    us \<noteq> [] \<Longrightarrow> validate_batch (fw_fr W) [] us = Inr () \<Longrightarrow> fstep W (W\<lparr>fw_pubs := (fw_pubs W)(p := Validated us)\<rparr>)"
| batch_begin: "fw_pubs W p = Validated us \<Longrightarrow> BeginPublication p (fw_fr W) = (Inr (), fr) \<Longrightarrow>
    fstep W (W\<lparr>fw_fr := fr, fw_pubs := (fw_pubs W)(p := Publishing us),
      fw_log := fw_log W @ [(fw_epoch W, filter (effective (fw_fr W)) us)]\<rparr>)"
| batch_refused: "fw_pubs W p = Validated us \<Longrightarrow> BeginPublication p (fw_fr W) = (Inl e, fr) \<Longrightarrow>
    fstep W (W\<lparr>fw_fr := fr, fw_pubs := (fw_pubs W)(p := Quiet)\<rparr>)"
| batch_store: "fw_pubs W p = Publishing (u # us) \<Longrightarrow>
    fstep W (W\<lparr>fw_fr := store_update u (fw_fr W), fw_pubs := (fw_pubs W)(p := Publishing us)\<rparr>)"
| batch_end: "fw_pubs W p = Publishing [] \<Longrightarrow>
    fstep W (W\<lparr>fw_fr := EndPublication p (fw_fr W), fw_pubs := (fw_pubs W)(p := Quiet)\<rparr>)"
| install_begin: "(\<And>p. fw_pubs W p = Quiet) \<Longrightarrow> install_check next_lsns (fw_fr W) = Inr () \<Longrightarrow>
    BeginPublication 0 (fw_fr W) = (Inr (), fr) \<Longrightarrow>
    fstep W (W\<lparr>fw_fr := fr, fw_pubs := (fw_pubs W)(0 := Installing 0 next_lsns), fw_epoch := fw_epoch W + 1\<rparr>)"
| install_refused: "(\<And>p. fw_pubs W p = Quiet) \<Longrightarrow> BeginPublication 0 (fw_fr W) = (Inl e, fr) \<Longrightarrow> fstep W (W\<lparr>fw_fr := fr\<rparr>)"
| install_store: "fw_pubs W 0 = Installing f next_lsns \<Longrightarrow> f < length (flows W) \<Longrightarrow>
    fstep W (W\<lparr>fw_fr := StoreNextLsn f (next_lsns ! f) (fw_fr W), fw_pubs := (fw_pubs W)(0 := Installing (f + 1) next_lsns)\<rparr>)"
| install_end: "fw_pubs W 0 = Installing f next_lsns \<Longrightarrow> \<not> f < length (flows W) \<Longrightarrow>
    fstep W (W\<lparr>fw_fr := EndPublication 0 (fw_fr W), fw_pubs := (fw_pubs W)(0 := Quiet)\<rparr>)"
| read: "fstep W (W\<lparr>fw_readers := (fw_readers W)(i := observe W (fw_readers W i))\<rparr>)"
| call: "ob_reader (fw_readers W i) = RDone x \<Longrightarrow>
    fstep W (W\<lparr>fw_readers := (fw_readers W)(i := (fw_readers W i)\<lparr>ob_reader := RStart\<rparr>)\<rparr>)"

definition init_fworld :: "nat \<Rightarrow> nat \<Rightarrow> fworld" where
  "init_fworld flow_count publisher_count =
     \<lparr>fw_fr = new_frontier flow_count publisher_count, fw_pubs = (\<lambda>_. Quiet),
      fw_readers = (\<lambda>_. \<lparr>ob_reader = RStart, ob_epoch = 0, ob_floor = []\<rparr>), fw_epoch = 0, fw_log = []\<rparr>"

inductive freachable :: "nat \<Rightarrow> nat \<Rightarrow> fworld \<Rightarrow> bool" for flow_count publisher_count where
  init: "freachable flow_count publisher_count (init_fworld flow_count publisher_count)"
| step: "freachable flow_count publisher_count W \<Longrightarrow> fstep W V \<Longrightarrow> freachable flow_count publisher_count V"

section \<open>The publication invariant\<close>

definition active :: "publication \<Rightarrow> bool" where
  "active s \<longleftrightarrow> (case s of Publishing _ \<Rightarrow> True | Installing _ _ \<Rightarrow> True | _ \<Rightarrow> False)"

lemma active_simps: "active (Publishing us)" "active (Installing f n)" "\<not> active Quiet" "\<not> active (Validated us)"
  by (simp_all add: active_def)

definition seq_ok :: "PublisherSlot \<Rightarrow> publication \<Rightarrow> bool" where
  "seq_ok ps s \<longleftrightarrow> ps_next_sequence ps = ps_published ps \<and> odd (ps_published ps) = active s \<and>
     (active s \<longrightarrow> ps_published ps \<noteq> - 1)"

definition updates_ok :: "nat \<Rightarrow> FlowApplied list \<Rightarrow> bool" where
  "updates_ok nf us \<longleftrightarrow> (\<forall>u\<in>set us. fa_flow_id u < nf \<and> fa_applied_lsn u \<noteq> - 1)"

definition pub_ok :: "nat \<Rightarrow> nat \<Rightarrow> publication \<Rightarrow> bool" where
  "pub_ok nf p s \<longleftrightarrow>
     (case s of Validated us \<Rightarrow> updates_ok nf us | Publishing us \<Rightarrow> updates_ok nf us | Installing f n \<Rightarrow> p = 0 | Quiet \<Rightarrow> True)"

text \<open>A logged update has been stored, or its batch still has it to store.\<close>

definition logged_ok :: "fworld \<Rightarrow> FlowApplied \<Rightarrow> bool" where
  "logged_ok W u \<longleftrightarrow> fa_applied_lsn u < flows W ! fa_flow_id u \<or>
     fa_applied_lsn u = flows W ! fa_flow_id u \<and> (\<exists>p us. fw_pubs W p = Publishing us \<and> u \<in> set us)"

definition fworld_ok :: "nat \<Rightarrow> nat \<Rightarrow> fworld \<Rightarrow> bool" where
  "fworld_ok nf np W \<longleftrightarrow>
     length (flows W) = nf \<and> length (fr_publishers (fw_fr W)) = np \<and>
     (\<forall>p < np. seq_ok (fr_publishers (fw_fr W) ! p) (fw_pubs W p)) \<and>
     (\<forall>p. fw_pubs W p \<noteq> Quiet \<longrightarrow> p < np) \<and> (\<forall>p. pub_ok nf p (fw_pubs W p)) \<and>
     (installing W \<longrightarrow> (\<forall>q. q \<noteq> 0 \<longrightarrow> fw_pubs W q = Quiet) \<and> (\<forall>e us. (e, us) \<in> set (fw_log W) \<longrightarrow> e < fw_epoch W)) \<and>
     (\<forall>e us. (e, us) \<in> set (fw_log W) \<longrightarrow>
        e \<le> fw_epoch W \<and> updates_ok nf us \<and> (e = fw_epoch W \<longrightarrow> (\<forall>u \<in> set us. logged_ok W u)))"

lemma even_succ [simp]: "even (v + 1) \<longleftrightarrow> odd (v :: u64)"
  by simp

lemma sequence_room: "\<not> v > - 1 - (2 :: u64) \<Longrightarrow> v \<noteq> - 1 \<and> v + 1 \<noteq> - 1"
proof -
  assume "\<not> v > - 1 - (2 :: u64)"
  then have "v \<le> - 3" by simp
  moreover have "v = - 2" if "v + 1 = - 1"
  proof -
    have "v = (v + 1) - 1" by simp
    then show ?thesis unfolding that by simp
  qed
  ultimately show ?thesis by (auto simp: word_order.extremum_unique)
qed

lemma seq_raised:
  assumes "seq_ok (fr_publishers fr ! p) s" "p < length (fr_publishers fr)" "ps_published (fr_publishers fr ! p) \<noteq> - 1"
    "active s' = (\<not> active s)" "active s' \<longrightarrow> ps_published (fr_publishers fr ! p) + 1 \<noteq> - 1"
  shows "seq_ok (fr_publishers (raise_sequence p fr) ! p) s'"
    "ps_published (fr_publishers fr ! p) < ps_published (fr_publishers (raise_sequence p fr) ! p)"
  using assms by (auto simp: seq_ok_def raise_sequence_def Let_def word_below_succ)

lemma seq_raised_other: "q \<noteq> p \<Longrightarrow> fr_publishers (raise_sequence p fr) ! q = fr_publishers fr ! q"
  by (simp add: raise_sequence_def Let_def)

lemma seq_begun:
  assumes "BeginPublication p fr = (Inr (), fr')" "seq_ok (fr_publishers fr ! p) s" "\<not> active s" "active s'"
  shows "p < length (fr_publishers fr)" "fr' = raise_sequence p fr" "seq_ok (fr_publishers fr' ! p) s'"
    "ps_published (fr_publishers fr ! p) < ps_published (fr_publishers fr' ! p)"
proof -
  show p: "p < length (fr_publishers fr)" and fr': "fr' = raise_sequence p fr"
    using assms(1) by (auto simp: BeginPublication_def split: if_splits)
  have "\<not> ps_published (fr_publishers fr ! p) > - 1 - 2"
    using assms(1,2) by (auto simp: BeginPublication_def seq_ok_def split: if_splits)
  note sequence_room [OF this]
  then show "seq_ok (fr_publishers fr' ! p) s'"
    "ps_published (fr_publishers fr ! p) < ps_published (fr_publishers fr' ! p)"
    using seq_raised [OF assms(2) p, of s'] assms(3,4) fr' by simp_all
qed

lemma seq_ended:
  assumes "seq_ok (fr_publishers fr ! p) s" "active s" "\<not> active s'" "p < length (fr_publishers fr)"
  shows "seq_ok (fr_publishers (EndPublication p fr) ! p) s'"
    "ps_published (fr_publishers fr ! p) < ps_published (fr_publishers (EndPublication p fr) ! p)"
  using seq_raised [OF assms(1,4), of s'] assms(1-3) by (simp_all add: EndPublication_def seq_ok_def)

lemma begin_refused: "BeginPublication p fr = (Inl e, fr') \<Longrightarrow> fr' = fr \<or> fr' = fr\<lparr>fr_poisoned := True\<rparr>"
  by (auto simp: BeginPublication_def split: if_splits)

definition grows :: "nat \<Rightarrow> nat \<Rightarrow> fworld \<Rightarrow> fworld \<Rightarrow> bool" where
  "grows nf np W V \<longleftrightarrow>
     (\<forall>p < np. seq_of W p \<le> seq_of V p) \<and> fw_epoch W \<le> fw_epoch V \<and>
     (fw_epoch V = fw_epoch W \<and> \<not> installing W \<longrightarrow> \<not> installing V \<and> (\<forall>f < nf. flows W ! f \<le> flows V ! f)) \<and>
     set (fw_log W) \<subseteq> set (fw_log V) \<and>
     (\<forall>(e, us) \<in> set (fw_log V) - set (fw_log W). e = fw_epoch V \<and> fw_epoch V = fw_epoch W \<and> \<not> installing W \<and>
        (\<forall>u \<in> set us. fa_flow_id u < nf \<and> flows W ! fa_flow_id u = fa_applied_lsn u)) \<and>
     ((\<forall>p < np. seq_of V p = seq_of W p) \<longrightarrow> fw_epoch V = fw_epoch W \<and> fw_log V = fw_log W)"


lemma fworld_okD:
  assumes "fworld_ok nf np W"
  shows "length (flows W) = nf" "length (fr_publishers (fw_fr W)) = np"
    "p < np \<Longrightarrow> seq_ok (fr_publishers (fw_fr W) ! p) (fw_pubs W p)" "fw_pubs W p \<noteq> Quiet \<Longrightarrow> p < np"
    "pub_ok nf p (fw_pubs W p)"
    "installing W \<Longrightarrow> fw_pubs W p \<noteq> Quiet \<Longrightarrow> p = 0"
    "(e, us) \<in> set (fw_log W) \<Longrightarrow> e \<le> fw_epoch W \<and> updates_ok nf us"
    "(e, us) \<in> set (fw_log W) \<Longrightarrow> e = fw_epoch W \<Longrightarrow> u \<in> set us \<Longrightarrow> logged_ok W u"
    "installing W \<Longrightarrow> (e, us) \<in> set (fw_log W) \<Longrightarrow> e < fw_epoch W"
  using assms unfolding fworld_ok_def by blast+

text \<open>A step of a publisher that keeps the log.\<close>

lemma publisher_step:
  assumes ok: "fworld_ok nf np W" and V: "V = W\<lparr>fw_fr := fr, fw_pubs := (fw_pubs W)(p := s)\<rparr>"
    and fr: "length (fr_flows fr) = nf" "length (fr_publishers fr) = np"
      "\<And>q. q \<noteq> p \<Longrightarrow> fr_publishers fr ! q = fr_publishers (fw_fr W) ! q"
    and p: "p < np" "fw_pubs W p \<noteq> Quiet" "seq_ok (fr_publishers fr ! p) s" "pub_ok nf p s"
      "seq_of W p \<le> ps_published (fr_publishers fr ! p)"
    and inst: "installing V \<Longrightarrow> installing W"
    and log: "\<And>u us. \<not> installing W \<Longrightarrow> (fw_epoch W, us) \<in> set (fw_log W) \<Longrightarrow> u \<in> set us \<Longrightarrow> logged_ok V u"
    and up: "\<And>f. \<not> installing W \<Longrightarrow> f < nf \<Longrightarrow> flows W ! f \<le> fr_flows fr ! f"
  shows "fworld_ok nf np V \<and> grows nf np W V"
proof
  note D = fworld_okD [OF ok]
  have fields: "fw_fr V = fr" "fw_epoch V = fw_epoch W" "fw_log V = fw_log W"
    "\<And>q. fw_pubs V q = (if q = p then s else fw_pubs W q)" using V by auto
  have quiet: "fw_pubs V q = Quiet" if "installing V" "q \<noteq> 0" for q
    using D(6) [of p] D(6) [of q] p(2) inst that fields(4) by metis
  have seqs: "seq_ok (fr_publishers fr ! q) (fw_pubs V q)" if "q < np" for q
    using D(3) [OF that] p(3) fr(3) fields(4) by (cases "q = p") simp_all
  have logged: "e \<le> fw_epoch W \<and> updates_ok nf us \<and> (e = fw_epoch W \<longrightarrow> (\<forall>u\<in>set us. logged_ok V u))"
    if "(e, us) \<in> set (fw_log W)" for e us
    using D(7) [OF that] D(9) [OF _ that] log that by blast
  have "(\<forall>q. fw_pubs V q \<noteq> Quiet \<longrightarrow> q < np) \<and> (\<forall>q. pub_ok nf q (fw_pubs V q))"
    using D(4,5) p(1,4) fields(4) by simp
  then show "fworld_ok nf np V"
    unfolding fworld_ok_def fields(1-3) using fr(1,2) seqs quiet logged D(9) inst by blast
  have "seq_of W q \<le> ps_published (fr_publishers fr ! q)" if "q < np" for q
    using p(5) fr(3) by (cases "q = p") simp_all
  then show "grows nf np W V"
    unfolding grows_def fields(1-3) using inst up by blast
qed


lemma unstarted: "fworld_ok nf np W \<Longrightarrow> \<not> active (fw_pubs W p) \<Longrightarrow> p < np \<Longrightarrow> even (seq_of W p)"
  using fworld_okD(3) [of nf np W p] by (auto simp: seq_ok_def)

lemma logged_keep:
  assumes u: "logged_ok W u" and up: "flows W ! fa_flow_id u \<le> flows V ! fa_flow_id u"
    and pubs: "\<And>q us. fw_pubs W q = Publishing us \<Longrightarrow> u \<in> set us \<Longrightarrow> \<exists>q us. fw_pubs V q = Publishing us \<and> u \<in> set us"
  shows "logged_ok V u"
proof (cases "fa_applied_lsn u < flows V ! fa_flow_id u")
  case False
  then have "fa_applied_lsn u = flows W ! fa_flow_id u" "fa_applied_lsn u = flows V ! fa_flow_id u"
    using u up unfolding logged_ok_def by auto
  then show ?thesis using u pubs unfolding logged_ok_def by auto
qed (simp add: logged_ok_def)

lemma logged_keep_pub:
  assumes "logged_ok W u" "flows W ! fa_flow_id u \<le> flows V ! fa_flow_id u" "fw_pubs V = (fw_pubs W)(p := s)"
    "\<And>us. fw_pubs W p = Publishing us \<Longrightarrow> u \<in> set us \<Longrightarrow> \<exists>us. s = Publishing us \<and> u \<in> set us"
  shows "logged_ok V u"
proof (rule logged_keep [OF assms(1,2)])
  fix q us assume "fw_pubs W q = Publishing us" "u \<in> set us"
  then show "\<exists>q us. fw_pubs V q = Publishing us \<and> u \<in> set us"
    using assms(4) [of us] by (cases "q = p") (auto simp: assms(3) intro: exI [of _ q] exI [of _ p])
qed

lemma advance_up: "fr_flows fr ! g \<le> fr_flows (snd (AdvanceAfterApply fr f l)) ! g"
proof (cases "ValidateAdvance fr f l = Inr ()")
  case True
  then have "f < length (fr_flows fr)" "fr_flows fr ! f \<le> l + 1"
    using word_below_succ [of l] by (auto simp: ValidateAdvance_iff)
  then show ?thesis using True by (cases "g = f") (simp_all add: AdvanceAfterApply_flows)
qed (simp add: AdvanceAfterApply_flows)

lemma advance_step:
  assumes ok: "fworld_ok nf np W" and ni: "\<not> installing W"
    and V: "V = W\<lparr>fw_fr := snd (AdvanceAfterApply (fw_fr W) f l)\<rparr>"
  shows "fworld_ok nf np V \<and> grows nf np W V"
proof
  let ?fr = "snd (AdvanceAfterApply (fw_fr W) f l)"
  note D = fworld_okD [OF ok]
  have fields: "fw_fr V = ?fr" "fw_epoch V = fw_epoch W" "fw_log V = fw_log W" "fw_pubs V = fw_pubs W" "installing V = installing W"
    using V by (simp_all add: installing_def)
  have fr: "length (fr_flows ?fr) = nf" "fr_publishers ?fr = fr_publishers (fw_fr W)"
    using D(1) by simp_all
  have "logged_ok V u" if "logged_ok W u" for u
    by (intro logged_keep [OF that]) (auto simp only: fields advance_up)
  moreover have "\<forall>p < np. seq_ok (fr_publishers ?fr ! p) (fw_pubs W p)" "length (fr_publishers ?fr) = np"
    using D(2,3) fr(2) by simp_all
  ultimately show "fworld_ok nf np V"
    unfolding fworld_ok_def fields using D(4,5,7,8) fr(1) ni by blast
  show "grows nf np W V" unfolding grows_def fields using advance_up [of "fw_fr W" _ f l] ni by (simp add: fr(2))
qed

lemma validate_step:
  assumes ok: "fworld_ok nf np W" and ni: "\<not> installing W" and q: "fw_pubs W p = Quiet" "p < length (fr_publishers (fw_fr W))"
    and us: "validate_batch (fw_fr W) [] us = Inr ()" and V: "V = W\<lparr>fw_pubs := (fw_pubs W)(p := Validated us)\<rparr>"
  shows "fworld_ok nf np V \<and> grows nf np W V"
proof
  note D = fworld_okD [OF ok]
  have fields: "fw_fr V = fw_fr W" "fw_epoch V = fw_epoch W" "fw_log V = fw_log W" "fw_pubs V = (fw_pubs W)(p := Validated us)"
    using V by simp_all
  have ni': "\<not> installing V" using ni unfolding installing_def fields by simp
  have us_ok: "updates_ok nf us"
    using us D(1) unfolding validate_batch_iff ValidateAdvance_iff by (simp add: updates_ok_def)
  have "seq_ok (fr_publishers (fw_fr W) ! r) (fw_pubs V r)" if "r < np" for r
    using D(3) [OF that] q(1) unfolding fields by (cases "r = p") (simp_all add: seq_ok_def active_def)
  moreover have "logged_ok V u" if "logged_ok W u" for u
    using q(1) by (intro logged_keep_pub [OF that _ fields(4)]) (simp_all add: fields(1))
  moreover have "(\<forall>r. fw_pubs V r \<noteq> Quiet \<longrightarrow> r < np) \<and> (\<forall>r. pub_ok nf r (fw_pubs V r))"
    using D(2,4,5) q(2) us_ok unfolding fields by (simp add: pub_ok_def)
  ultimately show "fworld_ok nf np V"
    unfolding fworld_ok_def fields(1-3) using D(1,2,7,8) ni' by blast
  show "grows nf np W V" unfolding grows_def fields using ni ni' by simp
qed

lemma begin_step:
  assumes ok: "fworld_ok nf np W" and p: "fw_pubs W p = Validated us" "BeginPublication p (fw_fr W) = (Inr (), fr)"
    and V: "V = W\<lparr>fw_fr := fr, fw_pubs := (fw_pubs W)(p := Publishing us),
      fw_log := fw_log W @ [(fw_epoch W, filter (effective (fw_fr W)) us)]\<rparr>"
  shows "fworld_ok nf np V \<and> grows nf np W V"
proof
  note D = fworld_okD [OF ok]
  let ?us = "filter (effective (fw_fr W)) us"
  have fields: "fw_fr V = fr" "fw_epoch V = fw_epoch W" "fw_log V = fw_log W @ [(fw_epoch W, ?us)]"
    "fw_pubs V = (fw_pubs W)(p := Publishing us)" using V by simp_all
  have pn: "p < np" using D(4) [of p] p(1) by simp
  note b = seq_begun [OF p(2) D(3) [OF pn], of "Publishing us"]
  have fr: "fr = raise_sequence p (fw_fr W)" and seq: "seq_ok (fr_publishers fr ! p) (Publishing us)"
    and less: "seq_of W p < ps_published (fr_publishers fr ! p)"
    using b(2-4) p(1) by (simp_all add: active_def)
  have ni: "\<not> installing W" using D(6) [of p] p(1) by (auto simp: installing_def split: publication.splits)
  then have ni': "\<not> installing V" using fields(4) by (simp add: installing_def)
  have us: "updates_ok nf us" using D(5) [of p] p(1) by (simp add: pub_ok_def)
  have "seq_ok (fr_publishers fr ! q) (fw_pubs V q)" if "q < np" for q
    using D(3) [OF that] seq fields(4) by (cases "q = p") (simp_all add: fr seq_raised_other)
  moreover have "e \<le> fw_epoch W \<and> updates_ok nf v \<and> (e = fw_epoch W \<longrightarrow> (\<forall>u \<in> set v. logged_ok V u))"
    if "(e, v) \<in> set (fw_log V)" for e v
  proof -
    have old: "logged_ok V u" if "logged_ok W u" for u
      using p(1) by (intro logged_keep_pub [OF that _ fields(4)]) (simp_all add: fields(1) fr)
    have "logged_ok V u" if "u \<in> set ?us" for u
      using that fields by (auto simp: logged_ok_def effective_def fr intro: exI [of _ p])
    moreover have "updates_ok nf ?us" using us by (simp add: updates_ok_def)
    moreover have "(e, v) \<in> set (fw_log W) \<or> e = fw_epoch W \<and> v = ?us" using that fields(3) by auto
    ultimately show ?thesis using old D(7,8) by blast
  qed
  moreover have "(\<forall>q. fw_pubs V q \<noteq> Quiet \<longrightarrow> q < np) \<and> (\<forall>q. pub_ok nf q (fw_pubs V q))"
    using D(4,5) pn us unfolding fields by (simp add: pub_ok_def)
  moreover have "length (fr_flows fr) = nf" "length (fr_publishers fr) = np" using D(1,2) fr by simp_all
  ultimately show "fworld_ok nf np V"
    unfolding fworld_ok_def fields(1,2) using ni' by blast
  have "seq_of W q \<le> ps_published (fr_publishers fr ! q)" if "q < np" for q
    using less by (cases "q = p") (simp_all add: fr seq_raised_other)
  moreover have "\<not> (\<forall>q < np. ps_published (fr_publishers fr ! q) = seq_of W q)" using pn less by force
  ultimately show "grows nf np W V"
    unfolding grows_def fields(1-3) using ni ni' us by (auto simp: fr updates_ok_def effective_def)
qed

lemma refused_step:
  assumes ok: "fworld_ok nf np W" and p: "fw_pubs W p = Validated us" "BeginPublication p (fw_fr W) = (Inl e, fr)"
    and V: "V = W\<lparr>fw_fr := fr, fw_pubs := (fw_pubs W)(p := Quiet)\<rparr>"
  shows "fworld_ok nf np V \<and> grows nf np W V"
proof (rule publisher_step [OF ok V])
  note D = fworld_okD [OF ok]
  show pn: "p < np" "fw_pubs W p \<noteq> Quiet" using D(4) [of p] p(1) by simp_all
  have fr: "fr_flows fr = flows W" "fr_publishers fr = fr_publishers (fw_fr W)" using begin_refused [OF p(2)] by auto
  then show "length (fr_flows fr) = nf" "length (fr_publishers fr) = np"
    "\<And>q. q \<noteq> p \<Longrightarrow> fr_publishers fr ! q = fr_publishers (fw_fr W) ! q"
    "seq_of W p \<le> ps_published (fr_publishers fr ! p)" "\<And>f. flows W ! f \<le> fr_flows fr ! f" using D(1,2) by simp_all
  show "seq_ok (fr_publishers fr ! p) Quiet" using D(3) [OF pn(1)] p(1) fr by (simp add: seq_ok_def active_def)
  show "pub_ok nf p Quiet" by (simp add: pub_ok_def)
  show "installing V \<Longrightarrow> installing W" using V p(1) by (auto simp: installing_def split: if_splits)
  show "logged_ok V u" if "(fw_epoch W, us) \<in> set (fw_log W)" "u \<in> set us" for u us
    by (rule logged_keep_pub [OF D(8) [OF that(1) refl that(2)], where p = p and s = Quiet]) (simp_all add: V fr p(1))
qed

lemma store_step:
  assumes ok: "fworld_ok nf np W" and p: "fw_pubs W p = Publishing (u # us)"
    and V: "V = W\<lparr>fw_fr := store_update u (fw_fr W), fw_pubs := (fw_pubs W)(p := Publishing us)\<rparr>"
  shows "fworld_ok nf np V \<and> grows nf np W V"
proof (rule publisher_step [OF ok V])
  note D = fworld_okD [OF ok]
  show pn: "p < np" "fw_pubs W p \<noteq> Quiet" using D(4) [of p] p by simp_all
  show "length (fr_flows (store_update u (fw_fr W))) = nf" "length (fr_publishers (store_update u (fw_fr W))) = np"
    "\<And>q. q \<noteq> p \<Longrightarrow> fr_publishers (store_update u (fw_fr W)) ! q = fr_publishers (fw_fr W) ! q"
    "seq_of W p \<le> ps_published (fr_publishers (store_update u (fw_fr W)) ! p)"
    using D(1,2) by simp_all
  have u: "fa_flow_id u < nf" "fa_applied_lsn u \<noteq> - 1" and us: "updates_ok nf us"
    using D(5) [of p] p by (simp_all add: pub_ok_def updates_ok_def)
  show "seq_ok (fr_publishers (store_update u (fw_fr W)) ! p) (Publishing us)"
    using D(3) [OF pn(1)] p by (simp add: seq_ok_def active_def)
  show "pub_ok nf p (Publishing us)" using us by (simp add: pub_ok_def)
  show "installing V \<Longrightarrow> installing W" using V p by (auto simp: installing_def split: if_splits)
  have flow: "fr_flows (store_update u (fw_fr W)) ! g =
      (if g = fa_flow_id u \<and> flows W ! g = fa_applied_lsn u then fa_applied_lsn u + 1 else flows W ! g)" for g
    using u(1) D(1) by (auto simp: store_update_def)
  then show up: "flows W ! g \<le> fr_flows (store_update u (fw_fr W)) ! g" for g
    using word_below_succ [OF u(2)] by (auto simp: less_imp_le)
  show "logged_ok V v" if "(fw_epoch W, vs) \<in> set (fw_log W)" "v \<in> set vs" for v vs
  proof (cases "v = u")
    case True
    then have "fa_applied_lsn u < flows V ! fa_flow_id u"
      using D(8) [OF that(1) refl that(2)] flow [of "fa_flow_id u"] word_below_succ [OF u(2)] V by (auto simp: logged_ok_def)
    then show ?thesis using True by (simp add: logged_ok_def)
  next
    case False
    then show ?thesis
      by (intro logged_keep_pub [OF D(8) [OF that(1) refl that(2)], where p = p and s = "Publishing us"])
        (auto simp: V p up)
  qed
qed

lemma end_step:
  assumes ok: "fworld_ok nf np W" and p: "fw_pubs W p = Publishing []"
    and V: "V = W\<lparr>fw_fr := EndPublication p (fw_fr W), fw_pubs := (fw_pubs W)(p := Quiet)\<rparr>"
  shows "fworld_ok nf np V \<and> grows nf np W V"
proof (rule publisher_step [OF ok V])
  note D = fworld_okD [OF ok]
  show pn: "p < np" "fw_pubs W p \<noteq> Quiet" using D(4) [of p] p by simp_all
  have fr: "fr_flows (EndPublication p (fw_fr W)) = flows W" by (simp add: EndPublication_def)
  show "length (fr_flows (EndPublication p (fw_fr W))) = nf" "length (fr_publishers (EndPublication p (fw_fr W))) = np"
    "\<And>q. q \<noteq> p \<Longrightarrow> fr_publishers (EndPublication p (fw_fr W)) ! q = fr_publishers (fw_fr W) ! q"
    using D(1,2) by (simp_all add: EndPublication_def seq_raised_other)
  show "seq_ok (fr_publishers (EndPublication p (fw_fr W)) ! p) Quiet"
    "seq_of W p \<le> ps_published (fr_publishers (EndPublication p (fw_fr W)) ! p)"
    using seq_ended [OF D(3) [OF pn(1)], of Quiet] pn D(2) p by (simp_all add: active_def)
  show "pub_ok nf p Quiet" by (simp add: pub_ok_def)
  show "installing V \<Longrightarrow> installing W" using V p by (auto simp: installing_def split: if_splits)
  show "flows W ! f \<le> fr_flows (EndPublication p (fw_fr W)) ! f" for f by (simp add: fr)
  show "logged_ok V u" if "(fw_epoch W, us) \<in> set (fw_log W)" "u \<in> set us" for u us
    by (rule logged_keep_pub [OF D(8) [OF that(1) refl that(2)], where p = p and s = Quiet]) (simp_all add: V fr p)
qed

lemma install_begin_step:
  assumes ok: "fworld_ok nf np W" and q: "\<And>p. fw_pubs W p = Quiet" and b: "BeginPublication 0 (fw_fr W) = (Inr (), fr)"
    and V: "V = W\<lparr>fw_fr := fr, fw_pubs := (fw_pubs W)(0 := Installing 0 next_lsns), fw_epoch := fw_epoch W + 1\<rparr>"
  shows "fworld_ok nf np V \<and> grows nf np W V"
proof
  note D = fworld_okD [OF ok]
  have fields: "fw_fr V = fr" "fw_epoch V = fw_epoch W + 1" "fw_log V = fw_log W"
    "fw_pubs V = (fw_pubs W)(0 := Installing 0 next_lsns)" using V by simp_all
  have pn: "0 < np" using b D(2) by (auto simp: BeginPublication_def split: if_splits)
  have fr: "fr = raise_sequence 0 (fw_fr W)" and seq: "seq_ok (fr_publishers fr ! 0) (Installing 0 next_lsns)"
    and less: "seq_of W 0 < ps_published (fr_publishers fr ! 0)"
    using seq_begun [OF b D(3) [OF pn], of "Installing 0 next_lsns"] q by (simp_all add: active_def)
  have "seq_ok (fr_publishers fr ! p) (fw_pubs V p)" if "p < np" for p
    using D(3) [OF that] seq fields(4) by (cases "p = 0") (simp_all add: fr seq_raised_other)
  moreover have "e < fw_epoch W + 1 \<and> e \<le> fw_epoch W + 1 \<and> updates_ok nf us \<and>
      (e = fw_epoch W + 1 \<longrightarrow> (\<forall>u \<in> set us. logged_ok V u))" if "(e, us) \<in> set (fw_log W)" for e us
    using D(7) [OF that] by auto
  moreover have "(\<forall>p. fw_pubs V p \<noteq> Quiet \<longrightarrow> p < np) \<and> (\<forall>p. pub_ok nf p (fw_pubs V p)) \<and> (\<forall>p. p \<noteq> 0 \<longrightarrow> fw_pubs V p = Quiet)"
    using q pn unfolding fields by (simp add: pub_ok_def)
  moreover have "length (fr_flows fr) = nf" "length (fr_publishers fr) = np" using D(1,2) fr by simp_all
  ultimately show "fworld_ok nf np V" unfolding fworld_ok_def fields(1-3) by blast
  have "seq_of W p \<le> ps_published (fr_publishers fr ! p)" if "p < np" for p
    using less by (cases "p = 0") (simp_all add: fr seq_raised_other)
  moreover have "\<not> (\<forall>p < np. ps_published (fr_publishers fr ! p) = seq_of W p)" using pn less by force
  ultimately show "grows nf np W V" unfolding grows_def fields(1-3) by auto
qed

lemma install_refused_step:
  assumes ok: "fworld_ok nf np W" and q: "\<And>p. fw_pubs W p = Quiet" and b: "BeginPublication 0 (fw_fr W) = (Inl e, fr)"
    and V: "V = W\<lparr>fw_fr := fr\<rparr>"
  shows "fworld_ok nf np V \<and> grows nf np W V"
proof -
  have fr: "fr_flows fr = flows W" "fr_publishers fr = fr_publishers (fw_fr W)" using begin_refused [OF b] by auto
  have fields: "fw_fr V = fr" "fw_epoch V = fw_epoch W" "fw_log V = fw_log W" "fw_pubs V = fw_pubs W" using V by simp_all
  have "logged_ok V = logged_ok W" "installing V = installing W" "\<not> installing W"
    using q by (auto simp: logged_ok_def installing_def fields fr)
  then show ?thesis using ok unfolding fworld_ok_def grows_def fields(1-4) fr by simp
qed

lemma install_store_step:
  assumes ok: "fworld_ok nf np W" and p: "fw_pubs W 0 = Installing f next_lsns"
    and V: "V = W\<lparr>fw_fr := StoreNextLsn f n (fw_fr W), fw_pubs := (fw_pubs W)(0 := Installing g next_lsns)\<rparr>"
  shows "fworld_ok nf np V \<and> grows nf np W V"
proof (rule publisher_step [OF ok V])
  note D = fworld_okD [OF ok]
  show pn: "0 < np" "fw_pubs W 0 \<noteq> Quiet" using D(4) [of 0] p by simp_all
  show "seq_ok (fr_publishers (StoreNextLsn f n (fw_fr W)) ! 0) (Installing g next_lsns)"
    using D(3) [OF pn(1)] p by (simp add: seq_ok_def active_def)
  have "installing W" using p by (simp add: installing_def)
  then show "\<not> installing W \<Longrightarrow> logged_ok V u" "\<not> installing W \<Longrightarrow> flows W ! h \<le> fr_flows (StoreNextLsn f n (fw_fr W)) ! h"
    "installing V \<Longrightarrow> installing W" for u h by simp_all
qed (use fworld_okD(1,2) [OF ok] in \<open>simp_all add: pub_ok_def\<close>)

lemma install_end_step:
  assumes ok: "fworld_ok nf np W" and p: "fw_pubs W 0 = Installing f next_lsns"
    and V: "V = W\<lparr>fw_fr := EndPublication 0 (fw_fr W), fw_pubs := (fw_pubs W)(0 := Quiet)\<rparr>"
  shows "fworld_ok nf np V \<and> grows nf np W V"
proof (rule publisher_step [OF ok V])
  note D = fworld_okD [OF ok]
  show pn: "0 < np" "fw_pubs W 0 \<noteq> Quiet" using D(4) [of 0] p by simp_all
  show "seq_ok (fr_publishers (EndPublication 0 (fw_fr W)) ! 0) Quiet"
    "seq_of W 0 \<le> ps_published (fr_publishers (EndPublication 0 (fw_fr W)) ! 0)"
    using seq_ended [OF D(3) [OF pn(1)], of Quiet] pn D(2) p by (simp_all add: active_def)
  have "installing W" using p by (simp add: installing_def)
  then show "\<not> installing W \<Longrightarrow> logged_ok V u" "\<not> installing W \<Longrightarrow> flows W ! h \<le> fr_flows (EndPublication 0 (fw_fr W)) ! h"
    "installing V \<Longrightarrow> installing W" for u h by simp_all
  show "\<And>q. q \<noteq> 0 \<Longrightarrow> fr_publishers (EndPublication 0 (fw_fr W)) ! q = fr_publishers (fw_fr W) ! q"
    by (simp add: EndPublication_def seq_raised_other)
qed (use fworld_okD(1,2) [OF ok] in \<open>simp_all add: pub_ok_def EndPublication_def\<close>)

lemma readers_step: "fworld_ok nf np W \<Longrightarrow> fworld_ok nf np (W\<lparr>fw_readers := R\<rparr>) \<and> grows nf np W (W\<lparr>fw_readers := R\<rparr>)"
  by (simp add: fworld_ok_def grows_def installing_def logged_ok_def)

lemma fstep_grows:
  assumes "fstep W V" "fworld_ok nf np W"
  shows "fworld_ok nf np V \<and> grows nf np W V"
  using assms(1)
proof cases
  case advance then show ?thesis using advance_step [OF assms(2)] by blast
next
  case validate then show ?thesis using validate_step [OF assms(2)] by blast
next
  case batch_begin then show ?thesis using begin_step [OF assms(2)] by blast
next
  case batch_refused then show ?thesis using refused_step [OF assms(2)] by blast
next
  case batch_store then show ?thesis using store_step [OF assms(2)] by blast
next
  case batch_end then show ?thesis using end_step [OF assms(2)] by blast
next
  case install_begin then show ?thesis using install_begin_step [OF assms(2)] by blast
next
  case install_refused then show ?thesis using install_refused_step [OF assms(2)] by blast
next
  case install_store then show ?thesis using install_store_step [OF assms(2)] by blast
next
  case install_end then show ?thesis using install_end_step [OF assms(2)] by blast
next
  case read then show ?thesis using readers_step [OF assms(2)] by blast
next
  case call then show ?thesis using readers_step [OF assms(2)] by blast
qed

section \<open>What a reader knows\<close>

definition before_ok :: "fworld \<Rightarrow> u64 list \<Rightarrow> bool" where
  "before_ok W bs \<longleftrightarrow> (\<forall>p < length bs. even (bs ! p) \<and> bs ! p \<le> seq_of W p)"

definition stable :: "fworld \<Rightarrow> u64 list \<Rightarrow> bool" where
  "stable W bs \<longleftrightarrow> (\<forall>p < length bs. seq_of W p = bs ! p)"

text \<open>A vector is whole with respect to a batch when it includes all of its updates or none.\<close>

definition whole :: "u64 list \<Rightarrow> FlowApplied list \<Rightarrow> bool" where
  "whole rs us \<longleftrightarrow> (\<forall>u \<in> set us. fa_applied_lsn u < rs ! fa_flow_id u) \<or> (\<forall>u \<in> set us. rs ! fa_flow_id u \<le> fa_applied_lsn u)"

definition scanned :: "nat \<Rightarrow> fworld \<Rightarrow> observer \<Rightarrow> u64 list \<Rightarrow> bool" where
  "scanned nf W ob rs \<longleftrightarrow>
     ob_epoch ob = fw_epoch W \<and> (\<forall>f < nf. ob_floor ob ! f \<le> flows W ! f) \<and>
     (\<forall>f < length rs. ob_floor ob ! f \<le> rs ! f \<and> rs ! f \<le> flows W ! f) \<and>
     (\<forall>us. (fw_epoch W, us) \<in> set (fw_log W) \<longrightarrow> (\<forall>u \<in> set us. fa_flow_id u < length rs \<longrightarrow> fa_applied_lsn u < rs ! fa_flow_id u))"

definition settled :: "nat \<Rightarrow> fworld \<Rightarrow> observer \<Rightarrow> u64 list \<Rightarrow> bool" where
  "settled nf W ob rs \<longleftrightarrow>
     ob_epoch ob \<le> fw_epoch W \<and> (\<forall>f < nf. ob_floor ob ! f \<le> rs ! f) \<and>
     (ob_epoch ob = fw_epoch W \<longrightarrow> \<not> installing W \<and> (\<forall>f < nf. rs ! f \<le> flows W ! f)) \<and>
     (\<forall>us. (ob_epoch ob, us) \<in> set (fw_log W) \<longrightarrow> whole rs us)"

definition observer_ok :: "nat \<Rightarrow> nat \<Rightarrow> fworld \<Rightarrow> observer \<Rightarrow> bool" where
  "observer_ok nf np W ob \<longleftrightarrow>
     (case ob_reader ob of
        RBefore n bs \<Rightarrow> length bs \<le> np \<and> before_ok W bs
      | RFlows n bs rs \<Rightarrow> length bs = np \<and> before_ok W bs \<and> length rs \<le> nf \<and> (stable W bs \<longrightarrow> scanned nf W ob rs)
      | RAfter n bs rs k \<Rightarrow> length bs = np \<and> before_ok W bs \<and> length rs = nf \<and>
          ((\<exists>p. k \<le> p \<and> p < np \<and> seq_of W p \<noteq> bs ! p) \<or> settled nf W ob rs)
      | RFinal n rs \<Rightarrow> length rs = nf \<and> settled nf W ob rs
      | RDone (Inr rs) \<Rightarrow> length rs = nf \<and> settled nf W ob rs
      | _ \<Rightarrow> True)"

lemma growsD:
  assumes "grows nf np W V"
  shows "p < np \<Longrightarrow> seq_of W p \<le> seq_of V p" "fw_epoch W \<le> fw_epoch V"
    "fw_epoch V = fw_epoch W \<Longrightarrow> \<not> installing W \<Longrightarrow> \<not> installing V"
    "fw_epoch V = fw_epoch W \<Longrightarrow> \<not> installing W \<Longrightarrow> f < nf \<Longrightarrow> flows W ! f \<le> flows V ! f"
    "(e, us) \<in> set (fw_log V) \<Longrightarrow> (e, us) \<notin> set (fw_log W) \<Longrightarrow> e = fw_epoch V \<and> fw_epoch V = fw_epoch W \<and> \<not> installing W"
    "(e, us) \<in> set (fw_log V) \<Longrightarrow> (e, us) \<notin> set (fw_log W) \<Longrightarrow> u \<in> set us \<Longrightarrow>
       fa_flow_id u < nf \<and> flows W ! fa_flow_id u = fa_applied_lsn u"
    "(\<And>p. p < np \<Longrightarrow> seq_of V p = seq_of W p) \<Longrightarrow> fw_epoch V = fw_epoch W \<and> fw_log V = fw_log W"
  using assms unfolding grows_def by blast+

lemma before_ok_grows: "grows nf np W V \<Longrightarrow> length bs \<le> np \<Longrightarrow> before_ok W bs \<Longrightarrow> before_ok V bs"
  unfolding before_ok_def using growsD(1) by (meson order.strict_trans2 order_trans)

lemma stable_before:
  assumes "grows nf np W V" "length bs = np" "before_ok W bs" "stable V bs"
  shows "stable W bs"
  using assms growsD(1) [OF assms(1)] unfolding stable_def before_ok_def by (metis order.antisym)

lemma stable_not_installing:
  assumes "fworld_ok nf np W" "length bs = np" "before_ok W bs" "stable W bs"
  shows "\<not> active (fw_pubs W p)" "\<not> installing W"
proof -
  show quiet: "\<not> active (fw_pubs W p)" for p
  proof
    assume "active (fw_pubs W p)"
    then have "p < np" using fworld_okD(4) [OF assms(1), of p] by (auto simp: active_def split: publication.splits)
    then show False
      using fworld_okD(3) [OF assms(1) \<open>p < np\<close>] assms(2-4) \<open>active (fw_pubs W p)\<close> by (auto simp: seq_ok_def before_ok_def stable_def)
  qed
  show "\<not> installing W" using quiet [of 0] by (auto simp: installing_def active_def split: publication.splits)
qed

lemma scanned_grows:
  assumes ok: "fworld_ok nf np W" and g: "grows nf np W V" and bs: "length bs = np" "before_ok W bs" "stable V bs"
    and s: "scanned nf W ob rs" "length rs \<le> nf"
  shows "scanned nf V ob rs"
proof -
  have st: "stable W bs" by (rule stable_before [OF g bs])
  have "seq_of V p = seq_of W p" if "p < np" for p using st bs(1,3) that by (simp add: stable_def)
  then have e: "fw_epoch V = fw_epoch W" "fw_log V = fw_log W" using growsD(7) [OF g] by blast+
  have "flows W ! f \<le> flows V ! f" if "f < nf" for f
    using growsD(4) [OF g e(1) stable_not_installing(2) [OF ok bs(1,2) st] that] .
  then show ?thesis using s unfolding scanned_def e by (meson order.strict_trans2 order_trans)
qed

lemma settled_grows:
  assumes g: "grows nf np W V" and s: "settled nf W ob rs" 
  shows "settled nf V ob rs"
proof -
  note G = growsD [OF g]
  have "whole rs us" if us: "(ob_epoch ob, us) \<in> set (fw_log V)" for us
  proof (cases "(ob_epoch ob, us) \<in> set (fw_log W)")
    case True then show ?thesis using s by (simp add: settled_def)
  next
    case False
    have "rs ! fa_flow_id u \<le> fa_applied_lsn u" if "u \<in> set us" for u
      using G(5) [OF us False] G(6) [OF us False that] s by (auto simp: settled_def)
    then show ?thesis by (simp add: whole_def)
  qed
  moreover have "\<not> installing V \<and> (\<forall>f < nf. rs ! f \<le> flows V ! f)" if "ob_epoch ob = fw_epoch V"
  proof -
    have e: "fw_epoch V = fw_epoch W" using that s G(2) by (simp add: settled_def)
    then have "\<not> installing W" "\<forall>f < nf. rs ! f \<le> flows W ! f" using that s by (simp_all add: settled_def)
    then show ?thesis using G(3) [OF e] G(4) [OF e] by (blast intro: order_trans)
  qed
  moreover have "ob_epoch ob \<le> fw_epoch V" "\<forall>f < nf. ob_floor ob ! f \<le> rs ! f" using s G(2) by (auto simp: settled_def)
  ultimately show ?thesis unfolding settled_def by blast
qed

lemma observer_grows:
  assumes ok: "fworld_ok nf np W" and g: "grows nf np W V" and ob: "observer_ok nf np W ob"
  shows "observer_ok nf np V ob"
proof (cases "ob_reader ob")
  case (RBefore n bs)
  then show ?thesis using ob before_ok_grows [OF g] by (simp add: observer_ok_def)
next
  case (RFlows n bs rs)
  then show ?thesis
    using ob before_ok_grows [OF g] stable_before [OF g] scanned_grows [OF ok g] unfolding observer_ok_def by auto
next
  case (RAfter n bs rs k)
  then have o: "length bs = np" "before_ok W bs" "length rs = nf"
    "(\<exists>p. k \<le> p \<and> p < np \<and> seq_of W p \<noteq> bs ! p) \<or> settled nf W ob rs" using ob by (simp_all add: observer_ok_def)
  have "seq_of V p \<noteq> bs ! p" if "p < np" "seq_of W p \<noteq> bs ! p" for p
    using that o(1,2) growsD(1) [OF g that(1)] unfolding before_ok_def by (metis order.antisym)
  then show ?thesis
    using o before_ok_grows [OF g _ o(2)] settled_grows [OF g] RAfter unfolding observer_ok_def by auto
next
  case (RFinal n rs)
  then show ?thesis using ob settled_grows [OF g] by (simp add: observer_ok_def)
next
  case (RDone x)
  then show ?thesis using ob settled_grows [OF g] by (cases x) (simp_all add: observer_ok_def)
qed (simp add: observer_ok_def)

lemma observer_attempt: "observer_ok nf np W (ob\<lparr>ob_reader := next_attempt n\<rparr>)"
  by (simp add: observer_ok_def next_attempt_def before_ok_def)

lemma observe_before:
  assumes ok: "fworld_ok nf np W" and ob: "observer_ok nf np W ob" and r: "ob_reader ob = RBefore n bs"
  shows "observer_ok nf np W (observe W ob)"
proof (cases "length bs < np")
  case True
  have "before_ok W (bs @ [seq_of W (length bs)])" if "even (seq_of W (length bs))"
    using ob r that by (auto simp: observer_ok_def before_ok_def nth_append less_Suc_eq)
  then show ?thesis
    using True r ob fworld_okD(2) [OF ok] observer_attempt
    by (auto simp: observe_def Let_def odd_test next_attempt_def observer_ok_def before_ok_def)
next
  case False
  then have bs: "length bs = np" "before_ok W bs" using ob r by (simp_all add: observer_ok_def)
  have "scanned nf W (observe W ob) []" using r False fworld_okD(2) [OF ok] by (simp add: scanned_def observe_def)
  then show ?thesis using False r bs fworld_okD(2) [OF ok] by (simp add: observer_ok_def observe_def)
qed

lemma observe_flows:
  assumes ok: "fworld_ok nf np W" and ob: "observer_ok nf np W ob" and r: "ob_reader ob = RFlows n bs rs"
  shows "observer_ok nf np W (observe W ob)"
proof -
  note D = fworld_okD [OF ok]
  have bs: "length bs = np" "before_ok W bs" "length rs \<le> nf" "stable W bs \<Longrightarrow> scanned nf W ob rs"
    using ob r by (simp_all add: observer_ok_def)
  have stored: "fa_applied_lsn u < flows W ! fa_flow_id u"
    if "stable W bs" "(fw_epoch W, us) \<in> set (fw_log W)" "u \<in> set us" for us u
    using D(8) [OF that(2) refl that(3)] stable_not_installing(1) [OF ok bs(1,2) that(1)]
    by (metis active_simps(1) logged_ok_def)
  show ?thesis
  proof (cases "length rs < nf")
    case True
    have "scanned nf W (ob\<lparr>ob_reader := r\<rparr>) (rs @ [flows W ! length rs])" if "stable W bs" for r
      using bs(4) [OF that] stored [OF that] True
      by (auto simp: scanned_def nth_append less_Suc_eq) (metis stored [OF that])
    then show ?thesis using True r bs D(1) by (auto simp: observer_ok_def observe_def)
  next
    case False
    have "settled nf W (ob\<lparr>ob_reader := r\<rparr>) rs" if "stable W bs" for r
      using bs(3,4) that stored [OF that] False stable_not_installing(2) [OF ok bs(1,2) that] D(7)
      by (fastforce simp: scanned_def settled_def whole_def updates_ok_def)
    moreover have "\<exists>p < np. seq_of W p \<noteq> bs ! p" if "\<not> stable W bs" using that bs(1) by (auto simp: stable_def)
    ultimately show ?thesis using False r bs(1-3) D(1) by (auto simp: observer_ok_def observe_def)
  qed
qed

lemma observe_after:
  assumes ok: "fworld_ok nf np W" and ob: "observer_ok nf np W ob" and r: "ob_reader ob = RAfter n bs rs k"
  shows "observer_ok nf np W (observe W ob)"
proof -
  have o: "length bs = np" "before_ok W bs" "length rs = nf"
    "(\<exists>p. k \<le> p \<and> p < np \<and> seq_of W p \<noteq> bs ! p) \<or> settled nf W ob rs" using ob r by (simp_all add: observer_ok_def)
  have s: "settled nf W (ob\<lparr>ob_reader := r\<rparr>) rs = settled nf W ob rs" for r by (simp add: settled_def)
  show ?thesis
  proof (cases "k < np")
    case True
    have "(\<exists>p. Suc k \<le> p \<and> p < np \<and> seq_of W p \<noteq> bs ! p) \<or> settled nf W ob rs" if "seq_of W k = bs ! k"
      using o(4) that by (metis Suc_leI le_neq_implies_less)
    then show ?thesis
      using True r o(1-3) fworld_okD(2) [OF ok] observer_attempt
      by (auto simp: observe_def Let_def observer_ok_def s next_attempt_def before_ok_def)
  next
    case False
    then show ?thesis using r o fworld_okD(2) [OF ok] by (auto simp: observer_ok_def observe_def s)
  qed
qed

lemma observe_ok:
  assumes ok: "fworld_ok nf np W" and ob: "observer_ok nf np W ob"
  shows "observer_ok nf np W (observe W ob)"
proof (cases "ob_reader ob")
  case (RFinal n rs)
  then show ?thesis using ob observer_attempt by (auto simp: observe_def observer_ok_def settled_def)
next
  case (RDone x)
  then have "observe W ob = ob" by (simp add: observe_def)
  then show ?thesis using ob by simp
qed (use observe_before [OF ok ob] observe_flows [OF ok ob] observe_after [OF ok ob] in
    \<open>simp_all add: observe_def observer_ok_def before_ok_def\<close>)

lemma freachable_ok:
  assumes "freachable nf np W"
  shows "fworld_ok nf (max 1 np) W \<and> (\<forall>i. observer_ok nf (max 1 np) W (fw_readers W i))"
  using assms
proof induction
  case init
  show ?case
    by (auto simp: fworld_ok_def init_fworld_def new_frontier_def seq_ok_def active_def pub_ok_def installing_def observer_ok_def)
next
  case (step W V)
  then have ok: "fworld_ok nf (max 1 np) W" "\<And>i. observer_ok nf (max 1 np) W (fw_readers W i)" by blast+
  note g = fstep_grows [OF step.hyps(2) ok(1)]
  have "observer_ok nf (max 1 np) V (fw_readers W i)" for i using observer_grows [OF ok(1) _ ok(2)] g by blast
  moreover have "observer_ok nf (max 1 np) V (fw_readers V i)"
    if "\<And>j. observer_ok nf (max 1 np) V (fw_readers W j)" for i
    using step.hyps(2)
  proof cases
    case (read j)
    then have V: "fw_fr V = fw_fr W" "fw_epoch V = fw_epoch W" by simp_all
    have "observe V (fw_readers W j) = observe W (fw_readers W j)" unfolding observe_def V ..
    then show ?thesis using observe_ok [OF _ that, of j] g that [of i] read by (cases "i = j") auto
  next
    case (call j x)
    then show ?thesis using that [of i] by (cases "i = j") (simp_all add: observer_ok_def)
  qed (use that [of i] in simp_all)
  ultimately show ?case using g by blast
qed

section \<open>Snapshots are never torn\<close>

text \<open>
  A snapshot returned while other threads publish (C14): it has one entry per flow, is no older
  than the flows at the start of its scan and, until the next installation, no newer than the
  flows now, and every batch of its lifecycle epoch is included as a whole or not at all, whether
  the batch was published before, during or after the snapshot.
\<close>

theorem snapshot_untorn:
  assumes "freachable nf np W" "ob_reader (fw_readers W i) = RDone (Inr rs)"
  shows "length rs = nf \<and>
    (\<forall>f < nf. ob_floor (fw_readers W i) ! f \<le> rs ! f \<and> (ob_epoch (fw_readers W i) = fw_epoch W \<longrightarrow> rs ! f \<le> flows W ! f)) \<and>
    (\<forall>us. (ob_epoch (fw_readers W i), us) \<in> set (fw_log W) \<longrightarrow> whole rs us)"
  using freachable_ok [OF assms(1)] assms(2) by (force simp: observer_ok_def settled_def dest: spec [of _ i])

text \<open>The run of the witness: one batch over two flows and a snapshot after it.\<close>

definition demo_batch :: "FlowApplied list" where
  "demo_batch = [\<lparr>fa_flow_id = 0, fa_applied_lsn = 1\<rparr>, \<lparr>fa_flow_id = 1, fa_applied_lsn = 1\<rparr>]"

definition demo_published :: fworld where
  "demo_published = (init_fworld 2 1)\<lparr>
     fw_fr := \<lparr>fr_flows = [2, 2], fr_publishers = [\<lparr>ps_published = 2, ps_next_sequence = 2\<rparr>], fr_poisoned = False\<rparr>,
     fw_log := [(0, demo_batch)]\<rparr>"

definition read_step :: "nat \<Rightarrow> fworld \<Rightarrow> fworld" where
  "read_step i W = W\<lparr>fw_readers := (fw_readers W)(i := observe W (fw_readers W i))\<rparr>"

lemma reachable_reads: "freachable nf np W \<Longrightarrow> freachable nf np ((read_step i ^^ n) W)"
  by (induction n) (auto simp: read_step_def intro: freachable.step fstep.read)

lemma demo_published_reachable: "freachable 2 1 demo_published"
proof -
  let ?W = "init_fworld 2 1"
  let ?fr = "\<lambda>fl s. \<lparr>fr_flows = fl, fr_publishers = [\<lparr>ps_published = s, ps_next_sequence = s\<rparr>], fr_poisoned = False\<rparr>"
  let ?at = "\<lambda>fl s u. ?W\<lparr>fw_fr := ?fr fl s, fw_pubs := (\<lambda>_. Quiet)(0 := Publishing u), fw_log := [(0, demo_batch)]\<rparr>"
  have fr: "fw_fr ?W = ?fr [1, 1] 0" by (simp add: init_fworld_def new_frontier_def numeral_2_eq_2)
  have quiet: "(\<lambda>_ :: nat. Quiet)(0 := Quiet) = (\<lambda>_. Quiet)" by (rule ext) simp
  have "validate_batch (fw_fr ?W) [] demo_batch = Inr ()"
    unfolding fr by (simp add: demo_batch_def ValidateAdvance_def)
  then have "freachable 2 1 (?W\<lparr>fw_pubs := (\<lambda>_. Quiet)(0 := Validated demo_batch)\<rparr>)"
    using fstep.validate [of ?W 0 demo_batch] freachable.init [of 2 1] freachable.step fr
    by (auto simp: init_fworld_def installing_def demo_batch_def)
  moreover have "fstep (?W\<lparr>fw_pubs := (\<lambda>_. Quiet)(0 := Validated demo_batch)\<rparr>) (?at [1, 1] 1 demo_batch)"
    using fstep.batch_begin [of "?W\<lparr>fw_pubs := (\<lambda>_. Quiet)(0 := Validated demo_batch)\<rparr>" 0 demo_batch "?fr [1, 1] 1"] fr
    by (simp add: BeginPublication_def raise_sequence_def init_fworld_def demo_batch_def effective_def)
  moreover have "fstep (?at [1, 1] 1 demo_batch) (?at [2, 1] 1 (tl demo_batch))"
    using fstep.batch_store [of "?at [1, 1] 1 demo_batch" 0 "hd demo_batch" "tl demo_batch"]
    by (simp add: demo_batch_def store_update_def StoreNextLsn_def init_fworld_def)
  moreover have "fstep (?at [2, 1] 1 (tl demo_batch)) (?at [2, 2] 1 [])"
    using fstep.batch_store [of "?at [2, 1] 1 (tl demo_batch)" 0 "hd (tl demo_batch)" "[]"]
    by (simp add: demo_batch_def store_update_def StoreNextLsn_def init_fworld_def)
  moreover have "fstep (?at [2, 2] 1 []) demo_published"
    using fstep.batch_end [of "?at [2, 2] 1 []" 0]
    by (simp add: demo_published_def init_fworld_def EndPublication_def raise_sequence_def quiet)
  ultimately show ?thesis by (meson freachable.step)
qed

theorem snapshot_untorn_witness:
  "\<exists>W. freachable 2 1 W \<and> ob_reader (fw_readers W 0) = RDone (Inr [2, 2]) \<and> (0, demo_batch) \<in> set (fw_log W) \<and> whole [2, 2] demo_batch"
proof -
  let ?W = "(read_step 0 ^^ 9) demo_published"
  have finished: "ob_reader (fw_readers ?W 0) = RDone (Inr [2, 2]) \<and> ob_epoch (fw_readers ?W 0) = 0 \<and> fw_log ?W = [(0, demo_batch)]"
    by (simp add: numeral_eq_Suc read_step_def observe_def demo_published_def init_fworld_def Let_def)
  then show ?thesis
    using snapshot_untorn [OF reachable_reads [OF demo_published_reachable], of 9 0 0 "[2, 2]"] reachable_reads [OF demo_published_reachable, of 9 0]
    by auto
qed

text \<open>
  Snapshots are wait-free (C31): whatever other threads do to the frontier between its loads,
  \<open>TrySnapshot\<close> returns after a number of steps fixed by the numbers of flows and publishers.
\<close>

theorem snapshot_wait_free:
  assumes "\<And>t. length (fr_flows (fr t)) = nf" "\<And>t. length (fr_publishers (fr t)) = np"
  shows "\<exists>x. reader_run fr (1 + kSnapshotAttempts * (nf + 2 * np + 4)) = RDone x"
  using reader_run_ends [OF assms] .

theorem snapshot_wait_free_witness:
  "\<exists>x. reader_run (\<lambda>t. (if even t then raise_sequence 0 else id) (new_frontier 3 2)) (1 + kSnapshotAttempts * 11) = RDone x"
  using snapshot_wait_free [of "\<lambda>t. (if even t then raise_sequence 0 else id) (new_frontier 3 2)" 3 2] by (simp add: new_frontier_def)

end
