(* ===== verification/Log_Block.thy ===== *)
theory Log_Block
  imports Format "HOL-Library.Product_Lexorder"
begin

text \<open>
  The append-only block that replication logs and retained histories are stored in,
  \<^verbatim>\<open>src/replication/log_block.cpp\<close>: a byte buffer with a committed prefix and, for every 64th record,
  an entry of a sparse index. Offsets and counts are natural numbers; a block is at most
  \<open>2\<^sup>3\<^sup>2 - 1\<close> bytes long, so that they fit the 32-bit fields of the code. The memory of the process is a
  parameter: what the allocator rounds a request up to, whether a reservation is admitted and what
  an allocation holds before it is written.
\<close>

record memory_env =
  me_good_size :: "nat \<Rightarrow> nat"
  me_reserve :: "nat \<Rightarrow> bool"
  me_fresh :: "nat \<Rightarrow> bytes"

definition kSizeMax :: nat where "kSizeMax = 2 ^ 64 - 1"
definition kU32Max :: nat where "kU32Max = 2 ^ 32 - 1"

definition AllocatorUsableSizeForRequest :: "memory_env \<Rightarrow> nat \<Rightarrow> nat" where
  "AllocatorUsableSizeForRequest env requested_bytes =
     (if requested_bytes = 0 then 0
      else let usable = me_good_size env requested_bytes in
        if usable \<ge> requested_bytes then usable else kSizeMax)"

definition kMinimumRecordBytes :: nat where "kMinimumRecordBytes = 16"
definition kSparseStride :: nat where "kSparseStride = 64"

definition SparseCount :: "nat \<Rightarrow> nat" where
  "SparseCount capacity = (capacity div kMinimumRecordBytes + kSparseStride - 1) div kSparseStride"

record SparseOffset =
  so_lsn :: u64
  so_fragment_index :: u32
  so_byte_offset :: nat

definition kSparseOffsetBytes :: nat where "kSparseOffsetBytes = 16"

record ReplicationLogBlock =
  lb_bytes :: bytes
  lb_first_lsn :: u64
  lb_last_lsn :: u64
  lb_committed_bytes :: nat
  lb_frame_count :: nat
  lb_sealed :: bool
  lb_capacity :: nat
  lb_sparse_offsets :: "SparseOffset list"

definition AllocationBytes :: "memory_env \<Rightarrow> nat \<Rightarrow> nat" where
  "AllocationBytes env capacity =
     (if capacity < kMinimumRecordBytes \<or> capacity > kU32Max then kSizeMax
      else
        let bytes = AllocatorUsableSizeForRequest env capacity;
            index = AllocatorUsableSizeForRequest env (SparseCount capacity * kSparseOffsetBytes)
        in if index > kSizeMax - bytes then kSizeMax else bytes + index)"

definition Allocate :: "memory_env \<Rightarrow> nat \<Rightarrow> ReplicationLogBlock status_or" where
  "Allocate env capacity =
     (let bytes = AllocationBytes env capacity in
      if bytes = kSizeMax then Inl ResourceExhausted
      else if \<not> me_reserve env bytes then Inl ResourceExhausted
      else Inr \<lparr>lb_bytes = me_fresh env capacity, lb_first_lsn = 0, lb_last_lsn = 0, lb_committed_bytes = 0,
                lb_frame_count = 0, lb_sealed = False, lb_capacity = capacity, lb_sparse_offsets = []\<rparr>)"

text \<open>
  \<open>AppendBuffer\<close> gives the offset at which the caller writes; its assertion is the guard. The vector of
  sparse entries has room for at least \<open>SparseCount\<close> of them.
\<close>

definition AppendBuffer :: "nat \<Rightarrow> 'a ReplicationLogBlock_scheme \<Rightarrow> nat option" where
  "AppendBuffer bytes b =
     (if \<not> lb_sealed b \<and> kMinimumRecordBytes \<le> bytes \<and> bytes \<le> lb_capacity b - lb_committed_bytes b
      then Some (lb_committed_bytes b) else None)"

definition CommitAppend :: "u64 \<Rightarrow> u32 \<Rightarrow> nat \<Rightarrow> 'a ReplicationLogBlock_scheme \<Rightarrow> 'a ReplicationLogBlock_scheme option" where
  "CommitAppend lsn fragment bytes b =
     (if \<not> (lsn \<noteq> 0 \<and> lb_last_lsn b \<le> lsn) then None
      else case AppendBuffer bytes b of
        None \<Rightarrow> None
      | Some _ \<Rightarrow>
          if lb_frame_count b mod kSparseStride = 0 \<and> \<not> length (lb_sparse_offsets b) < SparseCount (lb_capacity b) then None
          else Some (b\<lparr>
            lb_sparse_offsets :=
              (if lb_frame_count b mod kSparseStride = 0
               then lb_sparse_offsets b @ [\<lparr>so_lsn = lsn, so_fragment_index = fragment, so_byte_offset = lb_committed_bytes b\<rparr>]
               else lb_sparse_offsets b),
            lb_first_lsn := (if lb_frame_count b = 0 then lsn else lb_first_lsn b),
            lb_last_lsn := lsn,
            lb_committed_bytes := lb_committed_bytes b + bytes,
            lb_frame_count := lb_frame_count b + 1\<rparr>))"

definition FindOffset :: "u64 \<Rightarrow> u32 \<Rightarrow> 'a ReplicationLogBlock_scheme \<Rightarrow> nat" where
  "FindOffset lsn fragment b =
     (let before = takeWhile (\<lambda>entry. \<not> (lsn, fragment) < (so_lsn entry, so_fragment_index entry)) (lb_sparse_offsets b) in
      if before = [] then 0 else so_byte_offset (last before))"

definition block_Reset :: "'a ReplicationLogBlock_scheme \<Rightarrow> 'a ReplicationLogBlock_scheme" where
  "block_Reset b = b\<lparr>lb_first_lsn := 0, lb_last_lsn := 0, lb_committed_bytes := 0, lb_frame_count := 0, lb_sealed := False,
     lb_sparse_offsets := []\<rparr>"

section \<open>The records of a block\<close>

text \<open>
  A block stands for the list of its records: key, fragment and size in bytes. The sparse index
  has the start of every 64th record.
\<close>

type_synonym frame = "u64 \<times> u32 \<times> nat"

definition frame_start :: "frame list \<Rightarrow> nat \<Rightarrow> nat" where
  "frame_start fs i = sum_list (map (snd \<circ> snd) (take i fs))"

definition sparse_entry :: "frame list \<Rightarrow> nat \<Rightarrow> SparseOffset" where
  "sparse_entry fs k = \<lparr>so_lsn = fst (fs ! (kSparseStride * k)), so_fragment_index = fst (snd (fs ! (kSparseStride * k))),
     so_byte_offset = frame_start fs (kSparseStride * k)\<rparr>"

definition sparse_length :: "nat \<Rightarrow> nat" where
  "sparse_length n = (n + kSparseStride - 1) div kSparseStride"

definition block_frames :: "'a ReplicationLogBlock_scheme \<Rightarrow> frame list \<Rightarrow> bool" where
  "block_frames b fs \<longleftrightarrow>
     \<not> lb_sealed b \<and> length (lb_bytes b) = lb_capacity b \<and> lb_capacity b \<le> kU32Max \<and>
     lb_committed_bytes b = frame_start fs (length fs) \<and> lb_committed_bytes b \<le> lb_capacity b \<and>
     lb_frame_count b = length fs \<and> (\<forall>f \<in> set fs. kMinimumRecordBytes \<le> snd (snd f)) \<and>
     lb_last_lsn b = (if fs = [] then 0 else fst (last fs)) \<and>
     lb_sparse_offsets b = map (sparse_entry fs) [0..<sparse_length (length fs)]"

abbreviation frame_key :: "frame \<Rightarrow> u64 \<times> u32" where
  "frame_key f \<equiv> (fst f, fst (snd f))"

lemma frame_start_snoc:
  "i \<le> length fs \<Longrightarrow> frame_start (fs @ [f]) i = frame_start fs i"
  "frame_start (fs @ [f]) (Suc (length fs)) = frame_start fs (length fs) + snd (snd f)"
  by (simp_all add: frame_start_def)

lemma frame_start_Suc: "i < length fs \<Longrightarrow> frame_start fs (Suc i) = frame_start fs i + snd (snd (fs ! i))"
  by (simp add: frame_start_def take_Suc_conv_app_nth)

lemma frame_start_mono: "i \<le> j \<Longrightarrow> frame_start fs i \<le> frame_start fs j"
proof (induction j)
  case (Suc j)
  have "frame_start fs j \<le> frame_start fs (Suc j)" by (cases "j < length fs") (simp_all add: frame_start_Suc, simp add: frame_start_def)
  then show ?case using Suc by (cases "i = Suc j") auto
qed simp

lemma frames_fill:
  assumes "\<forall>f \<in> set fs. kMinimumRecordBytes \<le> snd (snd f)"
  shows "kMinimumRecordBytes * length fs \<le> frame_start fs (length fs)"
proof -
  have "kMinimumRecordBytes * length fs \<le> sum_list (map (snd \<circ> snd) fs)"
    using assms by (induction fs) auto
  then show ?thesis by (simp add: frame_start_def)
qed

lemma sparse_length_eq: "sparse_length n = n div kSparseStride + (if n mod kSparseStride = 0 then 0 else 1)"
proof -
  have "(n mod 64 + 63) div 64 = (if n mod 64 = 0 then 0 else (1 :: nat))"
    using mod_less_divisor [of 64 n] by (auto intro: div_nat_eqI)
  then show ?thesis using div_add1_eq [of n 63 64] by (simp add: sparse_length_def kSparseStride_def)
qed

lemma sparse_length_Suc: "sparse_length (Suc n) = (if n mod kSparseStride = 0 then Suc (sparse_length n) else sparse_length n)"
  using sparse_length_eq [of n] div_add_self1 [of 64 n] by (simp add: sparse_length_def kSparseStride_def)

lemma sparse_inside:
  assumes "k < sparse_length n"
  shows "kSparseStride * k < n"
proof -
  define q r where "q = n div 64" and "r = n mod 64"
  have "n = 64 * q + r" by (simp add: q_def r_def)
  moreover have "k < q + (if r = 0 then 0 else 1)"
    using assms unfolding sparse_length_eq kSparseStride_def q_def r_def .
  ultimately have "64 * k < n" by (auto split: if_splits)
  then show ?thesis by (simp add: kSparseStride_def)
qed

lemma sparse_entry_snoc: "k < sparse_length (length fs) \<Longrightarrow> sparse_entry (fs @ [f]) k = sparse_entry fs k"
  using sparse_inside [of k "length fs"] by (simp add: sparse_entry_def nth_append frame_start_snoc)

text \<open>Appending a record with a key that is not below the last one never fails an assertion while the record fits.\<close>

lemma CommitAppend_frames:
  assumes b: "block_frames b fs" and lsn: "lsn \<noteq> 0" "lb_last_lsn b \<le> lsn"
    and bytes: "kMinimumRecordBytes \<le> n" "lb_committed_bytes b + n \<le> lb_capacity b"
  shows "\<exists>b'. CommitAppend lsn fragment n b = Some b' \<and> block_frames b' (fs @ [(lsn, fragment, n)]) \<and>
    lb_bytes b' = lb_bytes b \<and> lb_capacity b' = lb_capacity b \<and> ReplicationLogBlock.more b' = ReplicationLogBlock.more b"
proof -
  have room: "kMinimumRecordBytes * Suc (length fs) \<le> lb_capacity b"
    using frames_fill [of fs] b bytes by (auto simp: block_frames_def)
  have "length (lb_sparse_offsets b) < SparseCount (lb_capacity b)" if "length fs mod kSparseStride = 0"
  proof -
    have "Suc (length fs) \<le> lb_capacity b div kMinimumRecordBytes"
      using div_le_mono [OF room, of kMinimumRecordBytes] by (simp add: kMinimumRecordBytes_def)
    then have "sparse_length (Suc (length fs)) \<le> SparseCount (lb_capacity b)"
      unfolding SparseCount_def sparse_length_def by (intro div_le_mono) simp
    then show ?thesis using b that by (simp add: block_frames_def sparse_length_Suc)
  qed
  then show ?thesis
    using assms
    by (auto simp: CommitAppend_def AppendBuffer_def block_frames_def frame_start_snoc sparse_length_Suc sparse_entry_snoc)
      (auto simp: sparse_entry_def sparse_length_def kSparseStride_def nth_append frame_start_snoc)
qed

section \<open>Seeking a record\<close>

text \<open>
  The contract of the block towards its readers: an offset at or before the wanted record at
  which some record starts. A scan from there that compares keys meets the record.
\<close>

abbreviation keys_increase :: "frame list \<Rightarrow> bool" where
  "keys_increase fs \<equiv> sorted_wrt (\<lambda>f g. frame_key f < frame_key g) fs"

locale boundary_log =
  fixes stands_for :: "'b \<Rightarrow> frame list \<Rightarrow> bool" and find_offset :: "u64 \<Rightarrow> u32 \<Rightarrow> 'b \<Rightarrow> nat"
  assumes boundary: "stands_for b fs \<Longrightarrow> keys_increase fs \<Longrightarrow> j < length fs \<Longrightarrow>
    \<exists>i \<le> j. find_offset (fst (fs ! j)) (fst (snd (fs ! j))) b = frame_start fs i"
begin

lemma scan_meets:
  assumes "stands_for b fs" "keys_increase fs" "j < length fs"
  shows "\<exists>i \<le> j. find_offset (fst (fs ! j)) (fst (snd (fs ! j))) b = frame_start fs i \<and>
    (\<forall>k. i \<le> k \<and> k < j \<longrightarrow> frame_key (fs ! k) \<noteq> frame_key (fs ! j))"
proof -
  obtain i where i: "i \<le> j" "find_offset (fst (fs ! j)) (fst (snd (fs ! j))) b = frame_start fs i"
    using boundary [OF assms] by blast
  have "frame_key (fs ! k) \<noteq> frame_key (fs ! j)" if "k < j" for k
    using sorted_wrt_nth_less [OF assms(2) that assms(3)] by auto
  then show ?thesis using i by blast
qed

end

lemma FindOffset_boundary:
  assumes "block_frames b fs" "keys_increase fs" "j < length fs"
  shows "\<exists>i \<le> j. FindOffset (fst (fs ! j)) (fst (snd (fs ! j))) b = frame_start fs i"
proof -
  define before where "before = takeWhile (\<lambda>e. \<not> frame_key (fs ! j) < (so_lsn e, so_fragment_index e)) (lb_sparse_offsets b)"
  show ?thesis
  proof (cases "before = []")
    case True
    then have "FindOffset (fst (fs ! j)) (fst (snd (fs ! j))) b = frame_start fs 0"
      unfolding FindOffset_def before_def by (simp add: frame_start_def)
    then show ?thesis by blast
  next
    case False
    then have e: "last before \<in> set (lb_sparse_offsets b)" "\<not> frame_key (fs ! j) < (so_lsn (last before), so_fragment_index (last before))"
      using last_in_set [OF False] set_takeWhileD unfolding before_def by fast+
    then obtain k where k: "k < sparse_length (length fs)" "last before = sparse_entry fs k"
      using assms(1) by (auto simp: block_frames_def)
    have "kSparseStride * k \<le> j"
      using sorted_wrt_nth_less [OF assms(2), of j "kSparseStride * k"] sparse_inside [OF k(1)] e(2)
      unfolding k(2) sparse_entry_def by (force simp: not_le)
    moreover have "FindOffset (fst (fs ! j)) (fst (snd (fs ! j))) b = frame_start fs (kSparseStride * k)"
      using False k(2) unfolding FindOffset_def before_def by (simp add: sparse_entry_def)
    ultimately show ?thesis by blast
  qed
qed

interpretation log_block: boundary_log block_frames FindOffset
  by unfold_locales (rule FindOffset_boundary)

end
