(* ===== verification/History.thy ===== *)
theory History
  imports Log_Block
begin

text \<open>
  The retained history of a replica worker, \<^verbatim>\<open>src/replication/replication_history.cpp\<close>: recently
  applied effects in their original bytes, kept in log blocks under a quota that primary blocks
  take precedence in. Effects are framed in the memory of the blocks and read back from there.
  Byte counts are natural numbers; \<^term>\<open>None\<close> stands for a violated assertion, a call of
  \<^verbatim>\<open>std::terminate\<close> and a loop that does not end.
\<close>

record NativeHistoryRecord =
  hr_flow_id :: nat
  hr_lsn :: u64
  hr_canonical :: bytes

record NativeHistoryRange =
  ra_first_lsn :: u64
  ra_end_lsn :: u64

record NativeHistoryChunk =
  ck_total_bytes :: nat
  ck_bytes :: bytes

record NativeHistoryRecordInfo =
  ri_flow_id :: nat
  ri_lsn :: u64
  ri_bytes :: nat

section \<open>Framing\<close>

record EffectHeader =
  eh_sequence :: u64
  eh_bytes :: u32
  eh_records :: u32

record HistoryRecordHeader =
  hh_lsn :: u64
  hh_flow_id :: u32
  hh_bytes :: u32

definition kHeaderBytes :: nat where "kHeaderBytes = 16"

definition load_effect_header :: "bytes \<Rightarrow> nat \<Rightarrow> EffectHeader" where
  "load_effect_header mem at = \<lparr>eh_sequence = of_le (load mem at 8), eh_bytes = of_le (load mem (at + 8) 4), eh_records = of_le (load mem (at + 12) 4)\<rparr>"

definition load_record_header :: "bytes \<Rightarrow> nat \<Rightarrow> HistoryRecordHeader" where
  "load_record_header mem at = \<lparr>hh_lsn = of_le (load mem at 8), hh_flow_id = of_le (load mem (at + 8) 4), hh_bytes = of_le (load mem (at + 12) 4)\<rparr>"

definition store_effect_header :: "bytes \<Rightarrow> nat \<Rightarrow> EffectHeader \<Rightarrow> bytes" where
  "store_effect_header mem at h = store mem at (le_bytes 8 (eh_sequence h) @ le_bytes 4 (eh_bytes h) @ le_bytes 4 (eh_records h))"

definition store_record_header :: "bytes \<Rightarrow> nat \<Rightarrow> HistoryRecordHeader \<Rightarrow> bytes" where
  "store_record_header mem at h = store mem at (le_bytes 8 (hh_lsn h) @ le_bytes 4 (hh_flow_id h) @ le_bytes 4 (hh_bytes h))"

text \<open>The records of an effect: each header with the offset of its payload.\<close>

fun record_entries :: "bytes \<Rightarrow> nat \<Rightarrow> nat \<Rightarrow> (HistoryRecordHeader \<times> nat) list" where
  "record_entries mem at 0 = []"
| "record_entries mem at (Suc n) =
     (let record = load_record_header mem at in
      (record, at + kHeaderBytes) # record_entries mem (at + kHeaderBytes + unat (hh_bytes record)) n)"

definition ForEachRecord :: "bytes \<Rightarrow> nat \<Rightarrow> (HistoryRecordHeader \<times> nat) list" where
  "ForEachRecord mem effect = record_entries mem (effect + kHeaderBytes) (unat (eh_records (load_effect_header mem effect)))"

section \<open>Blocks with an index\<close>

record IndexEntry =
  ix_lsn :: u64
  ix_effect :: u64
  ix_flow_id :: u32

definition kIndexEntryBytes :: nat where "kIndexEntryBytes = 24"

record HistoryBlock = ReplicationLogBlock +
  hb_index :: "IndexEntry list"
  hb_record_count :: nat
  hb_indexed_bytes :: nat
  hb_indexed_frames :: nat

definition new_block :: "ReplicationLogBlock \<Rightarrow> HistoryBlock" where
  "new_block b = ReplicationLogBlock.extend b (HistoryBlock.fields [] 0 0 0)"

definition Recycle :: "HistoryBlock \<Rightarrow> HistoryBlock" where
  "Recycle b = (block_Reset b)\<lparr>hb_index := [], hb_record_count := 0, hb_indexed_bytes := 0, hb_indexed_frames := 0\<rparr>"

text \<open>The offsets of the effects from an offset to the end of the committed bytes.\<close>

partial_function (option) scan_effects :: "bytes \<Rightarrow> nat \<Rightarrow> nat \<Rightarrow> nat list option" where
  "scan_effects mem committed offset =
     (if offset < committed then
        Option.bind (scan_effects mem committed (offset + unat (eh_bytes (load_effect_header mem offset)))) (\<lambda>rest. Some (offset # rest))
      else Some [])"

definition entry_key :: "IndexEntry \<Rightarrow> u32 \<times> u64" where
  "entry_key e = (ix_flow_id e, ix_lsn e)"

definition BuildIndex :: "memory_env \<Rightarrow> HistoryBlock \<Rightarrow> (bool \<times> HistoryBlock) option" where
  "BuildIndex env b =
     (if \<not> me_reserve env (AllocatorUsableSizeForRequest env (hb_record_count b * kIndexEntryBytes)) then Some (False, b)
      else
        case scan_effects (lb_bytes b) (lb_committed_bytes b) 0 of
          None \<Rightarrow> None
        | Some offsets \<Rightarrow>
            let entries = concat (map (\<lambda>effect. map (\<lambda>(record, _).
                  \<lparr>ix_lsn = hh_lsn record, ix_effect = eh_sequence (load_effect_header (lb_bytes b) effect), ix_flow_id = hh_flow_id record\<rparr>)
                  (ForEachRecord (lb_bytes b) effect)) offsets)
            in Some (True, b\<lparr>hb_index := sort_key entry_key entries, hb_indexed_bytes := lb_committed_bytes b,
                 hb_indexed_frames := lb_frame_count b\<rparr>))"

partial_function (option) seek_effect :: "bytes \<Rightarrow> nat \<Rightarrow> u64 \<Rightarrow> nat \<Rightarrow> nat option" where
  "seek_effect mem committed sequence offset =
     (if offset < committed then
        (if eh_sequence (load_effect_header mem offset) = sequence then Some offset
         else seek_effect mem committed sequence (offset + unat (eh_bytes (load_effect_header mem offset))))
      else None)"

definition record_matches :: "nat \<Rightarrow> u64 \<Rightarrow> HistoryRecordHeader \<times> nat \<Rightarrow> bool" where
  "record_matches flow lsn entry \<longleftrightarrow> unat (hh_flow_id (fst entry)) = flow \<and> hh_lsn (fst entry) = lsn"

partial_function (option) search_effects :: "bytes \<Rightarrow> nat \<Rightarrow> nat \<Rightarrow> u64 \<Rightarrow> nat \<Rightarrow> nat option option" where
  "search_effects mem committed flow lsn offset =
     (if offset < committed then
        (if list_ex (record_matches flow lsn) (ForEachRecord mem offset) then Some (Some offset)
         else search_effects mem committed flow lsn (offset + unat (eh_bytes (load_effect_header mem offset))))
      else Some None)"

definition lower_bound_entry :: "nat \<Rightarrow> u64 \<Rightarrow> IndexEntry list \<Rightarrow> IndexEntry option" where
  "lower_bound_entry flow lsn index =
     (case dropWhile (\<lambda>e. (unat (ix_flow_id e), ix_lsn e) < (flow, lsn)) index of [] \<Rightarrow> None | e # _ \<Rightarrow> Some e)"

definition block_Find :: "memory_env \<Rightarrow> nat \<Rightarrow> u64 \<Rightarrow> HistoryBlock \<Rightarrow> (nat option \<times> HistoryBlock) option" where
  "block_Find env flow lsn b0 =
     (case (if hb_indexed_bytes b0 = 0 \<or> lb_frame_count b0 - hb_indexed_frames b0 \<ge> 64 then BuildIndex env b0 else Some (False, b0)) of
        None \<Rightarrow> None
      | Some (_, b) \<Rightarrow>
          (case lower_bound_entry flow lsn (hb_index b) of
             Some found \<Rightarrow>
               if unat (ix_flow_id found) = flow \<and> ix_lsn found = lsn then
                 map_option (\<lambda>effect. (Some effect, b))
                   (seek_effect (lb_bytes b) (lb_committed_bytes b) (ix_effect found) (FindOffset (ix_effect found) 0 b))
               else map_option (\<lambda>r. (r, b)) (search_effects (lb_bytes b) (lb_committed_bytes b) flow lsn (hb_indexed_bytes b))
           | None \<Rightarrow> map_option (\<lambda>r. (r, b)) (search_effects (lb_bytes b) (lb_committed_bytes b) flow lsn (hb_indexed_bytes b))))"

section \<open>The history of a worker\<close>

record ReplicationHistory =
  hi_capacity :: nat
  hi_primary_bytes :: nat
  hi_secondary_bytes :: nat
  hi_history_id :: string
  hi_last_lsns :: "u64 list"
  hi_next_effect :: u64
  hi_blocks :: "HistoryBlock list"

definition new_history :: "nat \<Rightarrow> ReplicationHistory" where
  "new_history capacity_bytes = \<lparr>hi_capacity = capacity_bytes, hi_primary_bytes = 0, hi_secondary_bytes = 0, hi_history_id = [],
     hi_last_lsns = [], hi_next_effect = 1, hi_blocks = []\<rparr>"

definition Evict :: "ReplicationHistory \<Rightarrow> ReplicationHistory option" where
  "Evict h = (case hi_blocks h of
     [] \<Rightarrow> None
   | b # bs \<Rightarrow> Some (h\<lparr>hi_secondary_bytes := hi_secondary_bytes h - lb_capacity b, hi_blocks := bs\<rparr>))"

definition SecondaryCapacity :: "ReplicationHistory \<Rightarrow> nat" where
  "SecondaryCapacity h = (if hi_primary_bytes h \<ge> hi_capacity h then 0 else hi_capacity h - hi_primary_bytes h)"

text \<open>The loop that evicts while more than a number of bytes is held.\<close>

function evict_above :: "nat \<Rightarrow> ReplicationHistory \<Rightarrow> ReplicationHistory option" where
  "evict_above target h =
     (if hi_secondary_bytes h > target then
        (case Evict h of None \<Rightarrow> None | Some h' \<Rightarrow> evict_above target h')
      else Some h)"
  by pat_completeness auto

termination evict_above
  by (relation "measure (\<lambda>(t, h). length (hi_blocks h))") (auto simp: Evict_def split: list.splits)

declare evict_above.simps [simp del]

definition Trim :: "ReplicationHistory \<Rightarrow> ReplicationHistory option" where
  "Trim h = evict_above (SecondaryCapacity h) h"

function evict_all :: "ReplicationHistory \<Rightarrow> ReplicationHistory option" where
  "evict_all h = (if hi_blocks h = [] then Some h else case Evict h of None \<Rightarrow> None | Some h' \<Rightarrow> evict_all h')"
  by pat_completeness auto

termination evict_all
  by (relation "measure (\<lambda>h. length (hi_blocks h))") (auto simp: Evict_def split: list.splits)

declare evict_all.simps [simp del]

definition history_Reset :: "string \<Rightarrow> nat \<Rightarrow> ReplicationHistory \<Rightarrow> (unit status_or \<times> ReplicationHistory) option" where
  "history_Reset history_id flow_count h =
     (if history_id = [] \<or> flow_count = 0 \<or> flow_count > 1024 then Some (Inl InvalidArgument, h)
      else
        (case evict_all h of
           None \<Rightarrow> None
         | Some h' \<Rightarrow> Some (Inr (), h'\<lparr>hi_last_lsns := replicate flow_count 0, hi_next_effect := 1, hi_history_id := history_id\<rparr>)))"

definition SetCapacity :: "nat \<Rightarrow> ReplicationHistory \<Rightarrow> ReplicationHistory option" where
  "SetCapacity capacity_bytes h = Trim (h\<lparr>hi_capacity := capacity_bytes\<rparr>)"

text \<open>A charge is the handle of published primary bytes; an empty one is \<^term>\<open>None\<close>.\<close>

definition ChargePrimary :: "nat \<Rightarrow> ReplicationHistory \<Rightarrow> (nat option \<times> ReplicationHistory) option" where
  "ChargePrimary bytes h =
     (if bytes > kSizeMax - hi_primary_bytes h then None
      else map_option (Pair (Some bytes)) (Trim (h\<lparr>hi_primary_bytes := hi_primary_bytes h + bytes\<rparr>)))"

definition charge_Reset :: "nat option \<Rightarrow> ReplicationHistory \<Rightarrow> (nat option \<times> ReplicationHistory) option" where
  "charge_Reset charge h =
     (case charge of
        None \<Rightarrow> Some (None, h)
      | Some bytes \<Rightarrow>
          if hi_primary_bytes h \<ge> bytes then Some (None, h\<lparr>hi_primary_bytes := hi_primary_bytes h - bytes\<rparr>) else None)"

definition ReclaimSecondary :: "nat \<Rightarrow> ReplicationHistory \<Rightarrow> ReplicationHistory option" where
  "ReclaimSecondary bytes h = evict_above (hi_secondary_bytes h - min bytes (hi_secondary_bytes h)) h"

section \<open>Retention\<close>

text \<open>The validation loop: the flow of the record before, if any, and the bytes so far.\<close>

fun check_records :: "u64 list \<Rightarrow> nat option \<Rightarrow> nat \<Rightarrow> NativeHistoryRecord list \<Rightarrow> nat option" where
  "check_records last_lsns prev bytes [] = Some bytes"
| "check_records last_lsns prev bytes (record # records) =
     (if hr_flow_id record \<ge> length last_lsns \<or> hr_lsn record \<le> last_lsns ! hr_flow_id record \<or> hr_lsn record = - 1 \<or>
         hr_canonical record = [] \<or> prev = Some (hr_flow_id record) \<or> bytes > kU32Max - kHeaderBytes \<or>
         length (hr_canonical record) > kU32Max - bytes - kHeaderBytes
      then None
      else check_records last_lsns (Some (hr_flow_id record)) (bytes + kHeaderBytes + length (hr_canonical record)) records)"

text \<open>Retiring blocks until a new one fits, keeping the first that has its size for reuse.\<close>

fun retire :: "nat \<Rightarrow> nat \<Rightarrow> HistoryBlock option \<Rightarrow> nat \<Rightarrow> HistoryBlock list \<Rightarrow> (nat \<times> HistoryBlock option \<times> HistoryBlock list) option" where
  "retire limit block_bytes recycled secondary [] = (if secondary > limit then None else Some (secondary, recycled, []))"
| "retire limit block_bytes recycled secondary (front # rest) =
     (if secondary > limit then
        retire limit block_bytes (if recycled = None \<and> lb_capacity front = block_bytes then Some (Recycle front) else recycled)
          (secondary - lb_capacity front) rest
      else Some (secondary, recycled, front # rest))"

definition make_room :: "memory_env \<Rightarrow> nat \<Rightarrow> nat \<Rightarrow> ReplicationHistory \<Rightarrow> (bool \<times> ReplicationHistory) option" where
  "make_room env bytes capacity h =
     (let block_bytes = max bytes (min kStorageBlockBytes capacity) in
      case retire (capacity - block_bytes) block_bytes None (hi_secondary_bytes h) (hi_blocks h) of
        None \<Rightarrow> None
      | Some (secondary, recycled, blocks) \<Rightarrow>
          (case recycled of
             Some b \<Rightarrow> Some (True, h\<lparr>hi_secondary_bytes := secondary + block_bytes, hi_blocks := blocks @ [b]\<rparr>)
           | None \<Rightarrow>
               (case Allocate env block_bytes of
                  Inl e \<Rightarrow> Some (False, h\<lparr>hi_secondary_bytes := secondary, hi_blocks := blocks\<rparr>)
                | Inr b \<Rightarrow> Some (True, h\<lparr>hi_secondary_bytes := secondary + block_bytes, hi_blocks := blocks @ [new_block b]\<rparr>))))"

definition write_record :: "NativeHistoryRecord \<Rightarrow> bytes \<times> nat \<Rightarrow> bytes \<times> nat" where
  "write_record record = (\<lambda>(mem, at).
     (store (store_record_header mem at \<lparr>hh_lsn = hr_lsn record, hh_flow_id = word_of_nat (hr_flow_id record),
          hh_bytes = word_of_nat (length (hr_canonical record))\<rparr>)
        (at + kHeaderBytes) (hr_canonical record),
      at + kHeaderBytes + length (hr_canonical record)))"

definition append_effect :: "NativeHistoryRecord list \<Rightarrow> nat \<Rightarrow> ReplicationHistory \<Rightarrow> (bool \<times> ReplicationHistory) option" where
  "append_effect records bytes h =
     (let b = last (hi_blocks h); sequence = hi_next_effect h in
      case AppendBuffer bytes b of
        None \<Rightarrow> None
      | Some output \<Rightarrow>
          let mem = store_effect_header (lb_bytes b) output
                \<lparr>eh_sequence = sequence, eh_bytes = word_of_nat bytes, eh_records = word_of_nat (length records)\<rparr>;
              mem' = fst (fold write_record records (mem, output + kHeaderBytes))
          in case CommitAppend sequence 0 bytes (b\<lparr>lb_bytes := mem', hb_record_count := hb_record_count b + length records\<rparr>) of
               None \<Rightarrow> None
             | Some b' \<Rightarrow> Some (True, h\<lparr>hi_next_effect := sequence + 1, hi_blocks := butlast (hi_blocks h) @ [b'],
                 hi_last_lsns := fold (\<lambda>r ls. ls[hr_flow_id r := hr_lsn r]) records (hi_last_lsns h)\<rparr>))"

definition RetainSorted :: "memory_env \<Rightarrow> string \<Rightarrow> NativeHistoryRecord list \<Rightarrow> ReplicationHistory \<Rightarrow> (bool \<times> ReplicationHistory) option" where
  "RetainSorted env history_id records h =
     (if records = [] \<or> history_id \<noteq> hi_history_id h \<or> length records > length (hi_last_lsns h) \<or> hi_next_effect h = - 1
      then Some (False, h)
      else case check_records (hi_last_lsns h) None kHeaderBytes records of
        None \<Rightarrow> Some (False, h)
      | Some payload_end \<Rightarrow>
          if payload_end > kU32Max - 7 then Some (False, h)
          else
            let bytes = unat (AlignRecord (word_of_nat payload_end)); capacity = SecondaryCapacity h in
            if bytes > capacity then Some (False, h)
            else
              case (if hi_blocks h = [] \<or> bytes > lb_capacity (last (hi_blocks h)) - lb_committed_bytes (last (hi_blocks h))
                    then make_room env bytes capacity h else Some (True, h)) of
                None \<Rightarrow> None
              | Some (fits, h') \<Rightarrow> if fits then append_effect records bytes h' else Some (False, h'))"

definition TryRetain :: "memory_env \<Rightarrow> string \<Rightarrow> NativeHistoryRecord list \<Rightarrow> ReplicationHistory \<Rightarrow> (bool \<times> ReplicationHistory) option" where
  "TryRetain env history_id records h = RetainSorted env history_id (sort_key hr_flow_id records) h"

definition TryRetainOne :: "memory_env \<Rightarrow> string \<Rightarrow> NativeHistoryRecord \<Rightarrow> ReplicationHistory \<Rightarrow> (bool \<times> ReplicationHistory) option" where
  "TryRetainOne env history_id record h = RetainSorted env history_id [record] h"

section \<open>Export\<close>

definition extend_ranges :: "u64 \<Rightarrow> NativeHistoryRange list \<Rightarrow> NativeHistoryRange list" where
  "extend_ranges lsn ranges =
     (if ranges \<noteq> [] \<and> ra_end_lsn (last ranges) = lsn
      then butlast ranges @ [(last ranges)\<lparr>ra_end_lsn := lsn + 1\<rparr>]
      else ranges @ [\<lparr>ra_first_lsn = lsn, ra_end_lsn = lsn + 1\<rparr>])"

fun cover_records :: "(HistoryRecordHeader \<times> nat) list \<Rightarrow> NativeHistoryRange list list \<Rightarrow> NativeHistoryRange list list option" where
  "cover_records [] result = Some result"
| "cover_records ((record, _) # records) result =
     (let flow = unat (hh_flow_id record) in
      if flow < length result then cover_records records (result[flow := extend_ranges (hh_lsn record) (result ! flow)]) else None)"

fun cover_blocks :: "HistoryBlock list \<Rightarrow> NativeHistoryRange list list \<Rightarrow> NativeHistoryRange list list option" where
  "cover_blocks [] result = Some result"
| "cover_blocks (b # bs) result =
     (case scan_effects (lb_bytes b) (lb_committed_bytes b) 0 of
        None \<Rightarrow> None
      | Some offsets \<Rightarrow>
          (case cover_records (concat (map (ForEachRecord (lb_bytes b)) offsets)) result of
             None \<Rightarrow> None
           | Some result' \<Rightarrow> cover_blocks bs result'))"

definition Coverage :: "string \<Rightarrow> nat \<Rightarrow> ReplicationHistory \<Rightarrow> NativeHistoryRange list list option" where
  "Coverage history_id max_ranges_per_flow h =
     (if history_id \<noteq> hi_history_id h \<or> max_ranges_per_flow = 0 then Some []
      else map_option (map (\<lambda>ranges. drop (length ranges - max_ranges_per_flow) ranges))
        (cover_blocks (hi_blocks h) (replicate (length (hi_last_lsns h)) [])))"

text \<open>Finding an effect refreshes the index of the blocks it visits.\<close>

fun find_block :: "memory_env \<Rightarrow> nat \<Rightarrow> u64 \<Rightarrow> HistoryBlock list \<Rightarrow> ((bytes \<times> nat) option \<times> HistoryBlock list) option" where
  "find_block env flow lsn [] = Some (None, [])"
| "find_block env flow lsn (b # bs) =
     (case block_Find env flow lsn b of
        None \<Rightarrow> None
      | Some (Some effect, b') \<Rightarrow> Some (Some (lb_bytes b', effect), b' # bs)
      | Some (None, b') \<Rightarrow> map_option (\<lambda>(r, bs'). (r, b' # bs')) (find_block env flow lsn bs))"

definition DescribeEffect ::
  "memory_env \<Rightarrow> string \<Rightarrow> nat \<Rightarrow> u64 \<Rightarrow> ReplicationHistory \<Rightarrow> (NativeHistoryRecordInfo list status_or \<times> ReplicationHistory) option" where
  "DescribeEffect env history_id flow_id lsn h =
     (if history_id \<noteq> hi_history_id h \<or> flow_id \<ge> length (hi_last_lsns h) then Some (Inl NotFound, h)
      else
        (case find_block env flow_id lsn (hi_blocks h) of
           None \<Rightarrow> None
         | Some (None, bs) \<Rightarrow> Some (Inl NotFound, h\<lparr>hi_blocks := bs\<rparr>)
         | Some (Some (mem, effect), bs) \<Rightarrow>
             Some (Inr (map (\<lambda>(r, _). \<lparr>ri_flow_id = unat (hh_flow_id r), ri_lsn = hh_lsn r, ri_bytes = unat (hh_bytes r)\<rparr>)
               (ForEachRecord mem effect)), h\<lparr>hi_blocks := bs\<rparr>)))"

definition history_Read ::
  "memory_env \<Rightarrow> string \<Rightarrow> nat \<Rightarrow> u64 \<Rightarrow> nat \<Rightarrow> nat \<Rightarrow> ReplicationHistory \<Rightarrow> (NativeHistoryChunk status_or \<times> ReplicationHistory) option" where
  "history_Read env history_id flow_id lsn offset max_bytes h =
     (if max_bytes = 0 \<or> max_bytes > 64 * 1024 then Some (Inl InvalidArgument, h)
      else if history_id \<noteq> hi_history_id h \<or> flow_id \<ge> length (hi_last_lsns h) then Some (Inl NotFound, h)
      else
        (case find_block env flow_id lsn (hi_blocks h) of
           None \<Rightarrow> None
         | Some (None, bs) \<Rightarrow> Some (Inl NotFound, h\<lparr>hi_blocks := bs\<rparr>)
         | Some (Some (mem, effect), bs) \<Rightarrow>
             let payload = fold (\<lambda>(r, at) p. if record_matches flow_id lsn (r, at) then load mem at (unat (hh_bytes r)) else p)
                   (ForEachRecord mem effect) []
             in if offset \<ge> length payload then Some (Inl OutOfRange, h\<lparr>hi_blocks := bs\<rparr>)
                else Some (Inr \<lparr>ck_total_bytes = length payload, ck_bytes = take max_bytes (drop offset payload)\<rparr>, h\<lparr>hi_blocks := bs\<rparr>)))"

end
