(* ===== verification/History_Frames.thy ===== *)
theory History_Frames
  imports History
begin

text \<open>
  The framing of retained effects: what was written into a block is read back by every scan of
  the code, and appending an effect leaves the others as they are.
\<close>

section \<open>Effects as bytes\<close>

type_synonym effect = "u64 \<times> NativeHistoryRecord list"

definition entry_bytes :: "NativeHistoryRecord \<Rightarrow> bytes" where
  "entry_bytes r = le_bytes 8 (hr_lsn r) @ le_bytes 4 (word_of_nat (hr_flow_id r) :: u32) @
     le_bytes 4 (word_of_nat (length (hr_canonical r)) :: u32) @ hr_canonical r"

definition records_size :: "NativeHistoryRecord list \<Rightarrow> nat" where
  "records_size rs = sum_list (map (\<lambda>r. kHeaderBytes + length (hr_canonical r)) rs)"

definition effect_size :: "NativeHistoryRecord list \<Rightarrow> nat" where
  "effect_size rs = unat (AlignRecord (word_of_nat (kHeaderBytes + records_size rs)))"

definition effect_bytes :: "effect \<Rightarrow> bytes" where
  "effect_bytes e = le_bytes 8 (fst e) @ le_bytes 4 (word_of_nat (effect_size (snd e)) :: u32) @
     le_bytes 4 (word_of_nat (length (snd e)) :: u32) @ concat (map entry_bytes (snd e))"

definition records_ok :: "NativeHistoryRecord list \<Rightarrow> bool" where
  "records_ok rs \<longleftrightarrow> rs \<noteq> [] \<and> kHeaderBytes + records_size rs \<le> kU32Max - 7 \<and> (\<forall>r \<in> set rs. hr_flow_id r < 1024 \<and> hr_canonical r \<noteq> [])"

lemma length_entry_bytes [simp]: "length (entry_bytes r) = kHeaderBytes + length (hr_canonical r)"
  by (simp add: entry_bytes_def kHeaderBytes_def)

lemma length_records_bytes [simp]: "length (concat (map entry_bytes rs)) = records_size rs"
  by (induction rs) (simp_all add: records_size_def)

lemma length_effect_bytes [simp]: "length (effect_bytes e) = kHeaderBytes + records_size (snd e)"
  by (simp add: effect_bytes_def kHeaderBytes_def)

lemma effect_size_bounds:
  assumes "records_ok rs"
  shows "kHeaderBytes + records_size rs \<le> effect_size rs" "effect_size rs \<le> kU32Max" "kMinimumRecordBytes \<le> effect_size rs"
  using AlignRecord_ge [of "kHeaderBytes + records_size rs"] assms
  by (auto simp: records_ok_def effect_size_def kU32Max_def kHeaderBytes_def kMinimumRecordBytes_def)

lemma records_size_Cons: "records_size (r # rs) = kHeaderBytes + length (hr_canonical r) + records_size rs"
  by (simp add: records_size_def)

lemma records_ok_fields:
  assumes "records_ok rs"
  shows "length rs \<le> kU32Max" "r \<in> set rs \<Longrightarrow> length (hr_canonical r) \<le> kU32Max" "r \<in> set rs \<Longrightarrow> hr_flow_id r < 1024"
proof -
  have "length rs \<le> records_size rs \<and> (r \<in> set rs \<longrightarrow> length (hr_canonical r) \<le> records_size rs)" for r
    by (induction rs) (auto simp: records_size_Cons kHeaderBytes_def)
  from this [of r] show "length rs \<le> kU32Max" "r \<in> set rs \<Longrightarrow> length (hr_canonical r) \<le> kU32Max" "r \<in> set rs \<Longrightarrow> hr_flow_id r < 1024"
    using assms by (auto simp: records_ok_def kU32Max_def)
qed

lemma unat_small: "n \<le> kU32Max \<Longrightarrow> unat (word_of_nat n :: u32) = n"
  by (simp add: kU32Max_def unsigned_of_nat take_bit_eq_mod)

section \<open>Reading frames\<close>

lemma load_drop: "load mem at n = take n (drop at mem)"
  by (simp add: load_def)

text \<open>The record a header and a payload offset stand for.\<close>

definition decode_entry :: "bytes \<Rightarrow> HistoryRecordHeader \<times> nat \<Rightarrow> NativeHistoryRecord" where
  "decode_entry mem entry = \<lparr>hr_flow_id = unat (hh_flow_id (fst entry)), hr_lsn = hh_lsn (fst entry),
     hr_canonical = load mem (snd entry) (unat (hh_bytes (fst entry)))\<rparr>"

lemma load_record_header_bytes:
  assumes "drop at mem = entry_bytes r @ rest"
  shows "load_record_header mem at = \<lparr>hh_lsn = hr_lsn r, hh_flow_id = word_of_nat (hr_flow_id r), hh_bytes = word_of_nat (length (hr_canonical r))\<rparr>"
proof -
  have "drop (at + 8) mem = drop 8 (entry_bytes r @ rest)" "drop (at + 12) mem = drop 12 (entry_bytes r @ rest)"
    using assms by (metis add.commute drop_drop)+
  then show ?thesis
    using assms unfolding load_record_header_def load_drop by (simp add: entry_bytes_def)
qed

lemma record_entries_bytes:
  assumes "drop at mem = concat (map entry_bytes rs) @ rest"
    "\<And>r. r \<in> set rs \<Longrightarrow> length (hr_canonical r) \<le> kU32Max" "\<And>r. r \<in> set rs \<Longrightarrow> hr_flow_id r < 1024"
  shows "map (decode_entry mem) (record_entries mem at (length rs)) = rs"
  using assms
proof (induction rs arbitrary: at)
  case (Cons r rs)
  have h: "drop at mem = entry_bytes r @ concat (map entry_bytes rs) @ rest" using Cons.prems(1) by simp
  have b: "unat (word_of_nat (length (hr_canonical r)) :: u32) = length (hr_canonical r)"
    "unat (word_of_nat (hr_flow_id r) :: u32) = hr_flow_id r"
    using Cons.prems(2,3) [of r] unat_small [of "hr_flow_id r"] by (simp_all add: unat_small kU32Max_def)
  have p: "drop (at + kHeaderBytes) mem = hr_canonical r @ concat (map entry_bytes rs) @ rest"
  proof -
    have "drop (at + kHeaderBytes) mem = drop kHeaderBytes (drop at mem)" by (simp add: add.commute)
    then show ?thesis unfolding h by (simp add: entry_bytes_def kHeaderBytes_def)
  qed
  have "drop (at + kHeaderBytes + length (hr_canonical r)) mem = concat (map entry_bytes rs) @ rest"
  proof -
    have "drop (at + kHeaderBytes + length (hr_canonical r)) mem = drop (length (hr_canonical r)) (drop (at + kHeaderBytes) mem)"
      by (simp add: add.commute)
    then show ?thesis unfolding p by simp
  qed
  then have "map (decode_entry mem) (record_entries mem (at + kHeaderBytes + length (hr_canonical r)) (length rs)) = rs"
    using Cons.IH Cons.prems(2,3) by simp
  moreover have "load mem (at + kHeaderBytes) (length (hr_canonical r)) = hr_canonical r" unfolding load_drop p by simp
  then have "decode_entry mem (load_record_header mem at, at + kHeaderBytes) = r"
    unfolding decode_entry_def load_record_header_bytes [OF h] using b by simp
  ultimately show ?case using load_record_header_bytes [OF h] b by (simp add: Let_def)
qed simp

definition effect_at :: "bytes \<Rightarrow> nat \<Rightarrow> effect \<Rightarrow> bool" where
  "effect_at mem off e \<longleftrightarrow> records_ok (snd e) \<and> load mem off (length (effect_bytes e)) = effect_bytes e"

lemma effect_at_reads:
  assumes "effect_at mem off e"
  shows "eh_sequence (load_effect_header mem off) = fst e" "unat (eh_bytes (load_effect_header mem off)) = effect_size (snd e)"
    "map (decode_entry mem) (ForEachRecord mem off) = snd e"
proof -
  have ok: "records_ok (snd e)" and "take (length (effect_bytes e)) (drop off mem) = effect_bytes e"
    using assms by (simp_all only: effect_at_def load_drop)
  then obtain rest where d: "drop off mem = effect_bytes e @ rest" by (metis append_take_drop_id)
  have later: "drop (off + n) mem = drop n (effect_bytes e @ rest)" for n
    using d by (metis add.commute drop_drop)
  have h: "load_effect_header mem off =
      \<lparr>eh_sequence = fst e, eh_bytes = word_of_nat (effect_size (snd e)), eh_records = word_of_nat (length (snd e))\<rparr>"
    unfolding load_effect_header_def load_drop later d by (simp add: effect_bytes_def)
  show "eh_sequence (load_effect_header mem off) = fst e" "unat (eh_bytes (load_effect_header mem off)) = effect_size (snd e)"
    using effect_size_bounds(2) [OF ok] by (simp_all add: h unat_small)
  have "drop (off + kHeaderBytes) mem = concat (map entry_bytes (snd e)) @ rest"
    unfolding later by (simp add: effect_bytes_def kHeaderBytes_def)
  then show "map (decode_entry mem) (ForEachRecord mem off) = snd e"
    using record_entries_bytes [of "off + kHeaderBytes" mem "snd e" rest] records_ok_fields [OF ok]
    by (simp add: ForEachRecord_def h unat_small)
qed

section \<open>The effects of a block\<close>

definition frames_of :: "effect list \<Rightarrow> frame list" where
  "frames_of es = map (\<lambda>e. (fst e, 0, effect_size (snd e))) es"

abbreviation start_of :: "effect list \<Rightarrow> nat \<Rightarrow> nat" where
  "start_of es i \<equiv> frame_start (frames_of es) i"

definition laid :: "bytes \<Rightarrow> effect list \<Rightarrow> bool" where
  "laid mem es \<longleftrightarrow> (\<forall>i < length es. effect_at mem (start_of es i) (es ! i))"

lemma length_frames_of [simp]: "length (frames_of es) = length es"
  by (simp add: frames_of_def)

lemma nth_frames_of [simp]: "i < length es \<Longrightarrow> frames_of es ! i = (fst (es ! i), 0, effect_size (snd (es ! i)))"
  by (simp add: frames_of_def)

lemma start_Suc: "i < length es \<Longrightarrow> start_of es (Suc i) = start_of es i + effect_size (snd (es ! i))"
  by (simp add: frame_start_Suc)

lemma start_less:
  assumes "laid mem es" "i < j" "j \<le> length es"
  shows "start_of es i < start_of es j"
proof -
  have "records_ok (snd (es ! i))" using assms by (simp add: laid_def effect_at_def)
  then have "start_of es i < start_of es (Suc i)"
    using start_Suc [of i es] effect_size_bounds(3) assms by (fastforce simp: kMinimumRecordBytes_def)
  also have "\<dots> \<le> start_of es j" by (rule frame_start_mono) (use assms in simp)
  finally show ?thesis .
qed

lemma laid_next:
  assumes "laid mem es" "i < length es"
  shows "start_of es i + unat (eh_bytes (load_effect_header mem (start_of es i))) = start_of es (Suc i)"
    "start_of es i < start_of es (length es)"
  using effect_at_reads(2) [of mem "start_of es i" "es ! i"] assms start_Suc [of i es] start_less [OF assms(1), of i "length es"]
  by (simp_all add: laid_def)

lemma scan_effects_laid:
  assumes "laid mem es" "i \<le> length es"
  shows "scan_effects mem (start_of es (length es)) (start_of es i) = Some (map (start_of es) [i..<length es])"
  using assms(2)
proof (induction "length es - i" arbitrary: i)
  case 0
  then show ?case by (simp add: scan_effects.simps)
next
  case (Suc n)
  then have i: "i < length es" by simp
  have "scan_effects mem (start_of es (length es)) (start_of es (Suc i)) = Some (map (start_of es) [Suc i..<length es])"
    using Suc i by (intro Suc.hyps(1)) simp_all
  then show ?case
    using laid_next [OF assms(1) i] i by (simp add: scan_effects.simps [of mem _ "start_of es i"] upt_conv_Cons)
qed

lemma seek_effect_laid:
  assumes "laid mem es" "i \<le> j" "j < length es" "\<And>k. i \<le> k \<Longrightarrow> k < j \<Longrightarrow> fst (es ! k) \<noteq> fst (es ! j)"
  shows "seek_effect mem (start_of es (length es)) (fst (es ! j)) (start_of es i) = Some (start_of es j)"
  using assms(2,4)
proof (induction "j - i" arbitrary: i)
  case 0
  then show ?case
    using assms(1,3) laid_next [OF assms(1,3)] effect_at_reads(1) [of mem "start_of es j" "es ! j"]
    by (simp add: seek_effect.simps laid_def)
next
  case (Suc n)
  then have i: "i < length es" "i < j" using assms(3) by simp_all
  have "eh_sequence (load_effect_header mem (start_of es i)) \<noteq> fst (es ! j)"
    using effect_at_reads(1) [of mem "start_of es i" "es ! i"] assms(1) i Suc.prems(2) [of i] by (simp add: laid_def)
  moreover have "seek_effect mem (start_of es (length es)) (fst (es ! j)) (start_of es (Suc i)) = Some (start_of es j)"
    using Suc i by (intro Suc.hyps(1)) simp_all
  ultimately show ?case
    using laid_next [OF assms(1) i(1)] by (simp add: seek_effect.simps [of mem _ _ "start_of es i"])
qed

definition holds_record :: "nat \<Rightarrow> u64 \<Rightarrow> effect \<Rightarrow> bool" where
  "holds_record flow lsn e \<longleftrightarrow> (\<exists>r \<in> set (snd e). hr_flow_id r = flow \<and> hr_lsn r = lsn)"

lemma list_ex_matches:
  assumes "effect_at mem off e"
  shows "list_ex (record_matches flow lsn) (ForEachRecord mem off) = holds_record flow lsn e"
proof -
  have "record_matches flow lsn x = (hr_flow_id (decode_entry mem x) = flow \<and> hr_lsn (decode_entry mem x) = lsn)" for x
    by (simp add: record_matches_def decode_entry_def)
  then show ?thesis
    unfolding holds_record_def effect_at_reads(3) [OF assms, symmetric] by (simp add: list_ex_iff)
qed

lemma search_effects_laid:
  assumes "laid mem es" "i \<le> length es"
  shows "\<exists>r. search_effects mem (start_of es (length es)) flow lsn (start_of es i) = Some r \<and>
    (case r of
       None \<Rightarrow> (\<forall>k. i \<le> k \<and> k < length es \<longrightarrow> \<not> holds_record flow lsn (es ! k))
     | Some off \<Rightarrow> (\<exists>k < length es. off = start_of es k \<and> holds_record flow lsn (es ! k)))"
  using assms(2)
proof (induction "length es - i" arbitrary: i)
  case 0
  then show ?case by (auto simp: search_effects.simps)
next
  case (Suc n)
  then have i: "i < length es" by simp
  note m = list_ex_matches [of mem "start_of es i" "es ! i" flow lsn]
  show ?case
  proof (cases "holds_record flow lsn (es ! i)")
    case True
    then show ?thesis
      using m assms(1) i laid_next [OF assms(1) i] by (auto simp: search_effects.simps [of mem _ _ _ "start_of es i"] laid_def)
  next
    case False
    have "\<exists>r. search_effects mem (start_of es (length es)) flow lsn (start_of es (Suc i)) = Some r \<and>
      (case r of
         None \<Rightarrow> (\<forall>k. Suc i \<le> k \<and> k < length es \<longrightarrow> \<not> holds_record flow lsn (es ! k))
       | Some off \<Rightarrow> (\<exists>k < length es. off = start_of es k \<and> holds_record flow lsn (es ! k)))"
      using Suc i by (intro Suc.hyps(1)) simp_all
    then obtain r where r: "search_effects mem (start_of es (length es)) flow lsn (start_of es (Suc i)) = Some r"
      "case r of
         None \<Rightarrow> (\<forall>k. Suc i \<le> k \<and> k < length es \<longrightarrow> \<not> holds_record flow lsn (es ! k))
       | Some off \<Rightarrow> (\<exists>k < length es. off = start_of es k \<and> holds_record flow lsn (es ! k))" by blast
    have "search_effects mem (start_of es (length es)) flow lsn (start_of es i) = Some r"
      using m False assms(1) i laid_next [OF assms(1) i] r(1)
      by (simp add: search_effects.simps [of mem _ _ _ "start_of es i"] laid_def)
    moreover have "\<not> holds_record flow lsn (es ! k)" if "r = None" "i \<le> k" "k < length es" for k
      using r(2) that False by (cases "k = i") auto
    ultimately show ?thesis using r(2) by (intro exI [of _ r]) (auto split: option.splits)
  qed
qed

section \<open>Writing an effect\<close>

lemma store_append:
  "at + length v + length w \<le> length mem \<Longrightarrow> store (store mem at v) (at + length v) w = store mem at (v @ w)"
  by (simp add: store_def ac_simps)

lemma write_records:
  assumes "at + records_size rs \<le> length mem"
  shows "fold write_record rs (mem, at) = (store mem at (concat (map entry_bytes rs)), at + records_size rs)"
  using assms
proof (induction rs arbitrary: mem at)
  case Nil
  then show ?case by (simp add: records_size_def store_def)
next
  case (Cons r rs)
  let ?h = "le_bytes 8 (hr_lsn r) @ le_bytes 4 (word_of_nat (hr_flow_id r) :: u32) @ le_bytes 4 (word_of_nat (length (hr_canonical r)) :: u32)"
  have "write_record r (mem, at) = (store (store mem at ?h) (at + length ?h) (hr_canonical r), at + kHeaderBytes + length (hr_canonical r))"
    by (simp add: write_record_def store_record_header_def kHeaderBytes_def)
  also have "store (store mem at ?h) (at + length ?h) (hr_canonical r) = store mem at (entry_bytes r)"
    using Cons.prems by (subst store_append) (simp_all add: entry_bytes_def records_size_Cons kHeaderBytes_def)
  finally have w: "write_record r (mem, at) = (store mem at (entry_bytes r), at + length (entry_bytes r))" by (simp add: add.assoc)
  have "fold write_record rs (store mem at (entry_bytes r), at + length (entry_bytes r)) =
      (store (store mem at (entry_bytes r)) (at + length (entry_bytes r)) (concat (map entry_bytes rs)),
       at + length (entry_bytes r) + records_size rs)"
    using Cons.prems by (intro Cons.IH) (simp add: records_size_Cons)
  then show ?case
    using Cons.prems w store_append [of at "entry_bytes r" "concat (map entry_bytes rs)" mem]
    by (simp add: records_size_Cons add.assoc)
qed

lemma effect_at_other:
  assumes "effect_at mem off e" "off + effect_size (snd e) \<le> at" "at + length v \<le> length mem"
  shows "effect_at (store mem at v) off e"
proof -
  have "off + length (effect_bytes e) \<le> at"
    using assms(1,2) effect_size_bounds(1) [of "snd e"] by (simp add: effect_at_def)
  then show ?thesis using assms(1,3) load_store_other [of at v mem off "length (effect_bytes e)"] by (simp add: effect_at_def)
qed

lemma frames_of_snoc: "frames_of (es @ [e]) = frames_of es @ [(fst e, 0, effect_size (snd e))]"
  by (simp add: frames_of_def)

lemma start_snoc: "i \<le> length es \<Longrightarrow> start_of (es @ [e]) i = start_of es i"
  unfolding frames_of_snoc by (simp add: frame_start_snoc)

lemma laid_snoc:
  assumes "laid mem es" "records_ok (snd e)" "start_of es (length es) + effect_size (snd e) \<le> length mem"
  shows "laid (store mem (start_of es (length es)) (effect_bytes e)) (es @ [e])"
  unfolding laid_def
proof (intro allI impI)
  fix i assume "i < length (es @ [e])"
  have fits: "start_of es (length es) + length (effect_bytes e) \<le> length mem"
    using effect_size_bounds(1) [OF assms(2)] assms(3) by simp
  show "effect_at (store mem (start_of es (length es)) (effect_bytes e)) (start_of (es @ [e]) i) ((es @ [e]) ! i)"
  proof (cases "i < length es")
    case True
    have "start_of es i + effect_size (snd (es ! i)) \<le> start_of es (length es)"
      using start_Suc [OF True] frame_start_mono [of "Suc i" "length es" "frames_of es"] True by simp
    then show ?thesis
      using effect_at_other [OF _ _ fits] assms(1) True by (simp add: laid_def start_snoc nth_append)
  next
    case False
    then have "i = length es" using \<open>i < length (es @ [e])\<close> by simp
    then show ?thesis using assms(2) load_store_same [OF fits refl] by (simp add: effect_at_def start_snoc)
  qed
qed

end
