(* ===== verification/History_Safety.thy ===== *)
theory History_Safety
  imports History_Frames
begin

text \<open>
  What the retained history of a worker guarantees: it stays within its quota and none of its
  assertions fails, a read returns the original bytes of a retained record or reports a gap, and
  the advertised coverage is exactly what is retained.
\<close>

section \<open>Looking up a record in a block\<close>

definition entry_of :: "u64 \<Rightarrow> NativeHistoryRecord \<Rightarrow> IndexEntry" where
  "entry_of s r = \<lparr>ix_lsn = hr_lsn r, ix_effect = s, ix_flow_id = word_of_nat (hr_flow_id r)\<rparr>"

definition entries_of :: "effect list \<Rightarrow> IndexEntry list" where
  "entries_of es = concat (map (\<lambda>e. map (entry_of (fst e)) (snd e)) es)"

definition index_ok :: "HistoryBlock \<Rightarrow> effect list \<Rightarrow> bool" where
  "index_ok b es \<longleftrightarrow> (\<exists>m \<le> length es. hb_indexed_bytes b = start_of es m \<and> hb_indexed_frames b = m \<and>
     hb_index b = sort_key entry_key (entries_of (take m es)))"

definition block_ok :: "HistoryBlock \<Rightarrow> effect list \<Rightarrow> bool" where
  "block_ok b es \<longleftrightarrow> block_frames b (frames_of es) \<and> laid (lb_bytes b) es \<and> sorted_wrt (<) (map fst es) \<and> index_ok b es"

definition same_log :: "HistoryBlock \<Rightarrow> HistoryBlock \<Rightarrow> bool" where
  "same_log b b' \<longleftrightarrow> lb_bytes b' = lb_bytes b \<and> lb_capacity b' = lb_capacity b \<and> lb_committed_bytes b' = lb_committed_bytes b"

lemma committed_bytes: "block_ok b es \<Longrightarrow> lb_committed_bytes b = start_of es (length es)"
  by (simp add: block_ok_def block_frames_def)

lemma scan_block: "block_ok b es \<Longrightarrow> scan_effects (lb_bytes b) (lb_committed_bytes b) 0 = Some (map (start_of es) [0..<length es])"
  using scan_effects_laid [of "lb_bytes b" es 0] committed_bytes [of b es] by (simp add: block_ok_def frame_start_def)

lemma map_entries:
  assumes "laid mem es" "\<And>s x. f s x = g s (decode_entry mem x)"
  shows "concat (map (\<lambda>off. map (f (eh_sequence (load_effect_header mem off))) (ForEachRecord mem off)) (map (start_of es) [0..<length es])) =
    concat (map (\<lambda>e. map (g (fst e)) (snd e)) es)"
proof -
  have "map (f (eh_sequence (load_effect_header mem (start_of es i)))) (ForEachRecord mem (start_of es i)) = map (g (fst (es ! i))) (snd (es ! i))"
    if "i < length es" for i
  proof -
    have at: "effect_at mem (start_of es i) (es ! i)" using assms(1) that by (simp add: laid_def)
    have "map (f s) xs = map (g s) (map (decode_entry mem) xs)" for s xs by (simp add: assms(2))
    then show ?thesis using effect_at_reads(1,3) [OF at] by metis
  qed
  then have "map (\<lambda>i. map (f (eh_sequence (load_effect_header mem (start_of es i)))) (ForEachRecord mem (start_of es i))) [0..<length es] =
      map (\<lambda>i. map (g (fst (es ! i))) (snd (es ! i))) [0..<length es]" by simp
  also have "\<dots> = map (\<lambda>e. map (g (fst e)) (snd e)) es"
    by (rule nth_equalityI) simp_all
  finally show ?thesis by (simp add: comp_def)
qed

lemma BuildIndex_ok:
  assumes "block_ok b es"
  shows "\<exists>ok b'. BuildIndex env b = Some (ok, b') \<and> block_ok b' es \<and> same_log b b'"
proof (cases "me_reserve env (AllocatorUsableSizeForRequest env (hb_record_count b * kIndexEntryBytes))")
  case True
  let ?f = "\<lambda>s (record, _ :: nat). \<lparr>ix_lsn = hh_lsn record, ix_effect = s, ix_flow_id = hh_flow_id record\<rparr>"
  have "concat (map (\<lambda>off. map (?f (eh_sequence (load_effect_header (lb_bytes b) off))) (ForEachRecord (lb_bytes b) off))
      (map (start_of es) [0..<length es])) = entries_of es"
    using assms map_entries [of "lb_bytes b" es ?f entry_of] unfolding entries_of_def
    by (auto simp: block_ok_def entry_of_def decode_entry_def)
  then have "BuildIndex env b = Some (True, b\<lparr>hb_index := sort_key entry_key (entries_of es), hb_indexed_bytes := lb_committed_bytes b,
      hb_indexed_frames := lb_frame_count b\<rparr>)" (is "_ = Some (True, ?b)")
    using True scan_block [OF assms] by (simp add: BuildIndex_def)
  moreover have "block_ok ?b es"
    using assms committed_bytes [OF assms] by (auto simp: block_ok_def block_frames_def index_ok_def intro!: exI [of _ "length es"])
  moreover have "same_log b ?b" by (simp add: same_log_def)
  ultimately show ?thesis by blast
qed (use assms in \<open>auto simp: BuildIndex_def same_log_def\<close>)

lemma dropWhile_sorted:
  fixes key :: "'a \<Rightarrow> 'k :: linorder"
  assumes "sorted (map key xs)"
  shows "case dropWhile (\<lambda>x. key x < k) xs of
      [] \<Rightarrow> \<forall>x \<in> set xs. key x \<noteq> k
    | e # _ \<Rightarrow> e \<in> set xs \<and> (key e = k \<or> (\<forall>x \<in> set xs. key x \<noteq> k))"
  using assms by (induction xs) (auto simp del: dropWhile_eq_Nil_conv split: list.splits)

lemma lower_bound_found:
  assumes "sorted (map entry_key xs)"
  shows "(case lower_bound_entry flow lsn xs of
      Some e \<Rightarrow> e \<in> set xs \<and> (unat (ix_flow_id e) = flow \<and> ix_lsn e = lsn \<or> (\<forall>x \<in> set xs. \<not> (unat (ix_flow_id x) = flow \<and> ix_lsn x = lsn)))
    | None \<Rightarrow> \<forall>x \<in> set xs. \<not> (unat (ix_flow_id x) = flow \<and> ix_lsn x = lsn))"
proof -
  let ?key = "\<lambda>e. (unat (ix_flow_id e), ix_lsn e)"
  have "sorted (map ?key xs)"
    using assms unfolding sorted_map
    by (rule sorted_wrt_mono_rel [rotated]) (auto simp: entry_key_def word_le_nat_alt word_less_nat_alt)
  from dropWhile_sorted [OF this, of "(flow, lsn)"] show ?thesis
    unfolding lower_bound_entry_def by (cases "dropWhile (\<lambda>e. ?key e < (flow, lsn)) xs") (simp_all del: less_prod_simp dropWhile_eq_Nil_conv)
qed

lemma entries_of_iff:
  assumes "\<And>e r. e \<in> set es \<Longrightarrow> r \<in> set (snd e) \<Longrightarrow> hr_flow_id r < 1024"
  shows "(\<exists>x \<in> set (entries_of es). unat (ix_flow_id x) = flow \<and> ix_lsn x = lsn) \<longleftrightarrow> (\<exists>e \<in> set es. holds_record flow lsn e)"
    "x \<in> set (entries_of es) \<Longrightarrow> \<exists>e \<in> set es. ix_effect x = fst e \<and> holds_record (unat (ix_flow_id x)) (ix_lsn x) e"
proof -
  have u: "unat (ix_flow_id (entry_of s r)) = hr_flow_id r" if "e \<in> set es" "r \<in> set (snd e)" for s e r
    using assms [OF that] unat_small [of "hr_flow_id r"] by (simp add: entry_of_def kU32Max_def)
  then show "(\<exists>x \<in> set (entries_of es). unat (ix_flow_id x) = flow \<and> ix_lsn x = lsn) \<longleftrightarrow> (\<exists>e \<in> set es. holds_record flow lsn e)"
    unfolding entries_of_def holds_record_def by (force simp: entry_of_def)
  show "x \<in> set (entries_of es) \<Longrightarrow> \<exists>e \<in> set es. ix_effect x = fst e \<and> holds_record (unat (ix_flow_id x)) (ix_lsn x) e"
    using u unfolding entries_of_def holds_record_def by (force simp: entry_of_def)
qed

lemma block_flows:
  assumes "laid mem es" "e \<in> set es" "r \<in> set (snd e)"
  shows "hr_flow_id r < 1024"
proof -
  obtain i where "i < length es" "e = es ! i" using assms(2) by (auto simp: in_set_conv_nth)
  then show ?thesis using assms(1,3) by (auto simp: laid_def effect_at_def records_ok_def)
qed

lemma seek_found:
  assumes b: "block_ok b es" and j: "j < length es"
  shows "seek_effect (lb_bytes b) (lb_committed_bytes b) (fst (es ! j)) (FindOffset (fst (es ! j)) 0 b) = Some (start_of es j)"
proof -
  have frames: "block_frames b (frames_of es)" and laid: "laid (lb_bytes b) es" and inc: "sorted_wrt (<) (map fst es)"
    using b by (simp_all add: block_ok_def)
  have "keys_increase (frames_of es)"
    using inc by (auto simp: sorted_wrt_iff_nth_less)
  from log_block.scan_meets [OF frames this, of j] j
  obtain i where "i \<le> j" "FindOffset (fst (es ! j)) 0 b = start_of es i" "\<And>k. i \<le> k \<Longrightarrow> k < j \<Longrightarrow> fst (es ! k) \<noteq> fst (es ! j)"
    by force
  then show ?thesis using seek_effect_laid [OF laid _ j, of i] committed_bytes [OF b] by simp
qed

lemma block_Find_ok:
  assumes "block_ok b es"
  shows "\<exists>r b'. block_Find env flow lsn b = Some (r, b') \<and> block_ok b' es \<and> same_log b b' \<and>
    (case r of None \<Rightarrow> (\<forall>e \<in> set es. \<not> holds_record flow lsn e) | Some off \<Rightarrow> (\<exists>k < length es. off = start_of es k \<and> holds_record flow lsn (es ! k)))"
proof -
  obtain ok b' where b': "(if hb_indexed_bytes b = 0 \<or> lb_frame_count b - hb_indexed_frames b \<ge> 64 then BuildIndex env b else Some (False, b)) = Some (ok, b')"
    "block_ok b' es" "same_log b b'"
  proof (cases "hb_indexed_bytes b = 0 \<or> lb_frame_count b - hb_indexed_frames b \<ge> 64")
    case True
    then show ?thesis using BuildIndex_ok [OF assms, of env] that by auto
  next
    case False
    then show ?thesis using assms that [of False b] by (simp add: same_log_def)
  qed
  obtain m where m: "m \<le> length es" "hb_indexed_bytes b' = start_of es m" "hb_index b' = sort_key entry_key (entries_of (take m es))"
    using b'(2) by (auto simp: block_ok_def index_ok_def)
  have laid: "laid (lb_bytes b') es" using b'(2) by (simp add: block_ok_def)
  have flows: "hr_flow_id r < 1024" if "e \<in> set (take m es)" "r \<in> set (snd e)" for e r
    using block_flows [OF laid _ that(2)] that(1) by (meson in_set_takeD)
  have set: "set (hb_index b') = set (entries_of (take m es))" using m(3) by simp
  have bound: "case lower_bound_entry flow lsn (hb_index b') of
      Some e \<Rightarrow> e \<in> set (hb_index b') \<and> (unat (ix_flow_id e) = flow \<and> ix_lsn e = lsn \<or> (\<forall>x \<in> set (hb_index b'). \<not> (unat (ix_flow_id x) = flow \<and> ix_lsn x = lsn)))
    | None \<Rightarrow> \<forall>x \<in> set (hb_index b'). \<not> (unat (ix_flow_id x) = flow \<and> ix_lsn x = lsn)"
    using m(3) by (intro lower_bound_found) simp
  show ?thesis
  proof (cases "\<exists>e. lower_bound_entry flow lsn (hb_index b') = Some e \<and> unat (ix_flow_id e) = flow \<and> ix_lsn e = lsn")
    case True
    then obtain x where x: "lower_bound_entry flow lsn (hb_index b') = Some x" "unat (ix_flow_id x) = flow" "ix_lsn x = lsn" by blast
    then have "x \<in> set (entries_of (take m es))" using bound set by simp
    then have "\<exists>e \<in> set (take m es). ix_effect x = fst e \<and> holds_record (unat (ix_flow_id x)) (ix_lsn x) e"
      by (rule entries_of_iff(2) [rotated]) (rule flows)
    then obtain e where e: "e \<in> set (take m es)" "ix_effect x = fst e" "holds_record flow lsn e"
      using x(2,3) by auto
    then obtain j where j: "j < length es" "e = es ! j" by (metis in_set_takeD in_set_conv_nth)
    have "block_Find env flow lsn b = Some (Some (start_of es j), b')"
      using b'(1) x seek_found [OF b'(2) j(1)] e(2) j(2) by (simp add: block_Find_def)
    then show ?thesis using b'(2,3) j e(3) by auto
  next
    case False
    have "\<not> (\<exists>x \<in> set (entries_of (take m es)). unat (ix_flow_id x) = flow \<and> ix_lsn x = lsn)"
      using bound False set by (auto split: option.splits)
    moreover have "(\<exists>x \<in> set (entries_of (take m es)). unat (ix_flow_id x) = flow \<and> ix_lsn x = lsn) \<longleftrightarrow>
        (\<exists>e \<in> set (take m es). holds_record flow lsn e)"
      by (rule entries_of_iff(1)) (rule flows)
    ultimately have absent: "\<not> holds_record flow lsn (es ! k)" if "k < m" for k
      using nth_mem [of k "take m es"] that m(1) by auto
    obtain r where r: "search_effects (lb_bytes b') (lb_committed_bytes b') flow lsn (hb_indexed_bytes b') = Some r"
      "case r of None \<Rightarrow> (\<forall>k. m \<le> k \<and> k < length es \<longrightarrow> \<not> holds_record flow lsn (es ! k))
       | Some off \<Rightarrow> (\<exists>k < length es. off = start_of es k \<and> holds_record flow lsn (es ! k))"
      using search_effects_laid [OF laid m(1), of flow lsn] committed_bytes [OF b'(2)] m(2) by auto
    have "block_Find env flow lsn b = Some (r, b')"
      using b'(1) r(1) False by (auto simp: block_Find_def split: option.splits)
    moreover have "\<forall>e \<in> set es. \<not> holds_record flow lsn e" if "r = None"
    proof
      fix e assume "e \<in> set es"
      then obtain k where "k < length es" "e = es ! k" by (auto simp: in_set_conv_nth)
      then show "\<not> holds_record flow lsn e" using r(2) that absent [of k] by (cases "k < m") auto
    qed
    ultimately show ?thesis using b'(2,3) r(2) by (auto split: option.splits)
  qed
qed

section \<open>The invariant of a history\<close>

definition records_of :: "effect list \<Rightarrow> NativeHistoryRecord list" where
  "records_of es = concat (map snd es)"

text \<open>The LSNs of a flow among some records, in their order.\<close>

definition lsns :: "nat \<Rightarrow> NativeHistoryRecord list \<Rightarrow> u64 list" where
  "lsns flow rs = map hr_lsn (filter (\<lambda>r. hr_flow_id r = flow) rs)"

definition ordered_below :: "u64 list \<Rightarrow> NativeHistoryRecord list \<Rightarrow> bool" where
  "ordered_below last_lsns rs \<longleftrightarrow> (\<forall>f. sorted_wrt (<) (lsns f rs)) \<and>
     (\<forall>r \<in> set rs. hr_flow_id r < length last_lsns \<and> 0 < hr_lsn r \<and> hr_lsn r \<le> last_lsns ! hr_flow_id r \<and> hr_lsn r \<noteq> - 1)"

definition core_ok :: "ReplicationHistory \<Rightarrow> effect list list \<Rightarrow> bool" where
  "core_ok h ess \<longleftrightarrow>
     list_all2 block_ok (hi_blocks h) ess \<and> hi_secondary_bytes h = sum_list (map lb_capacity (hi_blocks h)) \<and>
     length (hi_last_lsns h) \<le> 1024 \<and> hi_next_effect h \<noteq> 0 \<and>
     sorted_wrt (<) (map fst (concat ess)) \<and> (\<forall>e \<in> set (concat ess). 0 < fst e \<and> fst e < hi_next_effect h) \<and>
     ordered_below (hi_last_lsns h) (records_of (concat ess))"

definition same_lineage :: "ReplicationHistory \<Rightarrow> ReplicationHistory \<Rightarrow> bool" where
  "same_lineage h h' \<longleftrightarrow> hi_capacity h' = hi_capacity h \<and> hi_primary_bytes h' = hi_primary_bytes h \<and> hi_history_id h' = hi_history_id h \<and>
     hi_last_lsns h' = hi_last_lsns h \<and> hi_next_effect h' = hi_next_effect h"

lemma same_lineage_refl [simp]: "same_lineage h h"
  by (simp add: same_lineage_def)

lemma same_lineage_trans: "same_lineage h h' \<Longrightarrow> same_lineage h' h'' \<Longrightarrow> same_lineage h h''"
  by (simp add: same_lineage_def)

lemma SecondaryCapacity_same: "same_lineage h h' \<Longrightarrow> SecondaryCapacity h' = SecondaryCapacity h"
  by (simp add: same_lineage_def SecondaryCapacity_def)

lemma lsns_append [simp]: "lsns f (rs @ ss) = lsns f rs @ lsns f ss"
  by (simp add: lsns_def)

lemma ordered_below_append:
  "ordered_below ls (rs @ ss) \<Longrightarrow> ordered_below ls ss"
  by (auto simp: ordered_below_def sorted_wrt_append)

lemma core_ok_drop:
  assumes "core_ok h ess" "same_lineage h h'" "hi_blocks h' = drop k (hi_blocks h)"
    "hi_secondary_bytes h' = sum_list (map lb_capacity (hi_blocks h'))"
  shows "core_ok h' (drop k ess)"
proof -
  have c: "concat ess = concat (take k ess) @ concat (drop k ess)" by (metis append_take_drop_id concat_append)
  have "sorted_wrt (<) (map fst (concat (take k ess) @ concat (drop k ess)))"
    "ordered_below (hi_last_lsns h) (records_of (concat (take k ess) @ concat (drop k ess)))"
    using assms(1) unfolding core_ok_def c [symmetric] by simp_all
  then show ?thesis
    using assms ordered_below_append [of "hi_last_lsns h" "records_of (concat (take k ess))" "records_of (concat (drop k ess))"]
    by (auto simp: core_ok_def same_lineage_def sorted_wrt_append records_of_def dest: in_set_dropD)
qed

lemma evict_above_ok:
  assumes "core_ok h ess"
  shows "\<exists>h' k. evict_above target h = Some h' \<and> same_lineage h h' \<and> core_ok h' (drop k ess) \<and> hi_blocks h' = drop k (hi_blocks h) \<and>
    hi_secondary_bytes h' \<le> target"
  using assms
proof (induction "length (hi_blocks h)" arbitrary: h ess)
  case 0
  then show ?case by (auto simp: evict_above.simps [of target h] core_ok_def intro!: exI [of _ h] exI [of _ 0])
next
  case (Suc n)
  show ?case
  proof (cases "hi_secondary_bytes h > target")
    case True
    obtain b bs where b: "hi_blocks h = b # bs" using Suc.hyps(2) by (cases "hi_blocks h") auto
    let ?h = "h\<lparr>hi_secondary_bytes := hi_secondary_bytes h - lb_capacity b, hi_blocks := bs\<rparr>"
    have "core_ok ?h (drop 1 ess)"
      using Suc.prems b by (intro core_ok_drop [OF Suc.prems, of ?h 1]) (auto simp: same_lineage_def core_ok_def)
    then obtain h' k where "evict_above target ?h = Some h'" "same_lineage ?h h'" "core_ok h' (drop k (drop 1 ess))"
      "hi_blocks h' = drop k bs" "hi_secondary_bytes h' \<le> target"
      using Suc.hyps(1) [of ?h "drop 1 ess"] Suc.hyps(2) b by auto
    then show ?thesis
      using True b by (auto simp: evict_above.simps [of target h] Evict_def same_lineage_def intro!: exI [of _ "Suc k"])
  next
    case False
    then show ?thesis using Suc.prems by (auto simp: evict_above.simps [of target h] intro!: exI [of _ 0])
  qed
qed

lemma Trim_ok:
  assumes "core_ok h ess"
  shows "\<exists>h' k. Trim h = Some h' \<and> same_lineage h h' \<and> core_ok h' (drop k ess) \<and> hi_secondary_bytes h' \<le> SecondaryCapacity h'"
  using evict_above_ok [OF assms, of "SecondaryCapacity h"] SecondaryCapacity_same unfolding Trim_def by fastforce

lemma evict_all_ok:
  assumes "core_ok h ess"
  shows "\<exists>h'. evict_all h = Some h' \<and> same_lineage h h' \<and> hi_blocks h' = [] \<and> hi_secondary_bytes h' = 0"
  using assms
proof (induction "length (hi_blocks h)" arbitrary: h ess)
  case 0
  then show ?case by (auto simp: evict_all.simps [of h] core_ok_def)
next
  case (Suc n)
  obtain b bs where b: "hi_blocks h = b # bs" using Suc.hyps(2) by (cases "hi_blocks h") auto
  let ?h = "h\<lparr>hi_secondary_bytes := hi_secondary_bytes h - lb_capacity b, hi_blocks := bs\<rparr>"
  have "core_ok ?h (drop 1 ess)"
    using Suc.prems b by (intro core_ok_drop [OF Suc.prems, of ?h 1]) (auto simp: same_lineage_def core_ok_def)
  then obtain h' where "evict_all ?h = Some h'" "same_lineage ?h h'" "hi_blocks h' = []" "hi_secondary_bytes h' = 0"
    using Suc.hyps(1) [of ?h] Suc.hyps(2) b by auto
  then show ?case using b by (auto simp: evict_all.simps [of h] Evict_def same_lineage_def)
qed

section \<open>Retention\<close>

definition env_ok :: "memory_env \<Rightarrow> bool" where
  "env_ok env \<longleftrightarrow> (\<forall>n. length (me_fresh env n) = n)"

lemma laid_Nil [simp]: "laid mem []"
  by (simp add: laid_def)

lemma Recycle_ok: "block_ok b es \<Longrightarrow> block_ok (Recycle b) []"
  by (auto simp: block_ok_def block_frames_def Recycle_def block_Reset_def frames_of_def index_ok_def entries_of_def frame_start_def
      sparse_length_def kSparseStride_def)

lemma new_block_ok:
  assumes "Allocate env n = Inr b" "env_ok env"
  shows "block_ok (new_block b) [] \<and> lb_capacity (new_block b) = n \<and> lb_committed_bytes (new_block b) = 0"
proof -
  have "n \<le> kU32Max" using assms(1) by (auto simp: Allocate_def AllocationBytes_def Let_def kU32Max_def kSizeMax_def split: if_splits)
  then show ?thesis
    using assms by (auto simp: Allocate_def Let_def env_ok_def block_ok_def block_frames_def new_block_def ReplicationLogBlock.defs HistoryBlock.defs
        frames_of_def index_ok_def entries_of_def frame_start_def sparse_length_def kSparseStride_def split: if_splits)
qed

lemma retire_ok:
  assumes "list_all2 block_ok bs ess" "secondary = sum_list (map lb_capacity bs)"
    "\<And>b. recycled = Some b \<Longrightarrow> block_ok b [] \<and> lb_capacity b = n \<and> lb_committed_bytes b = 0"
  shows "\<exists>recycled' k. retire limit n recycled secondary bs = Some (sum_list (map lb_capacity (drop k bs)), recycled', drop k bs) \<and>
    sum_list (map lb_capacity (drop k bs)) \<le> limit \<and> (\<forall>b. recycled' = Some b \<longrightarrow> block_ok b [] \<and> lb_capacity b = n \<and> lb_committed_bytes b = 0)"
  using assms
proof (induction bs arbitrary: ess secondary recycled)
  case Nil
  then show ?case by simp
next
  case (Cons b bs)
  obtain es ess' where ess: "ess = es # ess'" "block_ok b es" "list_all2 block_ok bs ess'" using Cons.prems(1) by (auto simp: list_all2_Cons1)
  show ?case
  proof (cases "secondary > limit")
    case True
    define rec where "rec = (if recycled = None \<and> lb_capacity b = n then Some (Recycle b) else recycled)"
    have rec: "block_ok c [] \<and> lb_capacity c = n \<and> lb_committed_bytes c = 0" if "rec = Some c" for c
      using that Cons.prems(3) Recycle_ok [OF ess(2)] by (auto simp: rec_def Recycle_def block_Reset_def split: if_splits)
    have "secondary - lb_capacity b = sum_list (map lb_capacity bs)" using Cons.prems(2) by simp
    from Cons.IH [OF ess(3) this rec] obtain r k where
      "retire limit n rec (secondary - lb_capacity b) bs = Some (sum_list (map lb_capacity (drop k bs)), r, drop k bs)"
      "sum_list (map lb_capacity (drop k bs)) \<le> limit" "\<forall>b. r = Some b \<longrightarrow> block_ok b [] \<and> lb_capacity b = n \<and> lb_committed_bytes b = 0"
      by blast
    then show ?thesis using True by (intro exI [of _ r] exI [of _ "Suc k"]) (simp add: rec_def)
  next
    case False
    then show ?thesis using Cons.prems by (intro exI [of _ recycled] exI [of _ 0]) simp
  qed
qed

lemma core_ok_snoc:
  assumes "core_ok h ess" "block_ok b []"
    "h' = h\<lparr>hi_secondary_bytes := sum_list (map lb_capacity (drop k (hi_blocks h))) + lb_capacity b, hi_blocks := drop k (hi_blocks h) @ [b]\<rparr>"
  shows "core_ok h' (drop k ess @ [[]])"
proof -
  let ?h = "h\<lparr>hi_secondary_bytes := sum_list (map lb_capacity (drop k (hi_blocks h))), hi_blocks := drop k (hi_blocks h)\<rparr>"
  have "core_ok ?h (drop k ess)" by (rule core_ok_drop [OF assms(1)]) (simp_all add: same_lineage_def)
  then show ?thesis using assms(2,3) by (simp add: core_ok_def list_all2_appendI)
qed

lemma make_room_ok:
  assumes h: "core_ok h ess" and env: "env_ok env" and bytes: "bytes \<le> capacity"
  shows "\<exists>fits h' k. make_room env bytes capacity h = Some (fits, h') \<and> same_lineage h h' \<and> hi_secondary_bytes h' \<le> capacity \<and>
    (if fits then core_ok h' (drop k ess @ [[]]) \<and> hi_blocks h' \<noteq> [] \<and> lb_committed_bytes (last (hi_blocks h')) + bytes \<le> lb_capacity (last (hi_blocks h'))
     else core_ok h' (drop k ess))"
proof -
  define n where "n = max bytes (min kStorageBlockBytes capacity)"
  have n: "bytes \<le> n" "n \<le> capacity" using bytes by (auto simp: n_def)
  obtain r k where ret: "retire (capacity - n) n None (hi_secondary_bytes h) (hi_blocks h) =
      Some (sum_list (map lb_capacity (drop k (hi_blocks h))), r, drop k (hi_blocks h))"
    "sum_list (map lb_capacity (drop k (hi_blocks h))) \<le> capacity - n" "\<And>b. r = Some b \<Longrightarrow> block_ok b [] \<and> lb_capacity b = n \<and> lb_committed_bytes b = 0"
    using retire_ok [of "hi_blocks h" ess "hi_secondary_bytes h" None n "capacity - n"] h by (auto simp: core_ok_def)
  have put: ?thesis if nb: "block_ok b []" "lb_capacity b = n" "lb_committed_bytes b = 0"
    and mk: "make_room env bytes capacity h = Some (True, h\<lparr>hi_secondary_bytes := sum_list (map lb_capacity (drop k (hi_blocks h))) + n, hi_blocks := drop k (hi_blocks h) @ [b]\<rparr>)" for b
  proof -
    let ?h = "h\<lparr>hi_secondary_bytes := sum_list (map lb_capacity (drop k (hi_blocks h))) + n, hi_blocks := drop k (hi_blocks h) @ [b]\<rparr>"
    have "core_ok ?h (drop k ess @ [[]])" using core_ok_snoc [OF h nb(1), of ?h k] nb(2) by simp
    then show ?thesis
      using mk nb n ret(2) by (intro exI [of _ True] exI [of _ ?h] exI [of _ k]) (auto simp: same_lineage_def)
  qed
  show ?thesis
  proof (cases r)
    case (Some b)
    then show ?thesis using put [of b] ret(1,3) by (simp add: make_room_def n_def [symmetric])
  next
    case None
    show ?thesis
    proof (cases "Allocate env n")
      case (Inr b)
      then show ?thesis using put [of "new_block b"] new_block_ok [OF Inr env] None ret(1) by (simp add: make_room_def n_def [symmetric])
    next
      case (Inl e)
      let ?h = "h\<lparr>hi_secondary_bytes := sum_list (map lb_capacity (drop k (hi_blocks h))), hi_blocks := drop k (hi_blocks h)\<rparr>"
      have "core_ok ?h (drop k ess)" by (rule core_ok_drop [OF h]) (simp_all add: same_lineage_def)
      moreover have "make_room env bytes capacity h = Some (False, ?h)" using Inl None ret(1) by (simp add: make_room_def n_def [symmetric])
      ultimately show ?thesis using ret(2) by (intro exI [of _ False] exI [of _ ?h] exI [of _ k]) (simp add: same_lineage_def)
    qed
  qed
qed

lemma check_records_Some:
  assumes "check_records last_lsns prev bytes rs = Some n" "bytes \<le> kU32Max"
  shows "n = bytes + records_size rs \<and> n \<le> kU32Max \<and>
    (\<forall>r \<in> set rs. hr_flow_id r < length last_lsns \<and> last_lsns ! hr_flow_id r < hr_lsn r \<and> hr_lsn r \<noteq> - 1 \<and> hr_canonical r \<noteq> [])"
  using assms
proof (induction rs arbitrary: prev bytes)
  case (Cons r rs)
  let ?b = "bytes + kHeaderBytes + length (hr_canonical r)"
  have c: "hr_flow_id r < length last_lsns" "last_lsns ! hr_flow_id r < hr_lsn r" "hr_lsn r \<noteq> - 1" "hr_canonical r \<noteq> []"
    "bytes \<le> kU32Max - kHeaderBytes" "length (hr_canonical r) \<le> kU32Max - bytes - kHeaderBytes"
    and rest: "check_records last_lsns (Some (hr_flow_id r)) ?b rs = Some n"
    using Cons.prems(1) by (simp_all add: not_le not_less split: if_splits)
  have "?b \<le> kU32Max" using c(5,6) by (simp add: kU32Max_def kHeaderBytes_def)
  from Cons.IH [OF rest this] show ?case using c(1-4) by (simp add: records_size_Cons)
qed (simp add: records_size_def)

lemma check_records_distinct:
  assumes "check_records last_lsns prev bytes rs = Some n" "sorted (map hr_flow_id rs)"
    "\<And>p r. prev = Some p \<Longrightarrow> r \<in> set rs \<Longrightarrow> p \<le> hr_flow_id r"
  shows "distinct (map hr_flow_id rs) \<and> (\<forall>p. prev = Some p \<longrightarrow> p \<notin> hr_flow_id ` set rs)"
  using assms
proof (induction rs arbitrary: prev bytes)
  case (Cons r rs)
  have ih: "distinct (map hr_flow_id rs) \<and> hr_flow_id r \<notin> hr_flow_id ` set rs"
    using Cons.IH [of "Some (hr_flow_id r)" "bytes + kHeaderBytes + length (hr_canonical r)"] Cons.prems by (auto split: if_splits)
  have "hr_flow_id r \<noteq> p" if "prev = Some p" for p using Cons.prems(1) that by (auto split: if_splits)
  moreover have "p < hr_flow_id s" if "prev = Some p" "s \<in> set rs" "hr_flow_id r \<noteq> p" for p s
    using Cons.prems(2) Cons.prems(3) [OF that(1), of r] that by fastforce
  ultimately show ?case using ih by fastforce
qed simp

lemma more_fields:
  assumes "ReplicationLogBlock.more b' = ReplicationLogBlock.more b"
  shows "hb_index b' = hb_index b" "hb_indexed_bytes b' = hb_indexed_bytes b" "hb_indexed_frames b' = hb_indexed_frames b"
  using assms by (cases b; cases b'; simp)+

lemma written_effect:
  assumes "off + effect_size rs \<le> length mem" "records_ok rs"
  shows "fst (fold write_record rs (store_effect_header mem off \<lparr>eh_sequence = s, eh_bytes = word_of_nat (effect_size rs), eh_records = word_of_nat (length rs)\<rparr>,
      off + kHeaderBytes)) = store mem off (effect_bytes (s, rs))"
proof -
  let ?h = "le_bytes 8 s @ le_bytes 4 (word_of_nat (effect_size rs) :: u32) @ le_bytes 4 (word_of_nat (length rs) :: u32)"
  have l: "length ?h = kHeaderBytes" by (simp add: kHeaderBytes_def)
  have fits: "off + kHeaderBytes + records_size rs \<le> length mem" using assms(1) effect_size_bounds(1) [OF assms(2)] by simp
  then have "fst (fold write_record rs (store mem off ?h, off + kHeaderBytes)) = store (store mem off ?h) (off + length ?h) (concat (map entry_bytes rs))"
    using write_records [of "off + kHeaderBytes" rs "store mem off ?h"] l by simp
  also have "\<dots> = store mem off (?h @ concat (map entry_bytes rs))"
    using fits l by (intro store_append) (simp add: add.assoc)
  finally show ?thesis by (simp add: store_effect_header_def effect_bytes_def)
qed

lemma append_block:
  assumes b: "block_ok b es" and rs: "records_ok rs" and room: "lb_committed_bytes b + effect_size rs \<le> lb_capacity b"
    and s: "s \<noteq> 0" "\<And>e. e \<in> set es \<Longrightarrow> fst e < s"
  shows "\<exists>b'. CommitAppend s 0 (effect_size rs) (b\<lparr>lb_bytes := store (lb_bytes b) (lb_committed_bytes b) (effect_bytes (s, rs)), hb_record_count := c\<rparr>) = Some b' \<and>
    block_ok b' (es @ [(s, rs)]) \<and> lb_capacity b' = lb_capacity b"
proof -
  let ?mem = "store (lb_bytes b) (lb_committed_bytes b) (effect_bytes (s, rs))"
  let ?b = "b\<lparr>lb_bytes := ?mem, hb_record_count := c\<rparr>"
  have fr: "block_frames b (frames_of es)" and at: "lb_committed_bytes b = start_of es (length es)" and laid: "laid (lb_bytes b) es"
    using b committed_bytes [OF b] by (simp_all add: block_ok_def)
  have len: "length (lb_bytes b) = lb_capacity b" using fr by (simp add: block_frames_def)
  have "length ?mem = length (lb_bytes b)" using effect_size_bounds(1) [OF rs] room len by simp
  then have fr': "block_frames ?b (frames_of es)" using fr by (simp add: block_frames_def)
  have "lb_last_lsn ?b \<le> s"
    using fr s(2) by (auto simp: block_frames_def frames_of_def last_map less_imp_le split: if_splits)
  then obtain b' where b': "CommitAppend s 0 (effect_size rs) ?b = Some b'" "block_frames b' (frames_of es @ [(s, 0, effect_size rs)])"
    "lb_bytes b' = ?mem" "lb_capacity b' = lb_capacity b" "ReplicationLogBlock.more b' = ReplicationLogBlock.more ?b"
    using CommitAppend_frames [OF fr' s(1), of "effect_size rs" 0] effect_size_bounds(3) [OF rs] room by auto
  have "laid ?mem (es @ [(s, rs)])" unfolding at using laid_snoc [OF laid, of "(s, rs)"] rs room at len by simp
  moreover have "index_ok b' (es @ [(s, rs)])"
  proof -
    obtain m where "m \<le> length es" "hb_indexed_bytes b = start_of es m" "hb_indexed_frames b = m" "hb_index b = sort_key entry_key (entries_of (take m es))"
      using b by (auto simp: block_ok_def index_ok_def)
    then show ?thesis using more_fields [OF b'(5)] by (auto simp: index_ok_def start_snoc intro!: exI [of _ m])
  qed
  moreover have "sorted_wrt (<) (map fst (es @ [(s, rs)]))" using b s(2) by (auto simp: block_ok_def sorted_wrt_append)
  ultimately have "block_ok b' (es @ [(s, rs)])" using b'(2,3) by (simp add: block_ok_def frames_of_snoc)
  then show ?thesis using b'(1,4) by blast
qed

abbreviation raised :: "NativeHistoryRecord list \<Rightarrow> u64 list \<Rightarrow> u64 list" where
  "raised rs ls \<equiv> fold (\<lambda>r ls. ls[hr_flow_id r := hr_lsn r]) rs ls"

lemma length_raised [simp]: "length (raised rs ls) = length ls"
  by (induction rs arbitrary: ls) simp_all

lemma nth_raised_other: "f \<notin> hr_flow_id ` set rs \<Longrightarrow> raised rs ls ! f = ls ! f"
  by (induction rs arbitrary: ls) auto

lemma nth_raised:
  assumes "r \<in> set rs" "distinct (map hr_flow_id rs)" "\<And>r. r \<in> set rs \<Longrightarrow> hr_flow_id r < length ls"
  shows "raised rs ls ! hr_flow_id r = hr_lsn r"
  using assms
proof (induction rs arbitrary: ls)
  case (Cons a rs)
  show ?case
  proof (cases "r \<in> set rs")
    case True
    then show ?thesis using Cons.IH [of "ls[hr_flow_id a := hr_lsn a]"] Cons.prems by simp
  next
    case False
    then show ?thesis using Cons.prems nth_raised_other [of "hr_flow_id a" rs "ls[hr_flow_id a := hr_lsn a]"] by auto
  qed
qed simp

lemma ordered_below_raised:
  assumes old: "ordered_below ls old" and d: "distinct (map hr_flow_id rs)"
    and rs: "\<And>r. r \<in> set rs \<Longrightarrow> hr_flow_id r < length ls \<and> ls ! hr_flow_id r < hr_lsn r \<and> hr_lsn r \<noteq> - 1"
  shows "ordered_below (raised rs ls) (old @ rs)"
proof -
  have one: "length (filter (\<lambda>r. hr_flow_id r = f) rs) \<le> 1" for f
    using d by (induction rs) (auto simp: image_iff filter_empty_conv)
  have sorted: "sorted_wrt (<) (lsns f (old @ rs))" for f
  proof -
    have "sorted_wrt (<) (lsns f rs)"
      using one [of f] by (cases "filter (\<lambda>r. hr_flow_id r = f) rs") (auto simp: lsns_def)
    moreover have "hr_lsn a < hr_lsn r" if "a \<in> set old" "r \<in> set rs" "hr_flow_id a = f" "hr_flow_id r = f" for a r
      using old that rs [OF that(2)] by (force simp: ordered_below_def)
    ultimately show ?thesis using old by (auto simp: ordered_below_def sorted_wrt_append lsns_def)
  qed
  have "hr_flow_id r < length ls \<and> 0 < hr_lsn r \<and> hr_lsn r \<le> raised rs ls ! hr_flow_id r \<and> hr_lsn r \<noteq> - 1" if "r \<in> set (old @ rs)" for r
  proof (cases "r \<in> set rs")
    case True
    have "0 < hr_lsn r" using rs [OF True] word_zero_le [of "ls ! hr_flow_id r"] by (blast intro: le_less_trans)
    then show ?thesis using rs [OF True] nth_raised [OF True d, of ls] rs by simp
  next
    case False
    then have o: "hr_flow_id r < length ls \<and> 0 < hr_lsn r \<and> hr_lsn r \<le> ls ! hr_flow_id r \<and> hr_lsn r \<noteq> - 1"
      using that old by (simp add: ordered_below_def)
    show ?thesis
    proof (cases "hr_flow_id r \<in> hr_flow_id ` set rs")
      case True
      then obtain a where a: "a \<in> set rs" "hr_flow_id a = hr_flow_id r" by auto
      then show ?thesis using o rs [OF a(1)] nth_raised [OF a(1) d, of ls] rs by force
    next
      case False
      then show ?thesis using o nth_raised_other [OF False] by simp
    qed
  qed
  then show ?thesis using sorted by (simp add: ordered_below_def)
qed

lemma core_ok_append:
  assumes h: "core_ok h (ess @ [es])" and rs: "records_ok rs" "distinct (map hr_flow_id rs)" "hi_next_effect h \<noteq> - 1"
    and new: "\<And>r. r \<in> set rs \<Longrightarrow> hr_flow_id r < length (hi_last_lsns h) \<and> hi_last_lsns h ! hr_flow_id r < hr_lsn r \<and> hr_lsn r \<noteq> - 1"
    and b': "block_ok b' (es @ [(hi_next_effect h, rs)])" "lb_capacity b' = lb_capacity (last (hi_blocks h))"
    and h': "h' = h\<lparr>hi_next_effect := hi_next_effect h + 1, hi_blocks := butlast (hi_blocks h) @ [b'], hi_last_lsns := raised rs (hi_last_lsns h)\<rparr>"
  shows "core_ok h' (ess @ [es @ [(hi_next_effect h, rs)]])"
proof -
  let ?s = "hi_next_effect h"
  obtain bs b where blocks: "hi_blocks h = bs @ [b]" "list_all2 block_ok bs ess"
    using h by (auto simp: core_ok_def list_all2_append2 list_all2_Cons2)
  have next_ok: "?s < ?s + 1" using word_below_succ [OF rs(3)] .
  then have "?s + 1 \<noteq> 0" by auto
  have "ordered_below (raised rs (hi_last_lsns h)) (records_of (concat (ess @ [es])) @ rs)"
    using h by (intro ordered_below_raised rs(2) new) (simp_all add: core_ok_def)
  moreover have "records_of (concat (ess @ [es @ [(?s, rs)]])) = records_of (concat (ess @ [es])) @ rs" by (simp add: records_of_def)
  moreover have "list_all2 block_ok (bs @ [b']) (ess @ [es @ [(?s, rs)]])" using blocks(2) b'(1) by (simp add: list_all2_appendI)
  moreover have "sorted_wrt (<) (map fst (concat (ess @ [es @ [(?s, rs)]])))"
    using h by (auto simp: core_ok_def sorted_wrt_append)
  moreover have "0 < fst e \<and> fst e < ?s + 1" if "e \<in> set (concat (ess @ [es @ [(?s, rs)]]))" for e
  proof -
    have "e \<in> set (concat (ess @ [es])) \<or> e = (?s, rs)" using that by auto
    then show ?thesis
    proof
      assume "e \<in> set (concat (ess @ [es]))"
      then have "0 < fst e" "fst e < ?s" using h unfolding core_ok_def by blast+
      then show ?thesis using next_ok by (blast intro: less_trans)
    next
      assume "e = (?s, rs)"
      then show ?thesis using next_ok h by (simp add: core_ok_def word_gt_0)
    qed
  qed
  ultimately show ?thesis using h b'(2) blocks(1) \<open>?s + 1 \<noteq> 0\<close> unfolding h' core_ok_def by simp
qed

lemma append_effect_ok:
  assumes h: "core_ok h (ess @ [es])" and rs: "records_ok rs" "distinct (map hr_flow_id rs)" "hi_next_effect h \<noteq> - 1"
    and new: "\<And>r. r \<in> set rs \<Longrightarrow> hr_flow_id r < length (hi_last_lsns h) \<and> hi_last_lsns h ! hr_flow_id r < hr_lsn r \<and> hr_lsn r \<noteq> - 1"
    and room: "lb_committed_bytes (last (hi_blocks h)) + effect_size rs \<le> lb_capacity (last (hi_blocks h))"
  shows "\<exists>h'. append_effect rs (effect_size rs) h = Some (True, h') \<and> core_ok h' (ess @ [es @ [(hi_next_effect h, rs)]]) \<and>
    hi_capacity h' = hi_capacity h \<and> hi_primary_bytes h' = hi_primary_bytes h \<and> hi_secondary_bytes h' = hi_secondary_bytes h \<and>
    hi_history_id h' = hi_history_id h \<and> hi_last_lsns h' = raised rs (hi_last_lsns h)"
proof -
  let ?s = "hi_next_effect h"
  define b where "b = last (hi_blocks h)"
  have b: "block_ok b es" using h by (auto simp: b_def core_ok_def list_all2_append2 list_all2_Cons2)
  have s: "?s \<noteq> 0" "\<And>e. e \<in> set es \<Longrightarrow> fst e < ?s" using h by (auto simp: core_ok_def)
  have len: "length (lb_bytes b) = lb_capacity b" "\<not> lb_sealed b" using b by (simp_all add: block_ok_def block_frames_def)
  have buf: "AppendBuffer (effect_size rs) b = Some (lb_committed_bytes b)"
    using room effect_size_bounds(3) [OF rs(1)] len by (simp add: AppendBuffer_def b_def)
  obtain b' where b': "CommitAppend ?s 0 (effect_size rs) (b\<lparr>lb_bytes := store (lb_bytes b) (lb_committed_bytes b) (effect_bytes (?s, rs)),
      hb_record_count := hb_record_count b + length rs\<rparr>) = Some b'" "block_ok b' (es @ [(?s, rs)])" "lb_capacity b' = lb_capacity b"
    using append_block [OF b rs(1) _ s] room by (auto simp: b_def)
  let ?h = "h\<lparr>hi_next_effect := ?s + 1, hi_blocks := butlast (hi_blocks h) @ [b'], hi_last_lsns := raised rs (hi_last_lsns h)\<rparr>"
  have "append_effect rs (effect_size rs) h = Some (True, ?h)"
    using buf b'(1) written_effect [of "lb_committed_bytes b" rs "lb_bytes b" ?s] room rs(1) len
    by (simp add: append_effect_def Let_def b_def)
  moreover have "core_ok ?h (ess @ [es @ [(?s, rs)]])"
    using core_ok_append [OF h rs new b'(2), of ?h] b'(3) by (simp add: b_def)
  ultimately show ?thesis by simp
qed

text \<open>The block the effect goes to: the last one when it has room, and otherwise a new one.\<close>

definition needs_block :: "nat \<Rightarrow> ReplicationHistory \<Rightarrow> bool" where
  "needs_block bytes h \<longleftrightarrow> hi_blocks h = [] \<or> bytes > lb_capacity (last (hi_blocks h)) - lb_committed_bytes (last (hi_blocks h))"

lemma block_for_effect:
  assumes h: "core_ok h ess" and env: "env_ok env" and bytes: "bytes \<le> SecondaryCapacity h" and quota: "hi_secondary_bytes h \<le> SecondaryCapacity h"
  shows "\<exists>fits h' k. (if needs_block bytes h then make_room env bytes (SecondaryCapacity h) h else Some (True, h)) = Some (fits, h') \<and>
    same_lineage h h' \<and> hi_secondary_bytes h' \<le> SecondaryCapacity h \<and>
    (if fits then (\<exists>es0 es. core_ok h' (es0 @ [es]) \<and> records_of (concat (es0 @ [es])) = records_of (concat (drop k ess))) \<and>
       lb_committed_bytes (last (hi_blocks h')) + bytes \<le> lb_capacity (last (hi_blocks h'))
     else core_ok h' (drop k ess))"
proof (cases "needs_block bytes h")
  case True
  obtain fits h' k where m: "make_room env bytes (SecondaryCapacity h) h = Some (fits, h')" "same_lineage h h'"
    "hi_secondary_bytes h' \<le> SecondaryCapacity h"
    "if fits then core_ok h' (drop k ess @ [[]]) \<and> hi_blocks h' \<noteq> [] \<and> lb_committed_bytes (last (hi_blocks h')) + bytes \<le> lb_capacity (last (hi_blocks h'))
     else core_ok h' (drop k ess)"
    using make_room_ok [OF h env bytes] by blast
  have "\<exists>es0 es. core_ok h' (es0 @ [es]) \<and> records_of (concat (es0 @ [es])) = records_of (concat (drop k ess))" if fits
    using m(4) that by (intro exI [of _ "drop k ess"] exI [of _ "[]"]) simp
  then show ?thesis using True m by (intro exI [of _ fits] exI [of _ h'] exI [of _ k]) auto
next
  case False
  then have "hi_blocks h \<noteq> []" "ess \<noteq> []" using h by (auto simp: needs_block_def core_ok_def)
  then obtain es0 es where e: "ess = es0 @ [es]" by (cases ess rule: rev_cases) auto
  have "block_ok (last (hi_blocks h)) es" using h e by (auto simp: core_ok_def list_all2_append2 list_all2_Cons2)
  then have "lb_committed_bytes (last (hi_blocks h)) \<le> lb_capacity (last (hi_blocks h))" by (simp add: block_ok_def block_frames_def)
  then have "lb_committed_bytes (last (hi_blocks h)) + bytes \<le> lb_capacity (last (hi_blocks h))" using False by (auto simp: needs_block_def not_less)
  moreover have "\<exists>es0 es. core_ok h (es0 @ [es]) \<and> records_of (concat (es0 @ [es])) = records_of (concat (drop 0 ess))"
    using h e by (intro exI [of _ es0] exI [of _ es]) simp
  ultimately show ?thesis using False quota by (intro exI [of _ True] exI [of _ h] exI [of _ 0]) simp
qed

definition admitted :: "ReplicationHistory \<Rightarrow> NativeHistoryRecord list \<Rightarrow> bool" where
  "admitted h rs \<longleftrightarrow> records_ok rs \<and> distinct (map hr_flow_id rs) \<and>
     (\<forall>r \<in> set rs. hr_flow_id r < length (hi_last_lsns h) \<and> hi_last_lsns h ! hr_flow_id r < hr_lsn r \<and> hr_lsn r \<noteq> - 1)"

lemma RetainSorted_cases:
  assumes h: "core_ok h ess" and sorted: "sorted (map hr_flow_id rs)"
  shows "RetainSorted env hid rs h = Some (False, h) \<or>
    hid = hi_history_id h \<and> hi_next_effect h \<noteq> - 1 \<and> admitted h rs \<and> effect_size rs \<le> SecondaryCapacity h \<and>
    RetainSorted env hid rs h =
      (case (if needs_block (effect_size rs) h then make_room env (effect_size rs) (SecondaryCapacity h) h else Some (True, h)) of
         None \<Rightarrow> None | Some (fits, h') \<Rightarrow> if fits then append_effect rs (effect_size rs) h' else Some (False, h'))"
proof (cases "check_records (hi_last_lsns h) None kHeaderBytes rs")
  case None
  then show ?thesis by (simp add: RetainSorted_def)
next
  case (Some n)
  have c: "n = kHeaderBytes + records_size rs"
    "\<And>r. r \<in> set rs \<Longrightarrow> hr_flow_id r < length (hi_last_lsns h) \<and> hi_last_lsns h ! hr_flow_id r < hr_lsn r \<and> hr_lsn r \<noteq> - 1 \<and> hr_canonical r \<noteq> []"
    using check_records_Some [OF Some] by (simp_all add: kHeaderBytes_def kU32Max_def)
  have "admitted h rs" if "rs \<noteq> []" "n \<le> kU32Max - 7"
    unfolding admitted_def
  proof (intro conjI)
    show "records_ok rs" using that c h by (fastforce simp: records_ok_def core_ok_def)
    show "distinct (map hr_flow_id rs)" using check_records_distinct [OF Some sorted] by simp
    show "\<forall>r \<in> set rs. hr_flow_id r < length (hi_last_lsns h) \<and> hi_last_lsns h ! hr_flow_id r < hr_lsn r \<and> hr_lsn r \<noteq> - 1" using c(2) by blast
  qed
  moreover have n: "unat (AlignRecord (word_of_nat n)) = effect_size rs" by (simp add: c(1) effect_size_def)
  ultimately show ?thesis unfolding RetainSorted_def needs_block_def Some option.case Let_def n by (auto simp: not_less)
qed

text \<open>
  A retention keeps the effects of the blocks that stay and adds the new one at the end, or adds
  nothing; it never fails an assertion.
\<close>

definition retained_as :: "bool \<Rightarrow> NativeHistoryRecord list \<Rightarrow> ReplicationHistory \<Rightarrow> effect list list \<Rightarrow> ReplicationHistory \<Rightarrow> effect list list \<Rightarrow> bool" where
  "retained_as ok rs h ess h' ess' \<longleftrightarrow> core_ok h' ess' \<and> hi_secondary_bytes h' \<le> SecondaryCapacity h' \<and>
     hi_capacity h' = hi_capacity h \<and> hi_primary_bytes h' = hi_primary_bytes h \<and> hi_history_id h' = hi_history_id h \<and>
     (\<exists>k. records_of (concat ess') = records_of (concat (drop k ess)) @ (if ok then rs else [])) \<and>
     hi_last_lsns h' = (if ok then raised rs (hi_last_lsns h) else hi_last_lsns h)"

lemma RetainSorted_ok:
  assumes h: "core_ok h ess" and env: "env_ok env" and sorted: "sorted (map hr_flow_id rs)"
    and quota: "hi_secondary_bytes h \<le> SecondaryCapacity h"
  shows "\<exists>ok h' ess'. RetainSorted env hid rs h = Some (ok, h') \<and> retained_as ok rs h ess h' ess' \<and>
    (ok \<longrightarrow> hid = hi_history_id h \<and> admitted h rs)"
  using RetainSorted_cases [OF h sorted, of env hid]
proof
  assume "RetainSorted env hid rs h = Some (False, h)"
  then show ?thesis using h quota by (auto simp: retained_as_def intro!: exI [of _ False] exI [of _ h] exI [of _ ess] exI [of _ 0])
next
  assume r: "hid = hi_history_id h \<and> hi_next_effect h \<noteq> - 1 \<and> admitted h rs \<and> effect_size rs \<le> SecondaryCapacity h \<and>
    RetainSorted env hid rs h =
      (case (if needs_block (effect_size rs) h then make_room env (effect_size rs) (SecondaryCapacity h) h else Some (True, h)) of
         None \<Rightarrow> None | Some (fits, h') \<Rightarrow> if fits then append_effect rs (effect_size rs) h' else Some (False, h'))"
  then obtain fits h1 k where m: "(if needs_block (effect_size rs) h then make_room env (effect_size rs) (SecondaryCapacity h) h else Some (True, h)) = Some (fits, h1)"
    "same_lineage h h1" "hi_secondary_bytes h1 \<le> SecondaryCapacity h"
    "if fits then (\<exists>es0 es. core_ok h1 (es0 @ [es]) \<and> records_of (concat (es0 @ [es])) = records_of (concat (drop k ess))) \<and>
       lb_committed_bytes (last (hi_blocks h1)) + effect_size rs \<le> lb_capacity (last (hi_blocks h1))
     else core_ok h1 (drop k ess)"
    using block_for_effect [OF h env _ quota, of "effect_size rs"] by blast
  note l = m(2) [unfolded same_lineage_def] SecondaryCapacity_same [OF m(2)]
  show ?thesis
  proof (cases fits)
    case True
    then obtain es0 es where e: "core_ok h1 (es0 @ [es])" "records_of (concat (es0 @ [es])) = records_of (concat (drop k ess))"
      and room: "lb_committed_bytes (last (hi_blocks h1)) + effect_size rs \<le> lb_capacity (last (hi_blocks h1))" using m(4) by auto
    have "admitted h1 rs" "hi_next_effect h1 \<noteq> - 1" using r l by (simp_all add: admitted_def)
    then obtain h' where h': "append_effect rs (effect_size rs) h1 = Some (True, h')" "core_ok h' (es0 @ [es @ [(hi_next_effect h1, rs)]])"
      "hi_capacity h' = hi_capacity h1" "hi_primary_bytes h' = hi_primary_bytes h1" "hi_secondary_bytes h' = hi_secondary_bytes h1"
      "hi_history_id h' = hi_history_id h1" "hi_last_lsns h' = raised rs (hi_last_lsns h1)"
      using append_effect_ok [OF e(1) _ _ _ _ room] unfolding admitted_def by blast
    have "records_of (concat (es0 @ [es @ [(hi_next_effect h1, rs)]])) = records_of (concat (drop k ess)) @ rs"
      using e(2) by (simp add: records_of_def)
    then have "retained_as True rs h ess h' (es0 @ [es @ [(hi_next_effect h1, rs)]])"
      using h' l m(3) by (auto simp: retained_as_def SecondaryCapacity_def)
    then show ?thesis using r m(1) True h'(1) by auto
  next
    case False
    then have "retained_as False rs h ess h1 (drop k ess)" using m l by (auto simp: retained_as_def)
    then show ?thesis using r m(1) False by auto
  qed
qed

end
