(* ===== verification/History_Export.thy ===== *)
theory History_Export
  imports History_Safety
begin

text \<open>
  Reading a retained history: every read is answered with the original bytes or a gap, and the
  advertised ranges are exactly what can be read. The history is taken through every sequence of
  calls that its owner may make.
\<close>

section \<open>Finding and reading records\<close>

lemma find_block_ok:
  assumes "list_all2 block_ok bs ess"
  shows "\<exists>r bs'. find_block env flow lsn bs = Some (r, bs') \<and> list_all2 block_ok bs' ess \<and> map lb_capacity bs' = map lb_capacity bs \<and>
    (case r of None \<Rightarrow> (\<forall>e \<in> set (concat ess). \<not> holds_record flow lsn e)
     | Some (mem, off) \<Rightarrow> (\<exists>e \<in> set (concat ess). effect_at mem off e \<and> holds_record flow lsn e))"
  using assms
proof (induction rule: list_all2_induct)
  case Nil
  then show ?case by simp
next
  case (Cons b bs es ess)
  obtain r b' where r: "block_Find env flow lsn b = Some (r, b')" "block_ok b' es" "same_log b b'"
    "case r of None \<Rightarrow> (\<forall>e \<in> set es. \<not> holds_record flow lsn e)
     | Some off \<Rightarrow> (\<exists>k < length es. off = start_of es k \<and> holds_record flow lsn (es ! k))"
    using block_Find_ok [OF Cons.hyps(1)] by blast
  show ?case
  proof (cases r)
    case None
    then show ?thesis using r Cons by (fastforce simp: same_log_def split: option.splits)
  next
    case (Some off)
    then obtain k where "k < length es" "off = start_of es k" "holds_record flow lsn (es ! k)" using r(4) by auto
    then have "\<exists>e \<in> set es. effect_at (lb_bytes b') off e \<and> holds_record flow lsn e"
      using r(2) by (auto simp: block_ok_def laid_def)
    then show ?thesis using r Some Cons.hyps by (auto simp: same_log_def)
  qed
qed

lemma unique_record:
  assumes "ordered_below ls rs" "r \<in> set rs" "r' \<in> set rs" "hr_flow_id r = hr_flow_id r'" "hr_lsn r = hr_lsn r'"
  shows "r = r'"
proof -
  have "distinct (map hr_lsn (filter (\<lambda>a. hr_flow_id a = hr_flow_id r) rs))"
    using assms(1) strict_sorted_iff by (auto simp: ordered_below_def lsns_def)
  then have "inj_on hr_lsn (set (filter (\<lambda>a. hr_flow_id a = hr_flow_id r) rs))" by (simp add: distinct_map)
  then show ?thesis using assms(2-5) by (auto dest: inj_onD)
qed

definition matches_record :: "nat \<Rightarrow> u64 \<Rightarrow> NativeHistoryRecord \<Rightarrow> bool" where
  "matches_record flow lsn r \<longleftrightarrow> hr_flow_id r = flow \<and> hr_lsn r = lsn"

definition payload_of :: "nat \<Rightarrow> u64 \<Rightarrow> NativeHistoryRecord list \<Rightarrow> bytes" where
  "payload_of flow lsn rs = fold (\<lambda>r p. if matches_record flow lsn r then hr_canonical r else p) rs []"

lemma fold_payload:
  assumes "\<forall>r \<in> set rs. matches_record flow lsn r \<longrightarrow> hr_canonical r = c"
  shows "fold (\<lambda>r p. if matches_record flow lsn r then hr_canonical r else p) rs p = (if \<exists>r \<in> set rs. matches_record flow lsn r then c else p)"
  using assms by (induction rs arbitrary: p) simp_all

lemma payload_of_unique:
  assumes "r \<in> set rs" "matches_record flow lsn r" "\<And>r'. r' \<in> set rs \<Longrightarrow> matches_record flow lsn r' \<Longrightarrow> r' = r"
  shows "payload_of flow lsn rs = hr_canonical r"
proof -
  have "\<forall>r' \<in> set rs. matches_record flow lsn r' \<longrightarrow> hr_canonical r' = hr_canonical r" using assms(3) by blast
  from fold_payload [OF this, of "[]"] show ?thesis using assms(1,2) by (auto simp: payload_of_def)
qed

lemma read_payload:
  "fold (\<lambda>(r, at) p. if record_matches flow lsn (r, at) then load mem at (unat (hh_bytes r)) else p) xs p =
   fold (\<lambda>r p. if matches_record flow lsn r then hr_canonical r else p) (map (decode_entry mem) xs) p"
  by (induction xs arbitrary: p) (auto simp: record_matches_def matches_record_def decode_entry_def)

text \<open>The answer of a read: a slice of the record's bytes, or a gap.\<close>

definition read_answer :: "NativeHistoryRecord list \<Rightarrow> nat \<Rightarrow> u64 \<Rightarrow> nat \<Rightarrow> nat \<Rightarrow> NativeHistoryChunk status_or \<Rightarrow> bool" where
  "read_answer rs flow lsn offset n x \<longleftrightarrow>
     (case find (matches_record flow lsn) rs of
        None \<Rightarrow> x = Inl NotFound
      | Some r \<Rightarrow> x = (if offset \<ge> length (hr_canonical r) then Inl OutOfRange
          else Inr \<lparr>ck_total_bytes = length (hr_canonical r), ck_bytes = take n (drop offset (hr_canonical r))\<rparr>))"

lemma core_ok_blocks:
  assumes "core_ok h ess" "list_all2 block_ok bs ess" "map lb_capacity bs = map lb_capacity (hi_blocks h)"
  shows "core_ok (h\<lparr>hi_blocks := bs\<rparr>) ess"
  using assms by (simp add: core_ok_def)

lemma holds_record_of: "(\<exists>e \<in> set es. holds_record flow lsn e) \<longleftrightarrow> (\<exists>r \<in> set (records_of es). matches_record flow lsn r)"
  by (auto simp: holds_record_def records_of_def matches_record_def)

lemma history_Read_ok:
  assumes h: "core_ok h ess"
  shows "\<exists>x h'. history_Read env hid flow lsn offset n h = Some (x, h') \<and> core_ok h' ess \<and> same_lineage h h' \<and> hi_secondary_bytes h' = hi_secondary_bytes h \<and>
    (0 < n \<and> n \<le> 64 * 1024 \<and> hid = hi_history_id h \<and> flow < length (hi_last_lsns h) \<longrightarrow> read_answer (records_of (concat ess)) flow lsn offset n x)"
proof (cases "0 < n \<and> n \<le> 64 * 1024 \<and> hid = hi_history_id h \<and> flow < length (hi_last_lsns h)")
  case False
  then show ?thesis using h by (auto simp: history_Read_def)
next
  case True
  let ?rs = "records_of (concat ess)"
  obtain r bs where f: "find_block env flow lsn (hi_blocks h) = Some (r, bs)" "list_all2 block_ok bs ess"
    "map lb_capacity bs = map lb_capacity (hi_blocks h)"
    "case r of None \<Rightarrow> (\<forall>e \<in> set (concat ess). \<not> holds_record flow lsn e)
     | Some (mem, off) \<Rightarrow> (\<exists>e \<in> set (concat ess). effect_at mem off e \<and> holds_record flow lsn e)"
    using find_block_ok [of "hi_blocks h" ess env flow lsn] h by (auto simp: core_ok_def)
  let ?h = "h\<lparr>hi_blocks := bs\<rparr>"
  have h': "core_ok ?h ess" "same_lineage h ?h" using core_ok_blocks [OF h f(2,3)] by (simp_all add: same_lineage_def)
  show ?thesis
  proof (cases r)
    case None
    then have "find (matches_record flow lsn) ?rs = None" using f(4) holds_record_of [of "concat ess" flow lsn] by (auto simp: find_None_iff)
    then show ?thesis using True f(1) None h' by (auto simp: history_Read_def read_answer_def)
  next
    case (Some p)
    then obtain mem off e where e: "r = Some (mem, off)" "e \<in> set (concat ess)" "effect_at mem off e" "holds_record flow lsn e"
      using f(4) by (cases p) auto
    have sub: "set (snd e) \<subseteq> set ?rs" using e(2) by (auto simp: records_of_def)
    obtain a where a: "a \<in> set (snd e)" "matches_record flow lsn a" using e(4) by (auto simp: holds_record_def matches_record_def)
    have u: "a' = a" if "a' \<in> set ?rs" "matches_record flow lsn a'" for a'
      using unique_record [of "hi_last_lsns h" ?rs a' a] h that a sub by (auto simp: core_ok_def matches_record_def)
    have "find (matches_record flow lsn) ?rs = Some a"
    proof (cases "find (matches_record flow lsn) ?rs")
      case None
      then show ?thesis using a sub by (auto simp: find_None_iff)
    next
      case (Some a')
      then show ?thesis using u [of a'] by (auto simp: find_Some_iff)
    qed
    moreover have "payload_of flow lsn (snd e) = hr_canonical a" using a u sub by (intro payload_of_unique) auto
    ultimately show ?thesis
      using True f(1) e(1) h' read_payload [of flow lsn mem "ForEachRecord mem off" "[]"] effect_at_reads(3) [OF e(3)]
      by (auto simp: history_Read_def read_answer_def Let_def payload_of_def)
  qed
qed

lemma DescribeEffect_ok:
  assumes h: "core_ok h ess"
  shows "\<exists>x h'. DescribeEffect env hid flow lsn h = Some (x, h') \<and> core_ok h' ess \<and> same_lineage h h' \<and> hi_secondary_bytes h' = hi_secondary_bytes h"
proof -
  obtain r bs where f: "find_block env flow lsn (hi_blocks h) = Some (r, bs)" "list_all2 block_ok bs ess"
    "map lb_capacity bs = map lb_capacity (hi_blocks h)"
    using find_block_ok [of "hi_blocks h" ess env flow lsn] h by (auto simp: core_ok_def)
  then show ?thesis
    using h core_ok_blocks [OF h f(2,3)] by (cases r) (auto simp: DescribeEffect_def same_lineage_def)
qed

section \<open>Advertised ranges\<close>

definition in_ranges :: "u64 \<Rightarrow> NativeHistoryRange list \<Rightarrow> bool" where
  "in_ranges l rs \<longleftrightarrow> (\<exists>r \<in> set rs. ra_first_lsn r \<le> l \<and> l < ra_end_lsn r)"

text \<open>Non-empty ranges in increasing order with a gap between any two.\<close>

definition ranges_ok :: "NativeHistoryRange list \<Rightarrow> bool" where
  "ranges_ok rs \<longleftrightarrow> sorted_wrt (\<lambda>a b. ra_end_lsn a < ra_first_lsn b) rs \<and> (\<forall>r \<in> set rs. ra_first_lsn r < ra_end_lsn r)"

lemma in_ranges_append: "in_ranges l (rs @ ss) \<longleftrightarrow> in_ranges l rs \<or> in_ranges l ss"
  by (auto simp: in_ranges_def)

lemma extend_ranges_ok:
  assumes rs: "ranges_ok rs" "rs \<noteq> [] \<longrightarrow> ra_end_lsn (last rs) \<le> l" and l: "l \<noteq> - 1"
  shows "ranges_ok (extend_ranges l rs)" "extend_ranges l rs \<noteq> []" "ra_end_lsn (last (extend_ranges l rs)) = l + 1"
    "in_ranges x (extend_ranges l rs) \<longleftrightarrow> in_ranges x rs \<or> x = l"
proof -
  have up: "l < l + 1" "y < l + 1 \<longleftrightarrow> y \<le> l" for y using word_below_succ [OF l] word_less_succ_iff [OF l] by blast+
  show "extend_ranges l rs \<noteq> []" "ra_end_lsn (last (extend_ranges l rs)) = l + 1" by (simp_all add: extend_ranges_def)
  show "ranges_ok (extend_ranges l rs)" "in_ranges x (extend_ranges l rs) \<longleftrightarrow> in_ranges x rs \<or> x = l"
  proof (atomize (full), cases "rs \<noteq> [] \<and> ra_end_lsn (last rs) = l")
    case True
    then obtain ss a where s: "rs = ss @ [a]" "ra_end_lsn a = l" by (cases rs rule: rev_cases) auto
    have a: "ra_first_lsn a < l" using rs(1) s by (simp add: ranges_ok_def)
    then have "ranges_ok (ss @ [a\<lparr>ra_end_lsn := l + 1\<rparr>])"
      using rs(1) s up(1) by (auto simp: ranges_ok_def sorted_wrt_append intro: less_trans)
    moreover have "in_ranges x [a\<lparr>ra_end_lsn := l + 1\<rparr>] \<longleftrightarrow> in_ranges x [a] \<or> x = l"
      using a s(2) up(2) [of x] by (auto simp: in_ranges_def)
    ultimately show "ranges_ok (extend_ranges l rs) \<and> in_ranges x (extend_ranges l rs) = (in_ranges x rs \<or> x = l)"
      using s True by (auto simp: extend_ranges_def in_ranges_append)
  next
    case False
    have "ra_end_lsn a < l" if "a \<in> set rs" for a
    proof (cases rs rule: rev_cases)
      case (snoc ss b)
      have "ra_end_lsn b < l" using False rs(2) snoc by auto
      moreover have "ra_end_lsn a \<le> ra_end_lsn b" using that rs(1) snoc by (auto simp: ranges_ok_def sorted_wrt_append intro: less_imp_le less_trans)
      ultimately show ?thesis by simp
    qed (use that in simp)
    then have "ranges_ok (rs @ [\<lparr>ra_first_lsn = l, ra_end_lsn = l + 1\<rparr>])"
      using rs(1) up(1) by (auto simp: ranges_ok_def sorted_wrt_append)
    moreover have "in_ranges x [\<lparr>ra_first_lsn = l, ra_end_lsn = l + 1\<rparr>] \<longleftrightarrow> x = l" using up(2) [of x] by (auto simp: in_ranges_def)
    ultimately show "ranges_ok (extend_ranges l rs) \<and> in_ranges x (extend_ranges l rs) = (in_ranges x rs \<or> x = l)"
      using False by (auto simp: extend_ranges_def in_ranges_append)
  qed
qed

lemma fold_extend_ranges:
  assumes "sorted_wrt (<) ls" "\<forall>l \<in> set ls. l \<noteq> - 1"
  shows "ranges_ok (fold extend_ranges ls []) \<and> (ls \<noteq> [] \<longrightarrow> fold extend_ranges ls [] \<noteq> [] \<and> ra_end_lsn (last (fold extend_ranges ls [])) = last ls + 1) \<and>
    (\<forall>x. in_ranges x (fold extend_ranges ls []) \<longleftrightarrow> x \<in> set ls)"
  using assms
proof (induction ls rule: rev_induct)
  case Nil
  then show ?case by (simp add: ranges_ok_def in_ranges_def)
next
  case (snoc l ls)
  let ?rs = "fold extend_ranges ls []"
  have ih: "ranges_ok ?rs" "ls \<noteq> [] \<Longrightarrow> ra_end_lsn (last ?rs) = last ls + 1" "\<And>x. in_ranges x ?rs \<longleftrightarrow> x \<in> set ls"
    using snoc by (auto simp: sorted_wrt_append)
  have "ra_end_lsn (last ?rs) \<le> l" if "?rs \<noteq> []"
  proof -
    have "ls \<noteq> []" using that by auto
    then have "last ls < l" using snoc.prems(1) by (simp add: sorted_wrt_append)
    then show ?thesis using ih(2) [OF \<open>ls \<noteq> []\<close>] by (simp add: inc_le)
  qed
  then have below: "?rs \<noteq> [] \<longrightarrow> ra_end_lsn (last ?rs) \<le> l" by blast
  have "l \<noteq> - 1" using snoc.prems(2) by simp
  note extend_ranges_ok [OF ih(1) below this]
  then show ?case using ih(3) by auto
qed

lemma ranges_suffix:
  assumes "ranges_ok rs" "in_ranges x rs"
  shows "in_ranges x (drop k rs) \<or> (\<forall>y. in_ranges y (drop k rs) \<longrightarrow> x < y)"
proof -
  have rs: "rs = take k rs @ drop k rs" by simp
  have s: "sorted_wrt (\<lambda>a b. ra_end_lsn a < ra_first_lsn b) (take k rs @ drop k rs)" using assms(1) by (simp add: ranges_ok_def)
  have "x < y" if xy: "in_ranges x (take k rs)" "in_ranges y (drop k rs)" for y
  proof -
    obtain a b where "a \<in> set (take k rs)" "x < ra_end_lsn a" "b \<in> set (drop k rs)" "ra_first_lsn b \<le> y"
      using xy unfolding in_ranges_def by blast
    then show ?thesis using s unfolding sorted_wrt_append by (meson less_le_trans less_trans)
  qed
  moreover have "in_ranges x (take k rs) \<or> in_ranges x (drop k rs)" using assms(2) rs in_ranges_append by metis
  ultimately show ?thesis by blast
qed

lemma ranges_ok_drop: "ranges_ok rs \<Longrightarrow> ranges_ok (drop k rs)"
  unfolding ranges_ok_def by (metis append_take_drop_id in_set_dropD sorted_wrt_append)

lemma cover_records_ok:
  assumes "\<forall>r \<in> set (map (decode_entry mem) xs). hr_flow_id r < length result"
  shows "\<exists>result'. cover_records xs result = Some result' \<and> length result' = length result \<and>
    (\<forall>f < length result. result' ! f = fold extend_ranges (lsns f (map (decode_entry mem) xs)) (result ! f))"
  using assms
proof (induction xs arbitrary: result)
  case (Cons x xs)
  obtain h at where x: "x = (h, at)" by (cases x)
  let ?flow = "unat (hh_flow_id h)"
  let ?result = "result[?flow := extend_ranges (hh_lsn h) (result ! ?flow)]"
  have flow: "?flow < length result" using Cons.prems x by (simp add: decode_entry_def)
  obtain result' where r: "cover_records xs ?result = Some result'" "length result' = length result"
    "\<forall>f < length result. result' ! f = fold extend_ranges (lsns f (map (decode_entry mem) xs)) (?result ! f)"
    using Cons.IH [of ?result] Cons.prems by auto
  have "result' ! f = fold extend_ranges (lsns f (map (decode_entry mem) (x # xs))) (result ! f)" if "f < length result" for f
    using r(3) that flow x by (cases "f = ?flow") (simp_all add: lsns_def decode_entry_def)
  then show ?case using r(1,2) x flow by (simp add: Let_def)
qed (simp add: lsns_def)

lemma decode_block:
  assumes "block_ok b es"
  shows "map (decode_entry (lb_bytes b)) (concat (map (ForEachRecord (lb_bytes b)) (map (start_of es) [0..<length es]))) = records_of es"
proof -
  have "map (decode_entry (lb_bytes b)) (ForEachRecord (lb_bytes b) (start_of es i)) = snd (es ! i)" if "i < length es" for i
    using assms that by (intro effect_at_reads(3)) (simp add: block_ok_def laid_def)
  then have "map (\<lambda>i. map (decode_entry (lb_bytes b)) (ForEachRecord (lb_bytes b) (start_of es i))) [0..<length es] = map snd es"
    by (intro nth_equalityI) simp_all
  then show ?thesis by (simp add: records_of_def map_concat comp_def)
qed

lemma cover_blocks_ok:
  assumes "list_all2 block_ok bs ess" "\<forall>r \<in> set (records_of (concat ess)). hr_flow_id r < length result"
  shows "\<exists>result'. cover_blocks bs result = Some result' \<and> length result' = length result \<and>
    (\<forall>f < length result. result' ! f = fold extend_ranges (lsns f (records_of (concat ess))) (result ! f))"
  using assms
proof (induction arbitrary: result rule: list_all2_induct)
  case Nil
  then show ?case by (simp add: records_of_def lsns_def)
next
  case (Cons b bs es ess)
  have split: "records_of (concat (es # ess)) = records_of es @ records_of (concat ess)" by (simp add: records_of_def)
  let ?xs = "concat (map (ForEachRecord (lb_bytes b)) (map (start_of es) [0..<length es]))"
  obtain result1 where r1: "cover_records ?xs result = Some result1" "length result1 = length result"
    "\<forall>f < length result. result1 ! f = fold extend_ranges (lsns f (records_of es)) (result ! f)"
    using cover_records_ok [of "lb_bytes b" ?xs result] Cons.prems unfolding decode_block [OF Cons.hyps(1)] split by auto
  obtain result2 where r2: "cover_blocks bs result1 = Some result2" "length result2 = length result1"
    "\<forall>f < length result1. result2 ! f = fold extend_ranges (lsns f (records_of (concat ess))) (result1 ! f)"
    using Cons.IH [of result1] Cons.prems r1(2) unfolding split by auto
  show ?case using r1 r2 scan_block [OF Cons.hyps(1)] unfolding split by (simp add: lsns_def)
qed

lemma Coverage_ok:
  assumes h: "core_ok h ess" and id: "hid = hi_history_id h" "0 < n"
  shows "\<exists>cov. Coverage hid n h = Some cov \<and> length cov = length (hi_last_lsns h) \<and>
    (\<forall>f < length cov. ranges_ok (cov ! f) \<and> length (cov ! f) \<le> n \<and> (\<forall>x. in_ranges x (cov ! f) \<longrightarrow> x \<in> set (lsns f (records_of (concat ess)))) \<and>
       (\<forall>x \<in> set (lsns f (records_of (concat ess))). in_ranges x (cov ! f) \<or> (\<forall>y. in_ranges y (cov ! f) \<longrightarrow> x < y)))"
proof -
  let ?rs = "records_of (concat ess)"
  have rs: "ordered_below (hi_last_lsns h) ?rs" using h by (simp add: core_ok_def)
  obtain result where r: "cover_blocks (hi_blocks h) (replicate (length (hi_last_lsns h)) []) = Some result" "length result = length (hi_last_lsns h)"
    "\<forall>f < length result. result ! f = fold extend_ranges (lsns f ?rs) []"
    using cover_blocks_ok [of "hi_blocks h" ess "replicate (length (hi_last_lsns h)) []"] h rs by (auto simp: core_ok_def ordered_below_def)
  let ?cov = "map (\<lambda>ranges. drop (length ranges - n) ranges) result"
  have "ranges_ok (?cov ! f) \<and> length (?cov ! f) \<le> n \<and> (\<forall>x. in_ranges x (?cov ! f) \<longrightarrow> x \<in> set (lsns f ?rs)) \<and>
      (\<forall>x \<in> set (lsns f ?rs). in_ranges x (?cov ! f) \<or> (\<forall>y. in_ranges y (?cov ! f) \<longrightarrow> x < y))" if "f < length result" for f
  proof -
    let ?k = "length (result ! f) - n"
    have cov: "?cov ! f = drop ?k (result ! f)" using that by simp
    have all: "ranges_ok (result ! f)" "in_ranges x (result ! f) \<longleftrightarrow> x \<in> set (lsns f ?rs)" for x
      using fold_extend_ranges [of "lsns f ?rs"] rs r(3) that by (auto simp: ordered_below_def lsns_def)
    have "in_ranges x (result ! f)" if "in_ranges x (drop ?k (result ! f))" for x
      using that by (auto simp: in_ranges_def dest: in_set_dropD)
    moreover have "ranges_ok (drop ?k (result ! f))" using all(1) by (rule ranges_ok_drop)
    ultimately show ?thesis unfolding cov using ranges_suffix [OF all(1), of _ ?k] all(2) by auto
  qed
  then show ?thesis using r(1,2) id by (intro exI [of _ ?cov]) (simp add: Coverage_def)
qed

end
