(* ===== verification/History_World.thy ===== *)
theory History_World
  imports History_Export "HOL-Library.Sublist"
begin

text \<open>
  The retained history under every sequence of calls its owner makes: it is reset for a new
  lineage, resized, charged for primary blocks and released from them, asked to give memory back,
  and offered applied effects, with reads in between.
\<close>

section \<open>Reachable histories\<close>

text \<open>A history, the primary charges that are out, and every record it accepted since its last reset.\<close>

inductive hreach :: "ReplicationHistory \<Rightarrow> nat list \<Rightarrow> NativeHistoryRecord list \<Rightarrow> bool" where
  start: "hreach (new_history capacity) [] []"
| reset: "hreach h charges log \<Longrightarrow> history_Reset hid flows h = Some (Inr (), h') \<Longrightarrow> hreach h' charges []"
| resize: "hreach h charges log \<Longrightarrow> SetCapacity capacity h = Some h' \<Longrightarrow> hreach h' charges log"
| charge: "hreach h charges log \<Longrightarrow> ChargePrimary n h = Some (Some n, h') \<Longrightarrow> hreach h' (n # charges) log"
| release: "hreach h charges log \<Longrightarrow> n \<in> set charges \<Longrightarrow> charge_Reset (Some n) h = Some (None, h') \<Longrightarrow> hreach h' (remove1 n charges) log"
| reclaim: "hreach h charges log \<Longrightarrow> ReclaimSecondary n h = Some h' \<Longrightarrow> hreach h' charges log"
| retain: "hreach h charges log \<Longrightarrow> env_ok env \<Longrightarrow> TryRetain env hid records h = Some (ok, h') \<Longrightarrow>
    hreach h' charges (if ok then log @ sort_key hr_flow_id records else log)"
| retain_one: "hreach h charges log \<Longrightarrow> env_ok env \<Longrightarrow> TryRetainOne env hid record h = Some (ok, h') \<Longrightarrow>
    hreach h' charges (if ok then log @ [record] else log)"
| describe: "hreach h charges log \<Longrightarrow> DescribeEffect env hid flow lsn h = Some (infos, h') \<Longrightarrow> hreach h' charges log"
| read: "hreach h charges log \<Longrightarrow> history_Read env hid flow lsn offset n h = Some (chunk, h') \<Longrightarrow> hreach h' charges log"

text \<open>
  The invariant: the blocks hold the newest accepted records within the quota that the
  outstanding charges leave.
\<close>

definition hist_ok :: "ReplicationHistory \<Rightarrow> nat list \<Rightarrow> NativeHistoryRecord list \<Rightarrow> effect list list \<Rightarrow> bool" where
  "hist_ok h charges log ess \<longleftrightarrow> core_ok h ess \<and> hi_secondary_bytes h \<le> SecondaryCapacity h \<and>
     hi_primary_bytes h = sum_list charges \<and> sum_list charges \<le> kSizeMax \<and> ordered_below (hi_last_lsns h) log \<and>
     suffix (records_of (concat ess)) log"

lemma suffix_records_drop: "suffix (records_of (concat (drop k ess))) (records_of (concat ess))"
  by (metis append_take_drop_id concat_append map_append records_of_def suffixI)

text \<open>What evicting blocks keeps.\<close>

lemma hist_ok_evicted:
  assumes "hist_ok h charges log ess" "core_ok h' (drop k ess)" "hi_secondary_bytes h' \<le> SecondaryCapacity h'"
    "hi_primary_bytes h' = sum_list charges'" "sum_list charges' \<le> kSizeMax" "hi_last_lsns h' = hi_last_lsns h"
  shows "hist_ok h' charges' log (drop k ess)"
  using assms suffix_records_drop [of k ess] by (auto simp: hist_ok_def intro: suffix_order.trans)

lemma hist_ok_same:
  assumes "hist_ok h charges log ess" "core_ok h' ess" "same_lineage h h'" "hi_secondary_bytes h' = hi_secondary_bytes h"
  shows "hist_ok h' charges log ess"
  using assms by (auto simp: hist_ok_def same_lineage_def SecondaryCapacity_def)

lemma reset_step:
  assumes "hist_ok h charges log ess"
  shows "\<exists>r h'. history_Reset hid flows h = Some (r, h') \<and>
    (if r = Inr () then hist_ok h' charges [] [] \<and> hi_history_id h' = hid \<and> length (hi_last_lsns h') = flows else h' = h)"
proof (cases "hid = [] \<or> flows = 0 \<or> flows > 1024")
  case False
  obtain h' where "evict_all h = Some h'" "same_lineage h h'" "hi_blocks h' = []" "hi_secondary_bytes h' = 0"
    using evict_all_ok [of h ess] assms by (auto simp: hist_ok_def)
  then show ?thesis using False assms
    by (auto simp: history_Reset_def hist_ok_def core_ok_def same_lineage_def records_of_def ordered_below_def lsns_def)
qed (use assms in \<open>auto simp: history_Reset_def\<close>)

lemma core_ok_quota: "core_ok h ess \<Longrightarrow> core_ok (h\<lparr>hi_capacity := c\<rparr>) ess" "core_ok h ess \<Longrightarrow> core_ok (h\<lparr>hi_primary_bytes := p\<rparr>) ess"
  by (simp_all add: core_ok_def)

lemma resize_step:
  assumes "hist_ok h charges log ess"
  shows "\<exists>h' k. SetCapacity capacity h = Some h' \<and> hist_ok h' charges log (drop k ess) \<and> hi_capacity h' = capacity"
proof -
  have "core_ok (h\<lparr>hi_capacity := capacity\<rparr>) ess" using assms by (simp add: hist_ok_def core_ok_quota)
  from Trim_ok [OF this] obtain h' k where t: "Trim (h\<lparr>hi_capacity := capacity\<rparr>) = Some h'" "same_lineage (h\<lparr>hi_capacity := capacity\<rparr>) h'"
    "core_ok h' (drop k ess)" "hi_secondary_bytes h' \<le> SecondaryCapacity h'" by blast
  have "hist_ok h' charges log (drop k ess)"
    using assms t by (intro hist_ok_evicted [OF assms]) (auto simp: hist_ok_def same_lineage_def)
  then show ?thesis using t(1,2) by (auto simp: SetCapacity_def same_lineage_def)
qed

lemma charge_step:
  assumes "hist_ok h charges log ess" "n + sum_list charges \<le> kSizeMax"
  shows "\<exists>h' k. ChargePrimary n h = Some (Some n, h') \<and> hist_ok h' (n # charges) log (drop k ess)"
proof -
  let ?h = "h\<lparr>hi_primary_bytes := hi_primary_bytes h + n\<rparr>"
  have "core_ok ?h ess" using assms by (simp add: hist_ok_def core_ok_quota)
  from Trim_ok [OF this] obtain h' k where t: "Trim ?h = Some h'" "same_lineage ?h h'"
    "core_ok h' (drop k ess)" "hi_secondary_bytes h' \<le> SecondaryCapacity h'" by blast
  have "hist_ok h' (n # charges) log (drop k ess)"
    using assms t by (intro hist_ok_evicted [OF assms(1)]) (auto simp: hist_ok_def same_lineage_def)
  then show ?thesis using t(1) assms by (auto simp: ChargePrimary_def hist_ok_def)
qed

lemma charge_overflow: "ChargePrimary n h = Some x \<Longrightarrow> hi_primary_bytes h \<le> kSizeMax \<Longrightarrow> n + hi_primary_bytes h \<le> kSizeMax"
  by (auto simp: ChargePrimary_def split: if_splits)

lemma release_step:
  assumes "hist_ok h charges log ess" "n \<in> set charges"
  shows "\<exists>h'. charge_Reset (Some n) h = Some (None, h') \<and> hist_ok h' (remove1 n charges) log ess"
proof -
  have sum: "sum_list charges = n + sum_list (remove1 n charges)" using assms(2) by (rule sum_list_map_remove1 [where f = id, simplified])
  have "core_ok (h\<lparr>hi_primary_bytes := hi_primary_bytes h - n\<rparr>) ess" using assms(1) by (simp add: hist_ok_def core_ok_quota)
  then show ?thesis using assms(1) sum by (auto simp: charge_Reset_def hist_ok_def SecondaryCapacity_def split: if_splits)
qed

lemma reclaim_step:
  assumes "hist_ok h charges log ess"
  shows "\<exists>h' k. ReclaimSecondary n h = Some h' \<and> hist_ok h' charges log (drop k ess) \<and> hi_secondary_bytes h' \<le> hi_secondary_bytes h - n"
proof -
  obtain h' k where e: "ReclaimSecondary n h = Some h'" "same_lineage h h'" "core_ok h' (drop k ess)"
    "hi_secondary_bytes h' \<le> hi_secondary_bytes h - min n (hi_secondary_bytes h)"
    using evict_above_ok [of h ess "hi_secondary_bytes h - min n (hi_secondary_bytes h)"] assms
    unfolding hist_ok_def ReclaimSecondary_def by blast
  have "hist_ok h' charges log (drop k ess)"
    using assms e SecondaryCapacity_same [OF e(2)] by (intro hist_ok_evicted [OF assms]) (auto simp: hist_ok_def same_lineage_def)
  then show ?thesis using e by auto
qed

lemma retain_step:
  assumes h: "hist_ok h charges log ess" and env: "env_ok env" and sorted: "sorted (map hr_flow_id rs)"
  shows "\<exists>ok h' ess'. RetainSorted env hid rs h = Some (ok, h') \<and> hist_ok h' charges (if ok then log @ rs else log) ess' \<and>
    hi_history_id h' = hi_history_id h \<and> length (hi_last_lsns h') = length (hi_last_lsns h) \<and>
    (ok \<longrightarrow> hid = hi_history_id h \<and> admitted h rs \<and> set rs \<subseteq> set (records_of (concat ess')))"
proof -
  obtain ok h' ess' k where r: "RetainSorted env hid rs h = Some (ok, h')" "ok \<longrightarrow> hid = hi_history_id h \<and> admitted h rs"
    "core_ok h' ess'" "hi_secondary_bytes h' \<le> SecondaryCapacity h'" "hi_primary_bytes h' = hi_primary_bytes h" "hi_history_id h' = hi_history_id h"
    "records_of (concat ess') = records_of (concat (drop k ess)) @ (if ok then rs else [])"
    "hi_last_lsns h' = (if ok then raised rs (hi_last_lsns h) else hi_last_lsns h)"
    using RetainSorted_ok [OF _ env sorted, of h ess hid] h unfolding hist_ok_def retained_as_def by blast
  have "suffix (records_of (concat (drop k ess))) log" using h suffix_records_drop suffix_order.trans unfolding hist_ok_def by blast
  then have "suffix (records_of (concat ess')) (if ok then log @ rs else log)" using r(7) by (simp add: suffix_def)
  moreover have "ordered_below (hi_last_lsns h') (if ok then log @ rs else log)"
    using h r(2,8) ordered_below_raised [of "hi_last_lsns h" log rs] by (auto simp: hist_ok_def admitted_def)
  ultimately show ?thesis using r h by (intro exI [of _ ok] exI [of _ h'] exI [of _ ess']) (auto simp: hist_ok_def)
qed

lemma read_step:
  assumes "hist_ok h charges log ess"
  shows "\<exists>x h'. history_Read env hid flow lsn offset n h = Some (x, h') \<and> hist_ok h' charges log ess \<and>
    (0 < n \<and> n \<le> 64 * 1024 \<and> hid = hi_history_id h \<and> flow < length (hi_last_lsns h) \<longrightarrow> read_answer (records_of (concat ess)) flow lsn offset n x)"
proof -
  have core: "core_ok h ess" using assms by (simp add: hist_ok_def)
  show ?thesis using history_Read_ok [OF core, of env hid flow lsn offset n] hist_ok_same [OF assms] by blast
qed

lemma describe_step:
  assumes "hist_ok h charges log ess"
  shows "\<exists>x h'. DescribeEffect env hid flow lsn h = Some (x, h') \<and> hist_ok h' charges log ess"
proof -
  have core: "core_ok h ess" using assms by (simp add: hist_ok_def)
  obtain x h' where d: "DescribeEffect env hid flow lsn h = Some (x, h')" "core_ok h' ess" "same_lineage h h'"
    "hi_secondary_bytes h' = hi_secondary_bytes h" using DescribeEffect_ok [OF core, of env hid flow lsn] by blast
  then show ?thesis using hist_ok_same [OF assms d(2-4)] by blast
qed

lemma hreach_ok: "hreach h charges log \<Longrightarrow> \<exists>ess. hist_ok h charges log ess"
proof (induction rule: hreach.induct)
  case (start capacity)
  have "hist_ok (new_history capacity) [] [] []"
    by (simp add: hist_ok_def core_ok_def new_history_def records_of_def ordered_below_def lsns_def)
  then show ?case by blast
next
  case (reset h charges log hid flows h')
  then obtain ess where "hist_ok h charges log ess" by blast
  from reset_step [OF this, of hid flows] show ?case using reset.hyps(2) by auto
next
  case (resize h charges log capacity h')
  then obtain ess where ess: "hist_ok h charges log ess" by blast
  from resize_step [OF ess, of capacity] show ?case using resize.hyps(2) by auto
next
  case (charge h charges log n h')
  then obtain ess where h: "hist_ok h charges log ess" by blast
  then have "n + sum_list charges \<le> kSizeMax" using charge_overflow [OF charge.hyps(2)] by (simp add: hist_ok_def)
  from charge_step [OF h this] show ?case using charge.hyps(2) by auto
next
  case (release h charges log n h')
  then obtain ess where ess: "hist_ok h charges log ess" by blast
  from release_step [OF ess release.hyps(2)] show ?case using release.hyps(3) by auto
next
  case (reclaim h charges log n h')
  then obtain ess where ess: "hist_ok h charges log ess" by blast
  from reclaim_step [OF ess, of n] show ?case using reclaim.hyps(2) by auto
next
  case (retain h charges log env hid records ok h')
  then obtain ess where "hist_ok h charges log ess" by blast
  from retain_step [OF this retain.hyps(2), of "sort_key hr_flow_id records" hid] show ?case
    using retain.hyps(3) by (auto simp: TryRetain_def)
next
  case (retain_one h charges log env hid r ok h')
  then obtain ess where "hist_ok h charges log ess" by blast
  from retain_step [OF this retain_one.hyps(2), of "[r]" hid] show ?case
    using retain_one.hyps(3) by (auto simp: TryRetainOne_def)
next
  case (describe h charges log env hid flow lsn infos h')
  then obtain ess where ess: "hist_ok h charges log ess" by blast
  from describe_step [OF ess, of env hid flow lsn] show ?case using describe.hyps(2) by auto
next
  case (read h charges log env hid flow lsn offset n chunk h')
  then obtain ess where ess: "hist_ok h charges log ess" by blast
  from read_step [OF ess, of env hid flow lsn offset n] show ?case using read.hyps(2) by auto
qed

section \<open>A concrete history\<close>

text \<open>Two flows and a quota of 64 bytes; the effect has a record in each flow.\<close>

definition demo_env :: memory_env where
  "demo_env = \<lparr>me_good_size = \<lambda>n. n, me_reserve = \<lambda>_. True, me_fresh = \<lambda>n. replicate n 0\<rparr>"

definition demo_history :: ReplicationHistory where
  "demo_history = (new_history 64)\<lparr>hi_history_id := ''h'', hi_last_lsns := [0, 0]\<rparr>"

definition demo_records :: "NativeHistoryRecord list" where
  "demo_records = [\<lparr>hr_flow_id = 1, hr_lsn = 5, hr_canonical = [7]\<rparr>, \<lparr>hr_flow_id = 0, hr_lsn = 3, hr_canonical = [1, 2]\<rparr>]"

lemma demo_env_ok: "env_ok demo_env"
  by (simp add: env_ok_def demo_env_def)

lemma demo_reach: "hreach demo_history [] []"
  by (rule hreach.reset [of "new_history 64" "[]" "[]" "''h''" 2], rule hreach.start)
    (simp add: history_Reset_def new_history_def demo_history_def evict_all.simps numeral_2_eq_2)

lemma demo_room: "\<exists>h. make_room demo_env 56 64 demo_history = Some (True, h) \<and> hi_history_id h = ''h'' \<and> hi_last_lsns h = [0, 0] \<and> hi_next_effect h = 1 \<and>
   (\<exists>b. hi_blocks h = [b] \<and> lb_committed_bytes b = 0 \<and> lb_capacity b = 64 \<and> \<not> lb_sealed b \<and> lb_frame_count b = 0 \<and> lb_sparse_offsets b = [] \<and> lb_last_lsn b = 0)"
  by (simp add: demo_history_def new_history_def make_room_def kStorageBlockBytes_def demo_env_def Allocate_def AllocationBytes_def
      kMinimumRecordBytes_def kSizeMax_def kU32Max_def AllocatorUsableSizeForRequest_def SparseCount_def kSparseStride_def
      kSparseOffsetBytes_def new_block_def ReplicationLogBlock.defs HistoryBlock.defs)

lemma demo_retain: "\<exists>h. TryRetain demo_env ''h'' demo_records demo_history = Some (True, h) \<and> hi_history_id h = ''h'' \<and> length (hi_last_lsns h) = 2"
proof -
  have size: "unat (AlignRecord 51) = 56" by (simp add: AlignRecord_def kRecordAlignment_def)
  obtain h b where h: "make_room demo_env 56 64 demo_history = Some (True, h)" "hi_history_id h = ''h''" "hi_last_lsns h = [0, 0]" "hi_next_effect h = 1"
    "hi_blocks h = [b]" "lb_committed_bytes b = 0" "lb_capacity b = 64" "\<not> lb_sealed b" "lb_frame_count b = 0" "lb_sparse_offsets b = []" "lb_last_lsn b = 0" using demo_room by blast
  have "TryRetain demo_env ''h'' demo_records demo_history = append_effect (sort_key hr_flow_id demo_records) 56 h"
    using h(1) size by (simp add: TryRetain_def RetainSorted_def demo_records_def demo_history_def new_history_def kHeaderBytes_def kU32Max_def SecondaryCapacity_def Let_def)
  moreover have "AppendBuffer 56 (b\<lparr>lb_bytes := m, hb_record_count := n\<rparr>) = Some 0" for m n
    using h(6-) by (simp add: AppendBuffer_def kMinimumRecordBytes_def)
  ultimately show ?thesis using h(2-) by (simp add: append_effect_def AppendBuffer_def CommitAppend_def demo_records_def Let_def kU32Max_def kSparseStride_def SparseCount_def kMinimumRecordBytes_def)
qed
lemma demo_retained:
  obtains h where "TryRetain demo_env ''h'' demo_records demo_history = Some (True, h)" "hi_history_id h = ''h''" "length (hi_last_lsns h) = 2"
    "hreach h [] (sort_key hr_flow_id demo_records)"
proof -
  obtain h where h: "TryRetain demo_env ''h'' demo_records demo_history = Some (True, h)" "hi_history_id h = ''h''" "length (hi_last_lsns h) = 2"
    using demo_retain by blast
  then show ?thesis using that hreach.retain [OF demo_reach demo_env_ok h(1)] by simp
qed

section \<open>Properties\<close>

text \<open>
  (C33) Quota. In every reachable history the retained bytes are the capacities of its blocks, the
  primary bytes are the outstanding charges, and the blocks fit into what the charges leave of the
  capacity, also when the charges alone exceed it.
\<close>
theorem history_within_quota:
  assumes "hreach h charges log"
  shows "hi_secondary_bytes h = sum_list (map lb_capacity (hi_blocks h)) \<and> hi_primary_bytes h = sum_list charges \<and>
    hi_secondary_bytes h \<le> hi_capacity h - sum_list charges \<and> (\<forall>b \<in> set (hi_blocks h). lb_committed_bytes b \<le> lb_capacity b)"
proof -
  obtain ess where h: "hist_ok h charges log ess" using hreach_ok [OF assms] by blast
  have "lb_committed_bytes b \<le> lb_capacity b" if "b \<in> set (hi_blocks h)" for b
    using h that by (auto simp: hist_ok_def core_ok_def block_ok_def block_frames_def list_all2_conv_all_nth in_set_conv_nth)
  then show ?thesis using h by (auto simp: hist_ok_def core_ok_def SecondaryCapacity_def split: if_splits)
qed

theorem history_within_quota_witness:
  "\<exists>h. hreach h [] (sort_key hr_flow_id demo_records) \<and> hi_secondary_bytes h = sum_list (map lb_capacity (hi_blocks h))"
  by (rule demo_retained) (use history_within_quota in blast)

text \<open>
  (C29) Operations of a reachable history return: resetting, resizing, releasing an outstanding
  charge, reclaiming, retaining, advertising, describing and reading neither fail an assertion nor
  terminate the process nor loop. A charge returns exactly when the outstanding charges and
  the new one add up to a representable size; otherwise the process is terminated, as the code
  intends.
\<close>
theorem history_operations_return:
  assumes "hreach h charges log" "env_ok env"
  shows "history_Reset hid flows h \<noteq> None \<and> SetCapacity capacity h \<noteq> None \<and>
    (ChargePrimary n h = None \<longleftrightarrow> kSizeMax < n + sum_list charges) \<and> (c \<in> set charges \<longrightarrow> charge_Reset (Some c) h \<noteq> None) \<and>
    ReclaimSecondary n h \<noteq> None \<and> TryRetain env hid records h \<noteq> None \<and> TryRetainOne env hid r h \<noteq> None \<and>
    Coverage hid n h \<noteq> None \<and> DescribeEffect env hid flow lsn h \<noteq> None \<and> history_Read env hid flow lsn offset n h \<noteq> None"
proof -
  obtain ess where h: "hist_ok h charges log ess" using hreach_ok [OF assms(1)] by blast
  have "Coverage hid n h \<noteq> None"
    using Coverage_ok [of h ess hid n] h by (cases "hid \<noteq> hi_history_id h \<or> n = 0") (auto simp: hist_ok_def Coverage_def)
  moreover have "TryRetain env hid records h \<noteq> None" "TryRetainOne env hid r h \<noteq> None"
    using retain_step [OF h assms(2), of "sort_key hr_flow_id records" hid] retain_step [OF h assms(2), of "[r]" hid]
    by (auto simp: TryRetain_def TryRetainOne_def)
  moreover have "ChargePrimary n h = None \<longleftrightarrow> kSizeMax < n + sum_list charges"
  proof (cases "kSizeMax < n + sum_list charges")
    case True
    then show ?thesis using h by (auto simp: ChargePrimary_def hist_ok_def)
  next
    case False
    then show ?thesis using charge_step [OF h, of n] by auto
  qed
  ultimately show ?thesis
    using reset_step [OF h, of hid flows] resize_step [OF h, of capacity] release_step [OF h, of c]
      reclaim_step [OF h, of n] describe_step [OF h, of env hid flow lsn] read_step [OF h, of env hid flow lsn offset n]
    by force
qed

theorem history_operations_return_witness:
  "hreach demo_history [] [] \<and> ReclaimSecondary 8 demo_history \<noteq> None \<and> TryRetain demo_env ''h'' demo_records demo_history \<noteq> None \<and>
   ChargePrimary 8 demo_history \<noteq> None"
  using history_operations_return [OF demo_reach demo_env_ok, where hid = "''h''" and records = demo_records and n = 8] demo_reach
  by (simp add: kSizeMax_def)

text \<open>The bytes a read of a record returns from an offset on.\<close>

definition slice_of :: "NativeHistoryRecord \<Rightarrow> nat \<Rightarrow> nat \<Rightarrow> NativeHistoryChunk status_or" where
  "slice_of r offset n =
     (if offset \<ge> length (hr_canonical r) then Inl OutOfRange
      else Inr \<lparr>ck_total_bytes = length (hr_canonical r), ck_bytes = take n (drop offset (hr_canonical r))\<rparr>)"

lemma read_answer_in:
  assumes "hist_ok h charges log ess" "read_answer (records_of (concat ess)) flow lsn offset n x"
  shows "x = Inl NotFound \<and> (\<forall>r \<in> set (records_of (concat ess)). \<not> matches_record flow lsn r) \<or>
    (\<exists>r \<in> set (records_of (concat ess)). matches_record flow lsn r \<and> x = slice_of r offset n)"
  using assms(2) by (auto simp: read_answer_def slice_of_def find_None_iff find_Some_iff split: option.splits)

lemma log_unique:
  assumes "hist_ok h charges log ess" "r \<in> set log" "r' \<in> set log" "matches_record flow lsn r" "matches_record flow lsn r'"
  shows "r' = r"
  using assms unique_record [of "hi_last_lsns h" log r' r] by (simp add: hist_ok_def matches_record_def)

lemma retained_in_log: "hist_ok h charges log ess \<Longrightarrow> set (records_of (concat ess)) \<subseteq> set log"
  by (simp add: hist_ok_def set_mono_suffix)

text \<open>
  (C20) A read never returns bytes other than those that were retained: every read of the current
  lineage reports a gap, or exactly one record with that flow and number was accepted since the
  lineage began and the answer is the requested slice of its original bytes.
\<close>
theorem history_read_exact:
  assumes "hreach h charges log" "0 < n" "n \<le> 64 * 1024" "flow < length (hi_last_lsns h)"
  shows "\<exists>x h'. history_Read env (hi_history_id h) flow lsn offset n h = Some (x, h') \<and>
    (x = Inl NotFound \<or> (\<exists>r. {r' \<in> set log. hr_flow_id r' = flow \<and> hr_lsn r' = lsn} = {r} \<and> x = slice_of r offset n))"
proof -
  obtain ess where h: "hist_ok h charges log ess" using hreach_ok [OF assms(1)] by blast
  obtain x h' where r: "history_Read env (hi_history_id h) flow lsn offset n h = Some (x, h')" "read_answer (records_of (concat ess)) flow lsn offset n x"
    using read_step [OF h, of env "hi_history_id h" flow lsn offset n] assms(2-4) by auto
  have "\<exists>r. {r' \<in> set log. hr_flow_id r' = flow \<and> hr_lsn r' = lsn} = {r} \<and> x = slice_of r offset n" if x: "x \<noteq> Inl NotFound"
  proof -
    obtain r where r': "r \<in> set (records_of (concat ess))" "matches_record flow lsn r" "x = slice_of r offset n"
      using read_answer_in [OF h r(2)] x by blast
    then have log: "r \<in> set log" using retained_in_log [OF h] by blast
    have "r'' = r" if "r'' \<in> set log" "matches_record flow lsn r''" for r'' using log_unique [OF h log that(1) r'(2) that(2)] .
    then have "{r' \<in> set log. matches_record flow lsn r'} = {r}" using log r'(2) by blast
    then show ?thesis using r'(3) by (auto simp: matches_record_def)
  qed
  then show ?thesis using r(1) by (intro exI [of _ x] exI [of _ h'] conjI) (assumption, cases "x = Inl NotFound", simp, simp)
qed

theorem history_read_exact_witness:
  "\<exists>h x h'. hreach h [] (sort_key hr_flow_id demo_records) \<and> history_Read demo_env ''h'' 1 5 0 100 h = Some (x, h')"
proof (rule demo_retained)
  fix h assume h: "hi_history_id h = ''h''" "length (hi_last_lsns h) = 2" "hreach h [] (sort_key hr_flow_id demo_records)"
  from history_read_exact [OF h(3), of 100 1 demo_env 5 0] h show ?thesis by auto
qed

text \<open>
  (C17) Round trip. Once an effect was retained, each of its records can be read back from any
  offset, whole or in pieces, with the bytes that were handed in.
\<close>
theorem retained_readable:
  assumes "hreach h charges log" "env_ok env" "TryRetain env hid records h = Some (True, h')" "r \<in> set records" "0 < n" "n \<le> 64 * 1024"
  shows "\<exists>h''. history_Read env' hid (hr_flow_id r) (hr_lsn r) offset n h' = Some (slice_of r offset n, h'')"
proof -
  obtain ess where h: "hist_ok h charges log ess" using hreach_ok [OF assms(1)] by blast
  let ?rs = "sort_key hr_flow_id records"
  obtain ess' where s: "hist_ok h' charges (log @ ?rs) ess'" "hi_history_id h' = hid" "length (hi_last_lsns h') = length (hi_last_lsns h)"
      "admitted h ?rs" "set ?rs \<subseteq> set (records_of (concat ess'))"
    using retain_step [OF h assms(2), of ?rs hid] assms(3) by (auto simp: TryRetain_def)
  have "hr_flow_id r < length (hi_last_lsns h')" using s(3,4) assms(4) by (simp add: admitted_def)
  then obtain x h'' where x: "history_Read env' hid (hr_flow_id r) (hr_lsn r) offset n h' = Some (x, h'')"
    "read_answer (records_of (concat ess')) (hr_flow_id r) (hr_lsn r) offset n x"
    using read_step [OF s(1), of env' hid "hr_flow_id r" "hr_lsn r" offset n] assms(5,6) s(2) by blast
  have r: "r \<in> set (records_of (concat ess'))" "matches_record (hr_flow_id r) (hr_lsn r) r"
    using s(5) assms(4) by (auto simp: matches_record_def)
  then obtain r' where "r' \<in> set (records_of (concat ess'))" "matches_record (hr_flow_id r) (hr_lsn r) r'" "x = slice_of r' offset n"
    using read_answer_in [OF s(1) x(2)] by blast
  then have "x = slice_of r offset n" using log_unique [OF s(1) _ _ r(2)] retained_in_log [OF s(1)] r(1) by blast
  then show ?thesis using x(1) by blast
qed

theorem retained_readable_witness:
  "\<exists>h' h''. TryRetain demo_env ''h'' demo_records demo_history = Some (True, h') \<and>
     history_Read demo_env ''h'' 0 3 1 10 h' = Some (Inr \<lparr>ck_total_bytes = 2, ck_bytes = [2]\<rparr>, h'')"
proof (rule demo_retained)
  fix h' assume "TryRetain demo_env ''h'' demo_records demo_history = Some (True, h')"
  from retained_readable [OF demo_reach demo_env_ok this, of "demo_records ! 1" 10 demo_env 1] this
  show ?thesis by (auto simp: demo_records_def slice_of_def)
qed

text \<open>A record is readable when the first byte of it can be read.\<close>

definition readable :: "memory_env \<Rightarrow> ReplicationHistory \<Rightarrow> nat \<Rightarrow> u64 \<Rightarrow> bool" where
  "readable env h flow lsn \<longleftrightarrow> (case history_Read env (hi_history_id h) flow lsn 0 1 h of Some (Inr _, _) \<Rightarrow> True | _ \<Rightarrow> False)"

lemma retained_nonempty:
  assumes "core_ok h ess" "r \<in> set (records_of (concat ess))"
  shows "hr_canonical r \<noteq> []"
proof -
  obtain es e where e: "es \<in> set ess" "e \<in> set es" "r \<in> set (snd e)" using assms(2) by (auto simp: records_of_def)
  then obtain b where "block_ok b es" using assms(1) by (auto simp: core_ok_def list_all2_conv_all_nth in_set_conv_nth)
  then have "records_ok (snd e)" using e(2) by (auto simp: block_ok_def laid_def effect_at_def in_set_conv_nth)
  then show ?thesis using e(3) by (simp add: records_ok_def)
qed

lemma readable_iff:
  assumes h: "hist_ok h charges log ess" and flow: "flow < length (hi_last_lsns h)"
  shows "readable env h flow lsn \<longleftrightarrow> lsn \<in> set (lsns flow (records_of (concat ess)))"
proof -
  obtain x h' where x: "history_Read env (hi_history_id h) flow lsn 0 1 h = Some (x, h')" "read_answer (records_of (concat ess)) flow lsn 0 1 x"
    using read_step [OF h, of env "hi_history_id h" flow lsn 0 1] flow by auto
  have "(\<exists>r \<in> set (records_of (concat ess)). matches_record flow lsn r) \<longleftrightarrow> lsn \<in> set (lsns flow (records_of (concat ess)))"
    by (auto simp: lsns_def matches_record_def)
  moreover have "hr_canonical r \<noteq> []" if "r \<in> set (records_of (concat ess))" for r
    using retained_nonempty [of h ess, OF _ that] h by (simp add: hist_ok_def)
  ultimately show ?thesis
    using read_answer_in [OF h x(2)] x(1) by (auto simp: readable_def slice_of_def)
qed

text \<open>
  (C27) The advertised coverage is exact: per flow at most the allowed number of non-empty ranges, in
  increasing order and apart from each other; every number in them can be read; and a number that
  can be read is in them or older than all of them.
\<close>
theorem coverage_exact:
  assumes "hreach h charges log" "0 < m"
  shows "\<exists>cov. Coverage (hi_history_id h) m h = Some cov \<and> length cov = length (hi_last_lsns h) \<and>
    (\<forall>flow < length cov. ranges_ok (cov ! flow) \<and> length (cov ! flow) \<le> m \<and>
       (\<forall>lsn. in_ranges lsn (cov ! flow) \<longrightarrow> readable env h flow lsn) \<and>
       (\<forall>lsn. readable env h flow lsn \<longrightarrow> in_ranges lsn (cov ! flow) \<or> (\<forall>l. in_ranges l (cov ! flow) \<longrightarrow> lsn < l)))"
proof -
  obtain ess where h: "hist_ok h charges log ess" using hreach_ok [OF assms(1)] by blast
  then have "core_ok h ess" by (simp add: hist_ok_def)
  from Coverage_ok [OF this refl assms(2)] obtain cov where c: "Coverage (hi_history_id h) m h = Some cov" "length cov = length (hi_last_lsns h)"
    "\<forall>f < length cov. ranges_ok (cov ! f) \<and> length (cov ! f) \<le> m \<and> (\<forall>x. in_ranges x (cov ! f) \<longrightarrow> x \<in> set (lsns f (records_of (concat ess)))) \<and>
       (\<forall>x \<in> set (lsns f (records_of (concat ess))). in_ranges x (cov ! f) \<or> (\<forall>y. in_ranges y (cov ! f) \<longrightarrow> x < y))" by blast
  have "readable env h f l \<longleftrightarrow> l \<in> set (lsns f (records_of (concat ess)))" if "f < length cov" for f l
    using readable_iff [OF h] that c(2) by simp
  then show ?thesis using c by (intro exI [of _ cov]) simp
qed

theorem coverage_exact_witness:
  "\<exists>h cov. hreach h [] (sort_key hr_flow_id demo_records) \<and> Coverage ''h'' 4 h = Some cov \<and> length cov = 2"
proof (rule demo_retained)
  fix h assume h: "hi_history_id h = ''h''" "length (hi_last_lsns h) = 2" "hreach h [] (sort_key hr_flow_id demo_records)"
  from coverage_exact [OF h(3), of 4 demo_env] h show ?thesis by auto
qed

end
