(* ===== verification/Spec2Isabelle.thy ===== *)
theory Spec2Isabelle
  imports Tx_World Tx_Watch Transaction Lease_Safety Format_Safety Resp_Roundtrip Glob Redis_Parse
    Frontier_Snapshot History_World
begin

text \<open>
  Verification of Lavik, a Redis-compatible key-value server that keeps its data on block
  devices. A server process has one worker per core; each worker owns a share of the keys and
  runs its coroutines one at a time. A request is read by the RESP parser of a connection,
  admitted by the cluster gate (which node owns the slot, does the node hold the lease), executed
  under the locks of the transaction scheduler of each worker that owns one of its keys, written
  in the records of the storage format, streamed to replicas, and answered by the reply
  builder. File names are relative to \<^verbatim>\<open>src/\<close>.

  \<^bold>\<open>Conventions.\<close> Machine integers that can wrap are words (\<open>u8\<close>, \<open>u16\<close>, \<open>u32\<close>, \<open>u64\<close>). A violated
  assertion, an out-of-range access and a call of \<^verbatim>\<open>std::terminate\<close> is the value \<^term>\<open>None\<close>, so a
  theorem that an operation returns \<^term>\<open>Some\<close> result says that no assertion fails. A status is a value of
  \<open>status\<close>, and a fallible operation returns \<open>status + 'a\<close>; message texts are left out. C++
  structs are records with a prefix per struct, and definitions keep the names of the code. The
  checksum \<^verbatim>\<open>absl::ComputeCrc32c\<close>, the padding bytes of structs, the allocator and the numeric host
  parser of the C library are arguments of the definitions that use them.

  \<^bold>\<open>Shared theories.\<close> \<open>Prelude\<close> has the word types, the status type and lemmas on bounded counters.
  \<open>Bytes\<close> has little-endian integers, loads and stores, the checksum seal and the locale \<open>codec\<close>, the
  contract of an encoder and its decoder. \<open>Decimal\<close> models \<^verbatim>\<open>std::to_chars\<close> and \<^verbatim>\<open>std::from_chars\<close>.

  \<^bold>\<open>Transaction scheduler\<close> (\<^verbatim>\<open>include/lavik/tx\<close>, \<^verbatim>\<open>src/tx\<close>).
  \<^item> \<open>Lock_Table\<close>: the two counters per key of \<^verbatim>\<open>LockTable\<close>, one definition per operation; the locale
    \<open>cell_op\<close> is the effect of an operation on one cell.
  \<^item> \<open>Key_Sets\<close>: the operations of \<^verbatim>\<open>TxShard\<close> on a key set, against multisets of registered requests.
  \<^item> \<open>Tx_Queue\<close>: \<^verbatim>\<open>TxQueue\<close> with tombstones; the locale \<open>txid_ordered\<close> is its contract towards the shard.
  \<^item> \<open>Tx_Shard\<close>: acquisition, queueing, \<^verbatim>\<open>Poll\<close>, release and the transaction entry points of
    \<^verbatim>\<open>tx_shard.h\<close> and \<^verbatim>\<open>tx_shard.cpp\<close>. \<open>Tx_Invariant\<close> states the scheduling invariant and shows that polling keeps
    it, \<open>Tx_Operations\<close> does so for every other operation.
  \<^item> \<open>Tx_World\<close>: the shard with all parties that drive it as an inductive step relation, one step per
    non-suspending section of code; mutual exclusion, queue order, absence of lost wake-ups and
    the possibility to drain hold in every reachable state.
  \<^item> \<open>Tx_Watch\<close>: the WATCH registrations, refined from a map by the locale \<open>watch_registry\<close>.
  \<^item> \<open>Transaction\<close>: key collection, sealing and the barrier rounds of \<^verbatim>\<open>transaction.cpp\<close>; sealing is right below
    65536 keys and wraps at that number.

  \<^bold>\<open>Cluster data plane\<close> (\<^verbatim>\<open>include/lavik/cluster\<close>, \<^verbatim>\<open>src/cluster\<close>).
  \<^item> \<open>Topology\<close>, \<open>Snapshot\<close>: identities, the snapshot builder of \<^verbatim>\<open>topology.cpp\<close>, lookups and
    publication; which builders are accepted, what the snapshot answers and what its content hash identifies.
  \<^item> \<open>Authority\<close>, \<open>Lease_Safety\<close>: admission, leases, re-checks and in-flight registration of
    \<^verbatim>\<open>authority.cpp\<close>; a request is served only under an unexpired lease, a re-check succeeds only when
    that lease was held without a gap, and a revocation is final.

  \<^bold>\<open>Storage format\<close> (\<^verbatim>\<open>include/lavik/storage/format.h\<close>, \<^verbatim>\<open>src/storage/format.cpp\<close>).
  \<^item> \<open>Key_Hash\<close>: SipHash, hash tags and Redis slots. \<open>Format\<close>, \<open>Headers\<close>: the durable structures, layout
    arithmetic and codecs.
  \<^item> \<open>Format_Roundtrip\<close>, \<open>Record_Roundtrip\<close>, \<open>Format_Safety\<close>: round trips of every codec as interpretations
    of \<open>codec\<close>, atomicity of header updates under torn writes, bounds of decoded records, layout.

  \<^bold>\<open>Client protocol\<close> (\<^verbatim>\<open>src/redis/resp.cpp\<close> and headers).
  \<^item> \<open>Resp\<close>, \<open>Resp_Safety\<close>: the incremental request parser. The parse loop is a partial function with an
    option result, so that not returning would be \<^term>\<open>None\<close>; it is shown to return on every input, not to
    depend on how the input is cut into chunks and to keep its state within the query buffer limit,
    also when that limit is lowered in the middle of a request.
  \<^item> \<open>Reply\<close>, \<open>Resp_Roundtrip\<close>: the reply builder, and that requests written with it are read back.
  \<^item> \<open>Glob\<close>: the backtracking matcher, equal to the declarative matching relation.
  \<^item> \<open>Redis_Parse\<close>: integer arguments, expiration deadlines and numeric endpoints.

  \<^bold>\<open>Replication\<close> (\<^verbatim>\<open>src/replication\<close>, \<^verbatim>\<open>include/lavik/replication_history.h\<close>).
  \<^item> \<open>Frontier\<close>: \<^verbatim>\<open>ReplicaAppliedFrontier\<close>, the next unapplied event of every flow; single events, batches,
    installation, and the snapshot reader one atomic load at a time. \<open>Frontier_Snapshot\<close>: readers interleaved
    with publishers and installations; a snapshot never shows part of a batch, and it always ends.
  \<^item> \<open>Log_Block\<close>: the byte blocks of \<^verbatim>\<open>log_block.cpp\<close> with their sparse offsets; the locale \<open>boundary_log\<close> says that
    a lookup returns a record boundary from which a scan meets the record.
  \<^item> \<open>History\<close>: the retained effects of a worker, \<^verbatim>\<open>replication_history.cpp\<close>. \<open>History_Frames\<close> shows what the
    framing in the blocks reads back, \<open>History_Safety\<close> that every operation keeps the invariant,
    \<open>History_Export\<close> what reads and the advertised ranges return. \<open>History_World\<close> takes the history through
    every sequence of calls: it stays within its quota, no assertion fails, reads return the
    original bytes or a gap, and what is advertised can be read.

  \<^bold>\<open>Bounds.\<close> Loops are structural recursions, functions with a termination proof, or, for the RESP
  parser and the scans of a history block, partial functions whose termination is a theorem. The
  sequential snapshot runs a number of reader steps that is shown to be enough. Whether the memory
  budget admits a request is fixed during one call and free between calls.
  Theorems that need a counter not to overflow state the bound as a hypothesis.

  \<^bold>\<open>Not modelled.\<close>
  \<^item> The storage engine (\<^verbatim>\<open>src/storage/engine\<close>), recovery and checkpoints: coroutines over asynchronous
    device I/O and a runtime outside the repository.
  \<^item> The command implementations, Lua, pub/sub, monitor and server loops of \<^verbatim>\<open>src/redis\<close>, which drive the
    engine and sockets; RDB files; floating-point parsing and printing.
  \<^item> The replication sessions, replay, recovery and command codecs of \<^verbatim>\<open>src/replication\<close>. The frontier is
    modelled with sequentially consistent atomics; weaker orders of the hardware are not.
  \<^item> The metadata service (\<^verbatim>\<open>src/meta\<close>) and the control protocol and clients of \<^verbatim>\<open>src/cluster\<close>.
  \<^item> Configuration, logging, metrics, memory accounting, the executables and the bundled
    libraries.
\<close>

end
